(* ===== verification/Prelude.thy ===== *)
theory Prelude
  imports Main "HOL-Library.Word"
begin

text \<open>
  Shared vocabulary of the development: C++ failure values and the sequencing of
  fallible operations, machine integer types, the sequence operations of the C++
  standard library that the sources use (\<^verbatim>\<open>std::vector\<close>, \<^verbatim>\<open>std::copy\<close>), the part of the
  process state every component touches (error loggers, clock readings), and the
  collections of simplification rules that carry the component proofs.
\<close>

section \<open>Failures and sequencing\<close>

text \<open>
  The build sets no \<^verbatim>\<open>NDEBUG\<close>, so a failed \<^verbatim>\<open>assert\<close> aborts.  A run that leaves the
  defined behaviour of C++ (a null dereference, an access outside an array, a
  floating-point to integer conversion out of range) is a failure value too: nothing
  is claimed about what the program does afterwards.
\<close>

datatype cpp_error =
    Assert_failed
  | Bad_deref
  | Out_of_range
  | Length_error
  | Conversion_overflow
  | Signed_overflow
  | Bad_function_call
  | Aborted

type_synonym 'a res = "cpp_error + 'a"

definition andthen :: "'a res \<Rightarrow> ('a \<Rightarrow> 'b res) \<Rightarrow> 'b res" where
  "andthen m f = (case m of Inl e \<Rightarrow> Inl e | Inr a \<Rightarrow> f a)"

definition cpp_assert :: "bool \<Rightarrow> 'a res \<Rightarrow> 'a res" where
  "cpp_assert P k = (if P then k else Inl Assert_failed)"

named_theorems res_simps \<open>evaluation of fallible operations\<close>

lemma andthen_simps [simp, res_simps]:
  "andthen (Inl e) f = Inl e"
  "andthen (Inr a) f = f a"
  by (simp_all add: andthen_def)

lemma andthen_eq_Inr [simp]:
  "andthen m f = Inr b \<longleftrightarrow> (\<exists>a. m = Inr a \<and> f a = Inr b)"
  by (cases m) simp_all

lemma andthen_assoc: "andthen (andthen m f) g = andthen m (\<lambda>a. andthen (f a) g)"
  by (cases m) simp_all

lemma andthen_cong [fundef_cong]:
  "m = m' \<Longrightarrow> (\<And>a. m' = Inr a \<Longrightarrow> f a = f' a) \<Longrightarrow> andthen m f = andthen m' f'"
  by (cases m') simp_all

lemma cpp_assert_True [simp, res_simps]: "P \<Longrightarrow> cpp_assert P k = k"
  by (simp add: cpp_assert_def)

lemma cpp_assert_False [simp, res_simps]: "\<not> P \<Longrightarrow> cpp_assert P k = Inl Assert_failed"
  by (simp add: cpp_assert_def)

lemma cpp_assert_eq_Inr [simp]: "cpp_assert P k = Inr a \<longleftrightarrow> P \<and> k = Inr a"
  by (simp add: cpp_assert_def)

text \<open>
  A loop over a container whose body may fail stops at the first failure.
\<close>

fun fold_res :: "('a \<Rightarrow> 's \<Rightarrow> 's res) \<Rightarrow> 'a list \<Rightarrow> 's \<Rightarrow> 's res" where
  "fold_res f [] s = Inr s"
| "fold_res f (x # xs) s = andthen (f x s) (fold_res f xs)"

lemma fold_res_append:
  "fold_res f (xs @ ys) s = andthen (fold_res f xs s) (fold_res f ys)"
  by (induction xs arbitrary: s) (simp_all add: andthen_def split: sum.split)

text \<open>An invariant that every step of a loop keeps holds at its end.\<close>

lemma fold_res_invariant:
  assumes "fold_res f xs s = Inr t" and "P s"
    and "\<And>x s s'. x \<in> set xs \<Longrightarrow> P s \<Longrightarrow> f x s = Inr s' \<Longrightarrow> P s'"
  shows "P t"
  using assms by (induction xs arbitrary: s) auto

text \<open>A loop whose every step succeeds under an invariant it keeps succeeds.\<close>

lemma fold_res_total:
  assumes "P s"
    and "\<And>x s. x \<in> set xs \<Longrightarrow> P s \<Longrightarrow> \<exists>s'. f x s = Inr s' \<and> P s'"
  shows "\<exists>t. fold_res f xs s = Inr t \<and> P t"
  using assms
proof (induction xs arbitrary: s)
  case (Cons x xs)
  then obtain s' where s': "f x s = Inr s'" "P s'"
    by (meson list.set_intros(1))
  with Cons show ?case by simp
qed simp

section \<open>Outcomes\<close>

text \<open>An operation that ends in a state with \<open>P\<close> or runs out of memory.\<close>

definition length_safe :: "('s \<Rightarrow> bool) \<Rightarrow> 's res \<Rightarrow> bool" where
  "length_safe P m \<longleftrightarrow> (case m of Inl e \<Rightarrow> e = Length_error | Inr t \<Rightarrow> P t)"

lemma length_safe_simps [simp]:
  "length_safe P (Inr t) \<longleftrightarrow> P t" "length_safe P (Inl e) \<longleftrightarrow> e = Length_error"
  by (simp_all add: length_safe_def)

lemma length_safe_mono: "length_safe P m \<Longrightarrow> (\<And>t. P t \<Longrightarrow> Q t) \<Longrightarrow> length_safe Q m"
  by (cases m) simp_all

lemma length_safe_andthen:
  "length_safe P m \<Longrightarrow> (\<And>t. m = Inr t \<Longrightarrow> P t \<Longrightarrow> length_safe Q (f t)) \<Longrightarrow> length_safe Q (andthen m f)"
  by (cases m) simp_all

lemma length_safe_ex: "\<exists>t. m = Inr t \<and> P t \<Longrightarrow> length_safe P m"
  by auto

lemma length_safe_iff: "length_safe P m \<longleftrightarrow> (\<exists>t. m = Inr t \<and> P t) \<or> m = Inl Length_error"
  by (cases m) auto

text \<open>Loops keep an invariant that may depend on what is left to do.\<close>

lemma length_safe_fold:
  assumes "P xs s" and "\<And>x ys s. P (x # ys) s \<Longrightarrow> length_safe (P ys) (f x s)"
  shows "length_safe (P []) (fold_res f xs s)"
  using assms(1) by (induction xs arbitrary: s) (auto intro: length_safe_andthen assms(2))

section \<open>Machine integers\<close>

type_synonym size_t = "64 word"
type_synonym uint64 = "64 word"
type_synonym cint = "32 word"

text \<open>The largest \<^verbatim>\<open>int\<close>; incrementing it is a signed overflow.\<close>

definition INT_MAX :: int where
  "INT_MAX = 2 ^ 31 - 1"

text \<open>\<^verbatim>\<open>std::vector::max_size()\<close> of a vector of bytes: \<^verbatim>\<open>PTRDIFF_MAX\<close>.\<close>

definition max_size :: nat where
  "max_size = 2 ^ 63 - 1"

lemma unat_add_no_wrap: "unat a + unat b < 2 ^ 64 \<Longrightarrow> unat (a + b :: size_t) = unat a + unat b"
  by (simp add: unat_word_ariths)

lemma unat_diff_no_wrap: "unat b \<le> unat a \<Longrightarrow> unat (a - b :: size_t) = unat a - unat b"
  by (simp add: unat_sub word_le_nat_alt)

lemma unat_of_nat_no_wrap: "n < 2 ^ 64 \<Longrightarrow> unat (word_of_nat n :: size_t) = n"
  by (simp add: unat_of_nat take_bit_nat_eq_self)

section \<open>Sequences\<close>

text \<open>The half-open range \<open>[i, j)\<close> of a sequence; a range outside it is undefined.\<close>

definition subrange :: "'a list \<Rightarrow> nat \<Rightarrow> nat \<Rightarrow> 'a list res" where
  "subrange xs i j = (if i \<le> j \<and> j \<le> length xs then Inr (take (j - i) (drop i xs)) else Inl Out_of_range)"

text \<open>\<^verbatim>\<open>std::copy\<close> of \<open>ys\<close> to offset \<open>i\<close> of \<open>xs\<close>; writing outside it is undefined.\<close>

definition copy_to :: "'a list \<Rightarrow> nat \<Rightarrow> 'a list \<Rightarrow> 'a list res" where
  "copy_to xs i ys =
     (if i + length ys \<le> length xs then Inr (take i xs @ ys @ drop (i + length ys) xs)
      else Inl Out_of_range)"

text \<open>\<^verbatim>\<open>std::vector::resize\<close>: new elements are value-initialised.\<close>

definition resize :: "'a \<Rightarrow> nat \<Rightarrow> 'a list \<Rightarrow> 'a list res" where
  "resize z n xs =
     (if n > max_size then Inl Length_error
      else Inr (take n xs @ replicate (n - length xs) z))"

lemma subrange_ok [res_simps]:
  "i \<le> j \<Longrightarrow> j \<le> length xs \<Longrightarrow> subrange xs i j = Inr (take (j - i) (drop i xs))"
  by (simp add: subrange_def)

lemma copy_to_ok [res_simps]:
  "i + length ys \<le> length xs \<Longrightarrow>
   copy_to xs i ys = Inr (take i xs @ ys @ drop (i + length ys) xs)"
  by (simp add: copy_to_def)

lemma resize_grow [res_simps]:
  "length xs \<le> n \<Longrightarrow> n \<le> max_size \<Longrightarrow> resize z n xs = Inr (xs @ replicate (n - length xs) z)"
  by (simp add: resize_def)

text \<open>What a range holds after bytes were written just behind it.\<close>

lemma range_extend:
  assumes "r \<le> w" "w + length ys \<le> length xs"
  shows "take (w + length ys - r) (drop r (take w xs @ ys @ drop (w + length ys) xs)) =
         take (w - r) (drop r xs) @ ys"
  using assms by (simp add: drop_take)

text \<open>What a range holds after its bytes were written at another place.\<close>

lemma range_written:
  assumes "i + length ys \<le> length xs"
  shows "take (length ys) (drop i (take i xs @ ys @ drop (i + length ys) xs)) = ys"
  using assms by simp

section \<open>Process state shared by all components\<close>

text \<open>
  \<^verbatim>\<open>LOG_TRACE\<close>, \<^verbatim>\<open>LOG_DEBUG\<close>, \<^verbatim>\<open>LOG_INFO\<close> and \<^verbatim>\<open>LOG_WARN\<close> lines are pure output and are left
  out.  The loggers of errors are recorded, because they are the only trace of an
  error path: \<^verbatim>\<open>LOG_FATAL\<close> and \<^verbatim>\<open>LOG_SYSFATAL\<close> append to a container and return, they do
  not stop the caller (\<^verbatim>\<open>Logger::operator<<\<close> in \<^verbatim>\<open>logger/logger.cpp\<close>).
\<close>

datatype logger_name = LOG_ERROR | LOG_SYSERR | LOG_FATAL | LOG_SYSFATAL

text \<open>
  \<open>logs\<close>: the error loggers written to, oldest first.  \<open>clock_reads\<close>: how often
  \<^verbatim>\<open>std::chrono::system_clock::now()\<close> was called; the \<open>k\<close>-th call returns the \<open>k\<close>-th
  reading of a clock that is a parameter of the operations that read it.
\<close>

record world =
  logs :: "logger_name list"
  clock_reads :: nat

definition log_to :: "logger_name \<Rightarrow> ('z) world_scheme \<Rightarrow> ('z) world_scheme" where
  "log_to l s = s\<lparr>logs := logs s @ [l]\<rparr>"

type_synonym clock = "nat \<Rightarrow> int"

definition read_clock :: "clock \<Rightarrow> ('z) world_scheme \<Rightarrow> int \<times> ('z) world_scheme" where
  "read_clock c s = (c (clock_reads s), s\<lparr>clock_reads := Suc (clock_reads s)\<rparr>)"

lemma log_to_simps [simp]:
  "logs (log_to l s) = logs s @ [l]"
  "clock_reads (log_to l s) = clock_reads s"
  by (simp_all add: log_to_def)

end
