(* ===== verification/Time_Stamp.thy ===== *)
theory Time_Stamp
  imports Prelude Complex_Main
begin

text \<open>
  Time values: \<^verbatim>\<open>TimeStamp\<close> (\<^verbatim>\<open>time_utils/TimeDataStructure.hpp\<close>), \<^verbatim>\<open>Timer\<close> and
  \<^verbatim>\<open>add_time\<close> (\<^verbatim>\<open>time_utils/Timer.hpp\<close>, \<^verbatim>\<open>Timer.cpp\<close>).  A \<^verbatim>\<open>system_clock\<close> time point counts
  nanoseconds since the epoch; 64-bit ticks reach beyond the year 2200, so they are
  integers here.  A \<^verbatim>\<open>double\<close> is a real number together with a parameter \<open>rnd\<close>, the
  rounding of a floating-point operation.
\<close>

section \<open>TimeStamp\<close>

datatype timestamp = TimeStamp (ts_val: int) (ts_valid: bool)

text \<open>The default constructor leaves the time point at the epoch.\<close>

definition invalid_timestamp :: timestamp where
  "invalid_timestamp = TimeStamp 0 False"

definition timestamp_at :: "int \<Rightarrow> timestamp" where
  "timestamp_at t = TimeStamp t True"

text \<open>
  \<^verbatim>\<open>operator<=>\<close> compares the time points and ignores \<^verbatim>\<open>valid_\<close>; the relational operators ask
  for its sign.  Two time stamps may compare equal and differ: a preorder, not an order.
\<close>

definition timestamp_compare :: "timestamp \<Rightarrow> timestamp \<Rightarrow> int" where
  "timestamp_compare a b = sgn (ts_val a - ts_val b)"

instantiation timestamp :: preorder
begin

definition less_eq_timestamp :: "timestamp \<Rightarrow> timestamp \<Rightarrow> bool" where
  "less_eq_timestamp a b \<longleftrightarrow> timestamp_compare a b \<le> 0"

definition less_timestamp :: "timestamp \<Rightarrow> timestamp \<Rightarrow> bool" where
  "less_timestamp a b \<longleftrightarrow> timestamp_compare a b < 0"

instance
  by standard (auto simp: less_eq_timestamp_def less_timestamp_def timestamp_compare_def sgn_if split: if_splits)

end

lemma timestamp_order:
  "a \<le> b \<longleftrightarrow> ts_val a \<le> ts_val b" "a < b \<longleftrightarrow> ts_val a < ts_val b" for a b :: timestamp
  by (auto simp: less_eq_timestamp_def less_timestamp_def timestamp_compare_def sgn_if)

lemma timestamp_not_less [simp]: "\<not> a < b \<longleftrightarrow> b \<le> (a :: timestamp)"
  by (auto simp: timestamp_order)

lemma timestamp_not_le [simp]: "\<not> a \<le> b \<longleftrightarrow> b < (a :: timestamp)"
  by (auto simp: timestamp_order)

definition k_micro_seconds_per_second :: uint64 where
  "k_micro_seconds_per_second = 1000000"

section \<open>Durations\<close>

text \<open>\<^verbatim>\<open>int(x)\<close> of a \<^verbatim>\<open>double\<close>: truncation, undefined outside the range of \<^verbatim>\<open>int\<close>.\<close>

definition double_trunc :: "real \<Rightarrow> int" where
  "double_trunc x = (if x < 0 then \<lceil>x\<rceil> else \<lfloor>x\<rfloor>)"

definition double_to_int :: "real \<Rightarrow> int res" where
  "double_to_int x =
     (let n = double_trunc x in if - (2 ^ 31) \<le> n \<and> n < 2 ^ 31 then Inr n else Inl Conversion_overflow)"

definition add_time :: "(real \<Rightarrow> real) \<Rightarrow> timestamp \<Rightarrow> real \<Rightarrow> timestamp res" where
  "add_time rnd t seconds =
     andthen (double_to_int (rnd (seconds * 1000000)))
       (\<lambda>us. Inr (timestamp_at (ts_val t + 1000 * us)))"

text \<open>
  What is used of IEEE 754 rounding: it is monotone, and integers of up to 53 bits and
  their halves are representable.
\<close>

definition ieee_rounding :: "(real \<Rightarrow> real) \<Rightarrow> bool" where
  "ieee_rounding rnd \<longleftrightarrow> mono rnd \<and> (\<forall>n::int. \<bar>n\<bar> \<le> 2 ^ 53 \<longrightarrow> rnd (of_int n) = of_int n \<and> rnd (of_int n / 2) = of_int n / 2)"

lemma ieee_rounding_lower:
  assumes "ieee_rounding rnd" and "\<bar>n\<bar> \<le> 2 ^ 53" and "of_int n \<le> x"
  shows "of_int n \<le> rnd x"
  using assms by (metis ieee_rounding_def monoD)

lemma ieee_rounding_upper:
  assumes "ieee_rounding rnd" and "\<bar>n\<bar> \<le> 2 ^ 53" and "x \<le> of_int n"
  shows "rnd x \<le> of_int n"
  using assms by (metis ieee_rounding_def monoD)

lemma double_trunc_lower: "0 \<le> n \<Longrightarrow> of_int n \<le> x \<Longrightarrow> n \<le> double_trunc x"
  by (simp add: double_trunc_def le_floor_iff)

lemma double_trunc_upper: "0 \<le> x \<Longrightarrow> x \<le> of_int n \<Longrightarrow> double_trunc x \<le> n"
  by (simp add: double_trunc_def floor_le_iff)

text \<open>A delay between \<open>a\<close> and \<open>b\<close> microseconds moves the time point by that much.\<close>

lemma add_time_bounds:
  assumes rnd: "ieee_rounding rnd" and range: "0 \<le> a" "b < 2 ^ 31"
    and lo: "of_int a \<le> seconds * 1000000" and hi: "seconds * 1000000 \<le> of_int b"
  shows "\<exists>t'. add_time rnd t seconds = Inr t' \<and> ts_valid t' \<and>
              ts_val t + 1000 * a \<le> ts_val t' \<and> ts_val t' \<le> ts_val t + 1000 * b"
proof -
  let ?x = "rnd (seconds * 1000000)"
  have ab: "a \<le> b" using lo hi by linarith
  have x: "of_int a \<le> ?x" "?x \<le> of_int b"
    using range ab by (auto intro!: ieee_rounding_lower [OF rnd _ lo] ieee_rounding_upper [OF rnd _ hi])
  have "a \<le> double_trunc ?x" using range(1) x(1) by (rule double_trunc_lower)
  moreover have "double_trunc ?x \<le> b" using range x by (intro double_trunc_upper) auto
  ultimately show ?thesis
    using range by (simp add: add_time_def double_to_int_def Let_def timestamp_at_def)
qed

lemma add_half_second:
  assumes "ieee_rounding rnd"
  shows "add_time rnd t (rnd (500 / 1000)) = Inr (timestamp_at (ts_val t + 500000000))"
proof -
  have exact: "rnd (of_int n) = of_int n \<and> rnd (of_int n / 2) = of_int n / 2" if "\<bar>n\<bar> \<le> 2 ^ 53" for n :: int
    using that assms unfolding ieee_rounding_def by blast
  have "rnd (500 / 1000) = 1 / 2" using exact [of 1] by (simp add: field_simps)
  then have "rnd (500 / 1000) * 1000000 = of_int 500000" by simp
  then have "rnd (rnd (500 / 1000) * 1000000) = 500000" using exact [of 500000] by (simp only:) simp
  then show ?thesis by (simp add: add_time_def double_to_int_def double_trunc_def)
qed

section \<open>Timer\<close>

text \<open>
  A callback (\<^verbatim>\<open>std::function\<close>) is a closure of type \<open>'c\<close>: a label of the code with its
  captured values, given meaning where it is invoked.
\<close>

record 'c timer =
  callback :: 'c
  expiration :: timestamp
  interval :: real
  repeat :: bool

definition Timer_ctor :: "'c \<Rightarrow> timestamp \<Rightarrow> real \<Rightarrow> 'c timer" where
  "Timer_ctor cb t ivl = \<lparr>callback = cb, expiration = t, interval = ivl, repeat = (0 < ivl)\<rparr>"

definition restart :: "(real \<Rightarrow> real) \<Rightarrow> timestamp \<Rightarrow> 'c timer \<Rightarrow> 'c timer res" where
  "restart rnd now t =
     (if repeat t then
        andthen (add_time rnd now (interval t)) (\<lambda>e. Inr (t\<lparr>expiration := e\<rparr>))
      else Inr (t\<lparr>expiration := invalid_timestamp\<rparr>))"

end
