(* ===== verification/Channel.thy ===== *)
theory Channel
  imports Time_Stamp
begin

unbundle bit_operations_syntax

text \<open>
  Channels (\<^verbatim>\<open>event_loop/Channel.hpp\<close>, \<^verbatim>\<open>Channel.cpp\<close>): a descriptor, the events it waits for,
  the events that happened and one callback per kind of event.  Channels are objects that
  pollers, loops and their owners share by pointer, so the state holds a store of them,
  from addresses to values, and an operation through a pointer to no object fails.
  Callbacks are closures of a type \<open>'c\<close>; how a closure runs is a parameter of \<open>handle_event\<close>.
\<close>

section \<open>Event masks\<close>

definition POLLIN :: cint where "POLLIN = 0x001"
definition POLLPRI :: cint where "POLLPRI = 0x002"
definition POLLOUT :: cint where "POLLOUT = 0x004"
definition POLLERR :: cint where "POLLERR = 0x008"
definition POLLHUP :: cint where "POLLHUP = 0x010"
definition POLLNVAL :: cint where "POLLNVAL = 0x020"
definition POLLRDHUP :: cint where "POLLRDHUP = 0x2000"

lemmas poll_masks = POLLIN_def POLLPRI_def POLLOUT_def POLLERR_def POLLHUP_def POLLNVAL_def POLLRDHUP_def

definition k_none_event :: cint where
  "k_none_event = 0"

definition k_read_event :: cint where
  "k_read_event = POLLIN OR POLLPRI"

definition k_write_event :: cint where
  "k_write_event = POLLOUT"

lemmas event_masks = k_none_event_def k_read_event_def k_write_event_def

text \<open>The truth value of \<^verbatim>\<open>revents_ & mask\<close>.\<close>

definition has_event :: "cint \<Rightarrow> cint \<Rightarrow> bool" where
  "has_event e m \<longleftrightarrow> e AND m \<noteq> 0"

section \<open>Channels and their store\<close>

type_synonym addr = nat

record 'c channel =
  owner_loop :: addr
  ch_fd :: int
  ch_events :: cint
  ch_revents :: cint
  ch_index :: int
  read_callback :: "'c option"
  write_callback :: "'c option"
  error_callback :: "'c option"
  close_callback :: "'c option"
  event_handling :: bool

definition Channel_ctor :: "addr \<Rightarrow> int \<Rightarrow> 'c channel" where
  "Channel_ctor lp fd =
     \<lparr>owner_loop = lp, ch_fd = fd, ch_events = 0, ch_revents = 0, ch_index = -1,
      read_callback = None, write_callback = None, error_callback = None, close_callback = None,
      event_handling = False\<rparr>"

text \<open>The setters.  A \<^verbatim>\<open>std::function\<close> may be empty.\<close>

definition set_read_callback :: "'c option \<Rightarrow> 'c channel \<Rightarrow> 'c channel" where
  [simp]: "set_read_callback cb x = x\<lparr>read_callback := cb\<rparr>"

definition set_write_callback :: "'c option \<Rightarrow> 'c channel \<Rightarrow> 'c channel" where
  [simp]: "set_write_callback cb x = x\<lparr>write_callback := cb\<rparr>"

definition set_error_callback :: "'c option \<Rightarrow> 'c channel \<Rightarrow> 'c channel" where
  [simp]: "set_error_callback cb x = x\<lparr>error_callback := cb\<rparr>"

definition set_close_callback :: "'c option \<Rightarrow> 'c channel \<Rightarrow> 'c channel" where
  [simp]: "set_close_callback cb x = x\<lparr>close_callback := cb\<rparr>"

definition set_revents :: "cint \<Rightarrow> 'c channel \<Rightarrow> 'c channel" where
  [simp]: "set_revents r x = x\<lparr>ch_revents := r\<rparr>"

definition set_index :: "int \<Rightarrow> 'c channel \<Rightarrow> 'c channel" where
  [simp]: "set_index i x = x\<lparr>ch_index := i\<rparr>"

record 'c heap = world +
  chans :: "addr \<rightharpoonup> 'c channel"

definition deref :: "addr \<Rightarrow> ('c, 'z) heap_scheme \<Rightarrow> 'c channel res" where
  "deref a s = (case chans s a of None \<Rightarrow> Inl Bad_deref | Some ch \<Rightarrow> Inr ch)"

definition put_chan :: "addr \<Rightarrow> 'c channel \<Rightarrow> ('c, 'z) heap_scheme \<Rightarrow> ('c, 'z) heap_scheme" where
  "put_chan a ch s = s\<lparr>chans := (chans s)(a \<mapsto> ch)\<rparr>"

definition modify_chan ::
  "addr \<Rightarrow> ('c channel \<Rightarrow> 'c channel) \<Rightarrow> ('c, 'z) heap_scheme \<Rightarrow> ('c, 'z) heap_scheme res" where
  "modify_chan a f s = andthen (deref a s) (\<lambda>ch. Inr (put_chan a (f ch) s))"

text \<open>The destructor: \<^verbatim>\<open>assert(!event_handling_)\<close>, then the object is gone.\<close>

definition destroy_chan :: "addr \<Rightarrow> ('c, 'z) heap_scheme \<Rightarrow> ('c, 'z) heap_scheme res" where
  "destroy_chan a s =
     andthen (deref a s) (\<lambda>ch.
     cpp_assert (\<not> event_handling ch) (Inr (s\<lparr>chans := (chans s)(a := None)\<rparr>)))"

named_theorems heap_simps \<open>rules for the channel store\<close>

lemma deref_simps [heap_simps]:
  "chans s a = Some ch \<Longrightarrow> deref a s = Inr ch"
  "chans s a = None \<Longrightarrow> deref a s = Inl Bad_deref"
  by (simp_all add: deref_def)

lemma deref_eq_Inr [simp]: "deref a s = Inr ch \<longleftrightarrow> chans s a = Some ch"
  by (simp add: deref_def split: option.split)

lemma modify_chan_Some [heap_simps]:
  "chans s a = Some ch \<Longrightarrow> modify_chan a f s = Inr (put_chan a (f ch) s)"
  by (simp add: modify_chan_def heap_simps)

lemma chans_put_chan [simp]: "chans (put_chan a ch s) = (chans s)(a \<mapsto> ch)"
  by (simp add: put_chan_def)

lemma put_chan_frame [simp]:
  "logs (put_chan a ch s) = logs s" "clock_reads (put_chan a ch s) = clock_reads s"
  "heap.more (put_chan a ch s) = heap.more s"
  by (simp_all add: put_chan_def)

lemma put_chan_put_chan [simp]: "put_chan a ch (put_chan a ch' s) = put_chan a ch s"
  by (simp add: put_chan_def)

lemma put_chan_idem: "chans s a = Some ch \<Longrightarrow> put_chan a ch s = s"
  by (cases s) (simp add: put_chan_def fun_upd_idem)

lemma chans_log_to [simp]: "chans (log_to l s) = chans s"
  by (simp add: log_to_def)

text \<open>\<^verbatim>\<open>is_none_event\<close>, \<^verbatim>\<open>is_writing\<close> and the changes of the event mask.\<close>

definition is_none_event :: "'c channel \<Rightarrow> bool" where
  "is_none_event ch \<longleftrightarrow> ch_events ch = k_none_event"

definition is_writing :: "'c channel \<Rightarrow> bool" where
  "is_writing ch \<longleftrightarrow> has_event (ch_events ch) k_write_event"

datatype event_change = Enable_reading | Enable_writing | Disable_writing | Disable_all

fun change_events :: "event_change \<Rightarrow> cint \<Rightarrow> cint" where
  "change_events Enable_reading e = e OR k_read_event"
| "change_events Enable_writing e = e OR k_write_event"
| "change_events Disable_writing e = e AND NOT k_write_event"
| "change_events Disable_all e = k_none_event"

text \<open>Each mask is one bit.\<close>

lemma has_event_exp: "has_event e (2 ^ n) \<longleftrightarrow> bit e n"
  by (simp only: has_event_def and_exp_eq_0_iff_not_bit) simp

lemma has_event_or: "has_event e (m OR n) \<longleftrightarrow> has_event e m \<or> has_event e n"
proof -
  have "e AND (m OR n) = (e AND m) OR (e AND n)" by (rule bit.conj_disj_distrib)
  then show ?thesis by (simp add: has_event_def or_eq_0_iff)
qed

lemma has_event_bit:
  "has_event e POLLIN \<longleftrightarrow> bit e 0" "has_event e POLLPRI \<longleftrightarrow> bit e 1" "has_event e POLLOUT \<longleftrightarrow> bit e 2"
  "has_event e POLLERR \<longleftrightarrow> bit e 3" "has_event e POLLHUP \<longleftrightarrow> bit e 4" "has_event e POLLNVAL \<longleftrightarrow> bit e 5"
  "has_event e POLLRDHUP \<longleftrightarrow> bit e 13"
  using has_event_exp [of e 0] has_event_exp [of e 1] has_event_exp [of e 2] has_event_exp [of e 3]
    has_event_exp [of e 4] has_event_exp [of e 5] has_event_exp [of e 13] by (simp_all add: poll_masks)

text \<open>Whether a channel waits for writability is decided by the last change of that bit.\<close>

lemma writing_after_change:
  "has_event (change_events Enable_writing e) k_write_event"
  "\<not> has_event (change_events Disable_writing e) k_write_event"
  "\<not> has_event (change_events Disable_all e) k_write_event"
  "has_event (change_events Enable_reading e) k_write_event \<longleftrightarrow> has_event e k_write_event"
  by (simp_all add: k_write_event_def has_event_bit event_masks bit_simps)
     (simp_all add: poll_masks bit_simps)

section \<open>Handling events\<close>

text \<open>
  One guarded callback: \<^verbatim>\<open>if (revents_ & mask) { if (cb) cb(); }\<close>.  The channel is read
  again each time, since a callback before may have changed it.
\<close>

definition fire ::
  "addr \<Rightarrow> (cint \<Rightarrow> bool) \<Rightarrow> ('c channel \<Rightarrow> 'c option) \<Rightarrow>
   ('c \<Rightarrow> ('c, 'z) heap_scheme \<Rightarrow> ('c, 'z) heap_scheme res) \<Rightarrow>
   ('c, 'z) heap_scheme \<Rightarrow> ('c, 'z) heap_scheme res" where
  "fire a guard cb run s =
     andthen (deref a s) (\<lambda>ch.
       if guard (ch_revents ch) then
         (case cb ch of None \<Rightarrow> Inr s | Some c \<Rightarrow> run c s)
       else Inr s)"

definition hup_only :: "cint \<Rightarrow> bool" where
  "hup_only r \<longleftrightarrow> has_event r POLLHUP \<and> \<not> has_event r POLLIN"

definition error_event :: "cint \<Rightarrow> bool" where
  "error_event r \<longleftrightarrow> has_event r (POLLERR OR POLLNVAL)"

definition read_event :: "cint \<Rightarrow> bool" where
  "read_event r \<longleftrightarrow> has_event r (POLLIN OR POLLPRI OR POLLRDHUP)"

definition write_event :: "cint \<Rightarrow> bool" where
  "write_event r \<longleftrightarrow> has_event r POLLOUT"

definition handle_event ::
  "('c \<Rightarrow> ('c, 'z) heap_scheme \<Rightarrow> ('c, 'z) heap_scheme res) \<Rightarrow>
   ('c \<Rightarrow> timestamp \<Rightarrow> ('c, 'z) heap_scheme \<Rightarrow> ('c, 'z) heap_scheme res) \<Rightarrow>
   timestamp \<Rightarrow> addr \<Rightarrow> ('c, 'z) heap_scheme \<Rightarrow> ('c, 'z) heap_scheme res" where
  "handle_event run run_read receive_time a s0 =
     andthen (modify_chan a (\<lambda>ch. ch\<lparr>event_handling := True\<rparr>) s0) (\<lambda>s1.
     andthen (fire a hup_only close_callback run s1) (\<lambda>s2.
     andthen (fire a error_event error_callback run s2) (\<lambda>s3.
     andthen (fire a read_event read_callback (\<lambda>c. run_read c receive_time) s3) (\<lambda>s4.
     andthen (fire a write_event write_callback run s4) (\<lambda>s5.
     modify_chan a (\<lambda>ch. ch\<lparr>event_handling := False\<rparr>) s5)))))"

text \<open>
  The specification of the dispatch, over the bits of \<^verbatim>\<open>revents_\<close> as \<^verbatim>\<open>poll(2)\<close> numbers them (0 input, 1 priority data,
  2 output, 3 error, 4 hang-up, 5 invalid descriptor, 13 half-close of the peer): a list of calls in their order.
\<close>

datatype call_kind = Close_call | Error_call | Read_call | Write_call

definition guarded :: "bool \<Rightarrow> call_kind \<Rightarrow> 'c option \<Rightarrow> (call_kind \<times> 'c) list" where
  "guarded g k cb = (if g then (case cb of None \<Rightarrow> [] | Some c \<Rightarrow> [(k, c)]) else [])"

definition dispatch :: "'c channel \<Rightarrow> (call_kind \<times> 'c) list" where
  "dispatch ch =
     (let r = ch_revents ch in
      guarded (bit r 4 \<and> \<not> bit r 0) Close_call (close_callback ch) @
      guarded (bit r 3 \<or> bit r 5) Error_call (error_callback ch) @
      guarded (bit r 0 \<or> bit r 1 \<or> bit r 13) Read_call (read_callback ch) @
      guarded (bit r 2) Write_call (write_callback ch))"

text \<open>The guards of the code test just these bits.\<close>

lemma guard_bits:
  "hup_only r \<longleftrightarrow> bit r 4 \<and> \<not> bit r 0" "error_event r \<longleftrightarrow> bit r 3 \<or> bit r 5"
  "read_event r \<longleftrightarrow> bit r 0 \<or> bit r 1 \<or> bit r 13" "write_event r \<longleftrightarrow> bit r 2"
  by (simp_all add: hup_only_def error_event_def read_event_def write_event_def has_event_or has_event_bit)

fun exec_call :: "('c \<Rightarrow> 's \<Rightarrow> 's res) \<Rightarrow> ('c \<Rightarrow> timestamp \<Rightarrow> 's \<Rightarrow> 's res) \<Rightarrow> timestamp \<Rightarrow>
    call_kind \<times> 'c \<Rightarrow> 's \<Rightarrow> 's res" where
  "exec_call run run_read t (k, c) s = (if k = Read_call then run_read c t s else run c s)"

text \<open>The part of a channel that decides which callbacks run.\<close>

definition same_dispatch :: "'c channel \<Rightarrow> 'c channel \<Rightarrow> bool" where
  "same_dispatch x y \<longleftrightarrow>
     ch_revents x = ch_revents y \<and> read_callback x = read_callback y \<and>
     write_callback x = write_callback y \<and> error_callback x = error_callback y \<and>
     close_callback x = close_callback y"

definition keeps_dispatch :: "addr \<Rightarrow> 'c channel \<Rightarrow> (('c, 'z) heap_scheme \<Rightarrow> ('c, 'z) heap_scheme res) \<Rightarrow> bool" where
  "keeps_dispatch a ch f \<longleftrightarrow>
     (\<forall>s s' x. chans s a = Some x \<and> same_dispatch ch x \<and> f s = Inr s' \<longrightarrow>
        (\<exists>y. chans s' a = Some y \<and> same_dispatch ch y))"

lemma keeps_dispatchD:
  "keeps_dispatch a ch f \<Longrightarrow> f s = Inr s' \<Longrightarrow> chans s a = Some x \<Longrightarrow> same_dispatch ch x \<Longrightarrow>
   \<exists>y. chans s' a = Some y \<and> same_dispatch ch y"
  by (auto simp: keeps_dispatch_def)

lemma fire_step:
  assumes ch: "chans s a = Some x" "same_dispatch ch x"
    and cb: "cb x = cb ch" and keeps: "\<And>c. cb ch = Some c \<Longrightarrow> keeps_dispatch a ch (run c)"
    and run: "\<And>c s. run c s = exec_call r rr t (k, c) s"
    and nx: "\<And>s' y. chans s' a = Some y \<Longrightarrow> same_dispatch ch y \<Longrightarrow> f s' = g s'"
  shows "andthen (fire a gd cb run s) f =
         andthen (fold_res (exec_call r rr t) (guarded (gd (ch_revents ch)) k (cb ch)) s) g"
proof (cases "gd (ch_revents ch) \<and> cb ch \<noteq> None")
  case True
  then obtain c where c: "cb ch = Some c" by auto
  have "fire a gd cb run s = run c s"
    using ch cb c True by (simp add: fire_def heap_simps same_dispatch_def)
  moreover have "andthen (run c s) f = andthen (run c s) g"
    using keeps_dispatchD [OF keeps [OF c] _ ch] nx by (intro andthen_cong) auto
  ultimately show ?thesis using True c by (simp add: guarded_def run andthen_assoc)
next
  case False
  then show ?thesis
    using ch cb nx [OF ch] by (auto simp: fire_def heap_simps same_dispatch_def guarded_def split: option.split)
qed

lemma handle_event_eq:
  assumes ch: "chans s a = Some ch"
    and keeps: "\<And>c. keeps_dispatch a ch (run c)" "\<And>c. keeps_dispatch a ch (run_read c t)"
  shows "handle_event run run_read t a s =
    andthen (fold_res (exec_call run run_read t) (dispatch ch) (put_chan a (ch\<lparr>event_handling := True\<rparr>) s))
      (modify_chan a (\<lambda>x. x\<lparr>event_handling := False\<rparr>))"
proof -
  let ?s = "put_chan a (ch\<lparr>event_handling := True\<rparr>) s" and ?e = "exec_call run run_read t"
  let ?f = "fold_res ?e"
  let ?last = "modify_chan a (\<lambda>x. x\<lparr>event_handling := False\<rparr>)"
  let ?r = "ch_revents ch"
  have "handle_event run run_read t a s =
    andthen (?f (guarded (hup_only ?r) Close_call (close_callback ch)) ?s) (\<lambda>s2.
    andthen (?f (guarded (error_event ?r) Error_call (error_callback ch)) s2) (\<lambda>s3.
    andthen (?f (guarded (read_event ?r) Read_call (read_callback ch)) s3) (\<lambda>s4.
    andthen (?f (guarded (write_event ?r) Write_call (write_callback ch)) s4) ?last)))"
    unfolding handle_event_def modify_chan_Some [OF ch] andthen_simps
    by (rule fire_step [where x = "ch\<lparr>event_handling := True\<rparr>"], simp, simp add: same_dispatch_def,
        simp, rule keeps, simp,
        (rule fire_step, assumption, assumption, simp add: same_dispatch_def, rule keeps, simp)+, rule refl)
  then show ?thesis by (simp add: dispatch_def Let_def guard_bits fold_res_append andthen_assoc)
qed

section \<open>Properties\<close>

text \<open>
  C23.  \<^verbatim>\<open>Channel::handle_event\<close> calls, in this order and each at most once: the close
  callback for a hang-up without input, the error callback for an error or an invalid
  descriptor, the read callback for input, priority data or a peer's half-close, the write
  callback for writability; an unset callback is skipped; \<^verbatim>\<open>event_handling_\<close> is set around
  them.  Which bit of \<^verbatim>\<open>revents_\<close> selects which callback is spelt out in \<open>dispatch\<close>.  The callbacks may do anything but
  re-target this channel (replace its callbacks or its \<^verbatim>\<open>revents_\<close>) or destroy it.
\<close>

theorem handle_event_dispatches:
  assumes "chans s a = Some ch"
    and "\<And>c. keeps_dispatch a ch (run c)" and "\<And>c. keeps_dispatch a ch (run_read c t)"
  shows "handle_event run run_read t a s =
    andthen (fold_res (exec_call run run_read t) (dispatch ch) (put_chan a (ch\<lparr>event_handling := True\<rparr>) s))
      (modify_chan a (\<lambda>x. x\<lparr>event_handling := False\<rparr>))"
  using assms by (rule handle_event_eq)

definition example_channel :: "logger_name channel" where
  "example_channel = (Channel_ctor 0 5)
     \<lparr>ch_revents := POLLIN OR POLLOUT, read_callback := Some LOG_ERROR, write_callback := Some LOG_FATAL\<rparr>"

definition example_heap :: "logger_name heap" where
  "example_heap = \<lparr>logs = [], clock_reads = 0, chans = [1 \<mapsto> example_channel]\<rparr>"

definition example_run :: "logger_name \<Rightarrow> logger_name heap \<Rightarrow> logger_name heap res" where
  "example_run c s = Inr (log_to c s)"

lemma example_run_keeps: "keeps_dispatch a ch (example_run c)"
  by (auto simp: keeps_dispatch_def example_run_def)

theorem handle_event_dispatches_witness:
  "map_sum id logs (handle_event example_run (\<lambda>c t. example_run c) (timestamp_at 0) 1 example_heap)
     = Inr [LOG_ERROR, LOG_FATAL]"
proof -
  have ch: "chans example_heap 1 = Some example_channel" by (simp add: example_heap_def)
  have "dispatch example_channel = [(Read_call, LOG_ERROR), (Write_call, LOG_FATAL)]"
    by (simp add: dispatch_def guarded_def example_channel_def Channel_ctor_def poll_masks bit_simps)
  then show ?thesis
    by (subst handle_event_dispatches [OF ch example_run_keeps example_run_keeps])
       (simp add: example_run_def example_heap_def heap_simps)
qed

text \<open>
  The write bit follows the last request: after \<^verbatim>\<open>enable_writing\<close> the channel is
  writing, after \<^verbatim>\<open>disable_writing\<close> and \<^verbatim>\<open>disable_all\<close> it is not, and \<^verbatim>\<open>enable_reading\<close> does not
  change it.
\<close>

lemma change_events_writing:
  "is_writing (ch\<lparr>ch_events := change_events c (ch_events ch)\<rparr>) \<longleftrightarrow>
     (case c of Enable_reading \<Rightarrow> is_writing ch | Enable_writing \<Rightarrow> True
              | Disable_writing \<Rightarrow> False | Disable_all \<Rightarrow> False)"
  by (cases c) (simp_all add: is_writing_def writing_after_change del: change_events.simps)

end
