(* ===== verification/Poller_Interface.thy ===== *)
theory Poller_Interface
  imports Channel
begin

text \<open>
  The abstract class \<^verbatim>\<open>PollerInterface\<close> (\<^verbatim>\<open>poller/PollerInterface.hpp\<close>) that the event loop
  calls through: registering, updating and removing channels.  The locale
  \<open>poller_contract\<close> states what the loop relies on, for both implementations; it says
  nothing of the kernel, only of the map of registered channels.
\<close>

text \<open>
  \<^verbatim>\<open>EventLoop::assert_in_loop_thread\<close>: off the loop's thread \<^verbatim>\<open>abort_not_in_loop_thread\<close> writes to \<^verbatim>\<open>LOG_FATAL\<close> and
  returns.  Whether the caller is on the loop's thread is the argument.
\<close>

definition abort_not_in_loop_thread :: "('z) world_scheme \<Rightarrow> ('z) world_scheme" where
  [simp]: "abort_not_in_loop_thread s = log_to LOG_FATAL s"

definition assert_in_loop_thread :: "bool \<Rightarrow> ('z) world_scheme \<Rightarrow> ('z) world_scheme" where
  "assert_in_loop_thread in_loop s = (if \<not> in_loop then abort_not_in_loop_thread s else s)"

lemma assert_in_loop_thread_chans [simp]:
  "chans (assert_in_loop_thread b s) = chans s"
  "heap.more (assert_in_loop_thread b s) = heap.more s"
  by (simp_all add: assert_in_loop_thread_def log_to_def)

lemma assert_in_loop_thread_True [simp]: "assert_in_loop_thread True s = s"
  by (simp add: assert_in_loop_thread_def)

text \<open>Stores whose channels differ in nothing but the index the poller keeps in them.\<close>

definition forget_index :: "'c channel \<Rightarrow> 'c channel" where
  "forget_index ch = ch\<lparr>ch_index := 0\<rparr>"

definition upto_index :: "('c, 'z) heap_scheme \<Rightarrow> ('c, 'z) heap_scheme \<Rightarrow> bool" where
  "upto_index s t \<longleftrightarrow>
     (\<forall>a. map_option forget_index (chans s a) = map_option forget_index (chans t a)) \<and>
     heap.more s = heap.more t"

lemma upto_index_refl [simp]: "upto_index s s"
  by (simp add: upto_index_def)

lemma upto_index_trans: "upto_index s t \<Longrightarrow> upto_index t u \<Longrightarrow> upto_index s u"
  by (simp add: upto_index_def)

lemma upto_index_Some:
  "upto_index s t \<Longrightarrow> chans s a = Some x \<Longrightarrow> \<exists>i. chans t a = Some (x\<lparr>ch_index := i\<rparr>)"
proof -
  assume "upto_index s t" "chans s a = Some x"
  then have "map_option forget_index (chans t a) = Some (forget_index x)"
    by (metis (no_types, lifting) option.simps(9) upto_index_def)
  then obtain y where y: "chans t a = Some y" "forget_index y = forget_index x" by auto
  then have "y = x\<lparr>ch_index := ch_index y\<rparr>"
    by (cases x; cases y) (simp add: forget_index_def)
  with y show ?thesis by metis
qed

lemma upto_index_put:
  "chans s a = Some x \<Longrightarrow> upto_index (put_chan a (x\<lparr>ch_index := i\<rparr>) s) s"
  by (simp add: upto_index_def forget_index_def)

locale poller_contract =
  fixes upd :: "bool \<Rightarrow> addr \<Rightarrow> 'p \<times> ('c, 'z) heap_scheme \<Rightarrow> ('p \<times> ('c, 'z) heap_scheme) res"
    and rem :: "bool \<Rightarrow> addr \<Rightarrow> 'p \<times> ('c, 'z) heap_scheme \<Rightarrow> ('p \<times> ('c, 'z) heap_scheme) res"
    and reg :: "'p \<Rightarrow> int \<rightharpoonup> addr"
    and inv :: "'p \<Rightarrow> ('c, 'z) heap_scheme \<Rightarrow> bool"
  assumes reg_live: "inv p h \<Longrightarrow> reg p fd = Some a \<Longrightarrow> \<exists>ch. chans h a = Some ch \<and> ch_fd ch = fd"
    and upd_new: "inv p h \<Longrightarrow> chans h a = Some ch \<Longrightarrow> 0 \<le> ch_fd ch \<Longrightarrow>
      ch_index ch = -1 \<Longrightarrow> reg p (ch_fd ch) = None \<Longrightarrow> e \<noteq> k_none_event \<Longrightarrow>
      \<exists>p' h'. upd il a (p, put_chan a (ch\<lparr>ch_events := e\<rparr>) h) = Inr (p', h') \<and> inv p' h' \<and>
        reg p' = (reg p)(ch_fd ch \<mapsto> a) \<and> upto_index h' (put_chan a (ch\<lparr>ch_events := e\<rparr>) h)"
    and upd_known: "inv p h \<Longrightarrow> chans h a = Some ch \<Longrightarrow> reg p (ch_fd ch) = Some a \<Longrightarrow>
      \<exists>p' h'. upd il a (p, put_chan a (ch\<lparr>ch_events := e\<rparr>) h) = Inr (p', h') \<and> inv p' h' \<and>
        reg p' = reg p \<and> upto_index h' (put_chan a (ch\<lparr>ch_events := e\<rparr>) h)"
    and rem: "inv p h \<Longrightarrow> chans h a = Some ch \<Longrightarrow> reg p (ch_fd ch) = Some a \<Longrightarrow>
      is_none_event ch \<Longrightarrow>
      \<exists>p' h'. rem il a (p, h) = Inr (p', h') \<and> inv p' h' \<and>
        reg p' = (reg p)(ch_fd ch := None) \<and> upto_index h' h"
begin

text \<open>Distinct registered descriptors are distinct channel objects.\<close>

lemma reg_inj: "inv p h \<Longrightarrow> reg p fd = Some a \<Longrightarrow> reg p fd' = Some a \<Longrightarrow> fd = fd'"
  using reg_live [of p h fd a] reg_live [of p h fd' a] by auto

text \<open>
  The life of a channel as its owners drive it: enabling it, then \<^verbatim>\<open>disable_all\<close>, then
  \<^verbatim>\<open>remove_channel\<close>.  No assertion fails and the registrations are those of before.
\<close>

lemma disable_remove:
  assumes "inv p h" and "chans h a = Some ch" and "reg p (ch_fd ch) = Some a"
  shows "\<exists>p' h'. andthen (upd il a (p, put_chan a (ch\<lparr>ch_events := k_none_event\<rparr>) h)) (rem il a) = Inr (p', h') \<and>
    inv p' h' \<and> reg p' = (reg p)(ch_fd ch := None) \<and>
    upto_index h' (put_chan a (ch\<lparr>ch_events := k_none_event\<rparr>) h)"
proof -
  let ?h = "put_chan a (ch\<lparr>ch_events := k_none_event\<rparr>) h"
  from upd_known [OF assms, of il k_none_event] obtain p1 h1 where
    1: "upd il a (p, ?h) = Inr (p1, h1)" "inv p1 h1" "reg p1 = reg p" "upto_index h1 ?h" by blast
  have "\<exists>x. chans h1 a = Some x \<and> ch_fd x = ch_fd ch \<and> is_none_event x"
  proof -
    have "upto_index ?h h1" using 1(4) by (simp add: upto_index_def)
    from upto_index_Some [OF this, of a] show ?thesis by (auto simp: is_none_event_def)
  qed
  then obtain x where x: "chans h1 a = Some x" "ch_fd x = ch_fd ch" "is_none_event x" by blast
  from rem [OF 1(2) x(1) _ x(3), of il] x(2) assms(3) 1 show ?thesis
    by (auto intro: upto_index_trans)
qed

lemma enable_disable_remove:
  assumes "inv p h" and "chans h a = Some ch" and "0 \<le> ch_fd ch" and "ch_index ch = -1"
    and "reg p (ch_fd ch) = None" and "e \<noteq> k_none_event"
  shows "\<exists>p1 h1 x p2 h2. upd il a (p, put_chan a (ch\<lparr>ch_events := e\<rparr>) h) = Inr (p1, h1) \<and>
    chans h1 a = Some x \<and> ch_fd x = ch_fd ch \<and>
    andthen (upd il a (p1, put_chan a (x\<lparr>ch_events := k_none_event\<rparr>) h1)) (rem il a) = Inr (p2, h2) \<and>
    inv p2 h2 \<and> reg p2 = reg p"
proof -
  from upd_new [OF assms, of il] obtain p1 h1 where
    1: "upd il a (p, put_chan a (ch\<lparr>ch_events := e\<rparr>) h) = Inr (p1, h1)" "inv p1 h1"
      "reg p1 = (reg p)(ch_fd ch \<mapsto> a)" by blast
  then obtain x where x: "chans h1 a = Some x" "ch_fd x = ch_fd ch"
    using reg_live [OF 1(2), of "ch_fd ch" a] by auto
  from disable_remove [OF 1(2) x(1), of il] 1(3) x assms(5) show ?thesis
    using 1(1) by (fastforce simp: fun_upd_idem)
qed

end

end
