(* ===== verification/Poll_Poller.thy ===== *)
theory Poll_Poller
  imports Poller_Interface
begin

text \<open>
  The \<^verbatim>\<open>poll(2)\<close> implementation (\<^verbatim>\<open>poller/Poller.hpp\<close>, \<^verbatim>\<open>Poller.cpp\<close>): an array of \<^verbatim>\<open>pollfd\<close> and a
  map from descriptors to channels; a channel keeps its position in the array as its
  index.  A slot is switched off by storing \<^verbatim>\<open>-1-fd\<close> as its descriptor.  The invariant says
  that array, map and indices agree; removal, which moves the last slot into the hole, is
  the operation that is hard to get right.
\<close>

section \<open>State and operations\<close>

record pollfd =
  pfd_fd :: int
  pfd_events :: "16 word"
  pfd_revents :: "16 word"

record poller =
  poll_fds :: "pollfd list"
  poll_channels :: "int \<rightharpoonup> addr"

definition Poller_ctor :: poller where
  "Poller_ctor = \<lparr>poll_fds = [], poll_channels = Map.empty\<rparr>"

definition poll_update_channel ::
  "bool \<Rightarrow> addr \<Rightarrow> poller \<times> ('c, 'z) heap_scheme \<Rightarrow> (poller \<times> ('c, 'z) heap_scheme) res" where
  "poll_update_channel il a ps =
     (case ps of (p, s0) \<Rightarrow>
      let s = assert_in_loop_thread il s0 in
      andthen (deref a s) (\<lambda>ch.
      let fd = ch_fd ch in
      if ch_index ch < 0 then
        cpp_assert (poll_channels p fd = None)
          (let new_pfd = \<lparr>pfd_fd = fd, pfd_events = ucast (ch_events ch), pfd_revents = 0\<rparr>;
               fds = poll_fds p @ [new_pfd];
               idx = int (length fds) - 1
           in Inr (p\<lparr>poll_fds := fds, poll_channels := (poll_channels p)(fd \<mapsto> a)\<rparr>,
                   put_chan a (set_index idx ch) s))
      else
        cpp_assert (poll_channels p fd \<noteq> None)
          (cpp_assert (poll_channels p fd = Some a)
          (let idx = ch_index ch in
           cpp_assert (0 \<le> idx \<and> idx < int (length (poll_fds p)))
          (let pfd = poll_fds p ! nat idx in
           cpp_assert (pfd_fd pfd = fd \<or> pfd_fd pfd = -1 - fd)
          (let pfd1 = pfd\<lparr>pfd_events := ucast (ch_events ch), pfd_revents := 0\<rparr>;
               pfd2 = (if is_none_event ch then pfd1\<lparr>pfd_fd := -1 - fd\<rparr> else pfd1)
           in Inr (p\<lparr>poll_fds := (poll_fds p)[nat idx := pfd2]\<rparr>, s)))))))"

text \<open>\<^verbatim>\<open>iter_swap\<close> of two positions.\<close>

definition swap_slots :: "'a list \<Rightarrow> nat \<Rightarrow> nat \<Rightarrow> 'a list" where
  "swap_slots xs i j = xs[i := xs ! j, j := xs ! i]"

definition poll_remove_channel ::
  "bool \<Rightarrow> addr \<Rightarrow> poller \<times> ('c, 'z) heap_scheme \<Rightarrow> (poller \<times> ('c, 'z) heap_scheme) res" where
  "poll_remove_channel il a ps =
     (case ps of (p, s0) \<Rightarrow>
      let s = assert_in_loop_thread il s0 in
      andthen (deref a s) (\<lambda>ch.
      let fd = ch_fd ch; idx = ch_index ch; fds = poll_fds p in
      cpp_assert (poll_channels p fd \<noteq> None)
        (cpp_assert (poll_channels p fd = Some a)
        (cpp_assert (is_none_event ch)
        (cpp_assert (0 \<le> idx \<and> idx < int (length fds))
        (let pfd = fds ! nat idx in
         cpp_assert (pfd_fd pfd = - fd - 1 \<and> scast (pfd_events pfd) = ch_events ch)
        (let p1 = p\<lparr>poll_channels := (poll_channels p)(fd := None)\<rparr> in
         if nat idx = length fds - 1 then
           Inr (p1\<lparr>poll_fds := butlast fds\<rparr>, s)
         else
           (let at_end = pfd_fd (last fds);
                swapped = swap_slots fds (nat idx) (length fds - 1);
                end_fd = (if at_end < 0 then - at_end - 1 else at_end)
            in case poll_channels p1 end_fd of
                 None \<Rightarrow> Inl Bad_deref
               | Some b \<Rightarrow>
                   andthen (modify_chan b (set_index idx) s) (\<lambda>s'.
                   Inr (p1\<lparr>poll_fds := butlast swapped\<rparr>, s'))))))))))"

text \<open>
  \<^verbatim>\<open>fill_active_channels\<close>: walks the array until \<open>num_events\<close> slots with events were seen.
\<close>

fun poll_fill_active_channels ::
  "(int \<rightharpoonup> addr) \<Rightarrow> pollfd list \<Rightarrow> int \<Rightarrow> addr list \<Rightarrow> ('c, 'z) heap_scheme \<Rightarrow>
   (addr list \<times> ('c, 'z) heap_scheme) res" where
  "poll_fill_active_channels cm [] num_events active s = Inr (active, s)"
| "poll_fill_active_channels cm (pfd # fds) num_events active s =
     (if 0 < sint (pfd_revents pfd) then
        (case cm (pfd_fd pfd) of
           None \<Rightarrow> Inl Assert_failed
         | Some a \<Rightarrow>
             andthen (deref a s) (\<lambda>ch.
             cpp_assert (ch_fd ch = pfd_fd pfd)
               (let s' = put_chan a (set_revents (scast (pfd_revents pfd)) ch) s;
                    active' = active @ [a]
                in if num_events - 1 = 0 then Inr (active', s')
                   else poll_fill_active_channels cm fds (num_events - 1) active' s')))
      else poll_fill_active_channels cm fds num_events active s)"

text \<open>
  \<^verbatim>\<open>Poller::poll\<close>.  The answer of \<^verbatim>\<open>::poll\<close> is an input: its return value and the returned
  events it stores in the slots.
\<close>

definition store_revents :: "16 word list \<Rightarrow> pollfd list \<Rightarrow> pollfd list" where
  "store_revents rs fds = map2 (\<lambda>r pfd. pfd\<lparr>pfd_revents := r\<rparr>) rs fds"

definition poller_poll ::
  "clock \<Rightarrow> int \<Rightarrow> 16 word list \<Rightarrow> addr list \<Rightarrow> poller \<times> ('c, 'z) heap_scheme \<Rightarrow>
   (timestamp \<times> addr list \<times> poller \<times> ('c, 'z) heap_scheme) res" where
  "poller_poll clk num_events revents active ps =
     (case ps of (p, s) \<Rightarrow>
      let p1 = p\<lparr>poll_fds := store_revents revents (poll_fds p)\<rparr>;
          (now, s1) = read_clock clk s
      in if num_events > 0 then
           andthen (poll_fill_active_channels (poll_channels p1) (poll_fds p1) num_events active s1)
             (\<lambda>(active', s2). Inr (timestamp_at now, active', p1, s2))
         else if num_events = 0 then Inr (timestamp_at now, active, p1, s1)
         else Inr (timestamp_at now, active, p1, log_to LOG_SYSERR s1))"

section \<open>Invariant\<close>

definition real_fd :: "pollfd \<Rightarrow> int" where
  "real_fd pfd = (if pfd_fd pfd < 0 then - pfd_fd pfd - 1 else pfd_fd pfd)"

text \<open>The slot of a registered channel.\<close>

definition slot_ok :: "pollfd list \<Rightarrow> 'c channel \<Rightarrow> bool" where
  "slot_ok fds ch \<longleftrightarrow>
     0 \<le> ch_index ch \<and> nat (ch_index ch) < length fds \<and>
     real_fd (fds ! nat (ch_index ch)) = ch_fd ch \<and>
     pfd_events (fds ! nat (ch_index ch)) = ucast (ch_events ch) \<and>
     (is_none_event ch \<longrightarrow> pfd_fd (fds ! nat (ch_index ch)) = -1 - ch_fd ch)"

definition poll_inv :: "poller \<Rightarrow> ('c, 'z) heap_scheme \<Rightarrow> bool" where
  "poll_inv p s \<longleftrightarrow>
     (\<forall>fd a. poll_channels p fd = Some a \<longrightarrow>
        (\<exists>ch. chans s a = Some ch \<and> ch_fd ch = fd \<and> 0 \<le> fd \<and> slot_ok (poll_fds p) ch)) \<and>
     (\<forall>i < length (poll_fds p). \<exists>a ch.
        poll_channels p (real_fd (poll_fds p ! i)) = Some a \<and> chans s a = Some ch \<and> ch_index ch = int i)"


lemma poll_invD:
  "poll_inv p s \<Longrightarrow> poll_channels p fd = Some a \<Longrightarrow>
   \<exists>ch. chans s a = Some ch \<and> ch_fd ch = fd \<and> 0 \<le> fd \<and> slot_ok (poll_fds p) ch"
  by (simp add: poll_inv_def)

lemma poll_inv_slot:
  "poll_inv p s \<Longrightarrow> i < length (poll_fds p) \<Longrightarrow>
   \<exists>a ch. poll_channels p (real_fd (poll_fds p ! i)) = Some a \<and> chans s a = Some ch \<and> ch_index ch = int i"
  by (simp add: poll_inv_def)

lemma poll_inv_cong:
  "poll_channels p = poll_channels q \<Longrightarrow> poll_fds p = poll_fds q \<Longrightarrow> chans s = chans t \<Longrightarrow>
   poll_inv p s = poll_inv q t"
  by (simp add: poll_inv_def)

text \<open>Two registered channels never share a slot.\<close>

lemma poll_slots_distinct:
  assumes "poll_inv p s"
    and "poll_channels p fd = Some a" "chans s a = Some ch"
    and "poll_channels p fd' = Some a'" "chans s a' = Some ch'"
    and "ch_index ch = ch_index ch'"
  shows "fd = fd'"
  using poll_invD [OF assms(1,2)] poll_invD [OF assms(1,4)] assms by (auto simp: slot_ok_def)

lemma poll_inv_init: "poll_inv Poller_ctor s"
  by (simp add: poll_inv_def Poller_ctor_def)

section \<open>Updating and removing keep the invariant\<close>

lemma slot_ok_append: "slot_ok fds ch \<Longrightarrow> slot_ok (fds @ xs) ch"
  by (auto simp: slot_ok_def nth_append)

lemma poll_update_new:
  assumes inv: "poll_inv p h" and a: "chans h a = Some ch" and fd: "0 \<le> ch_fd ch"
    and idx: "ch_index ch = -1" and new: "poll_channels p (ch_fd ch) = None" and e: "e \<noteq> k_none_event"
  shows "\<exists>p' h'. poll_update_channel il a (p, put_chan a (ch\<lparr>ch_events := e\<rparr>) h) = Inr (p', h') \<and>
    poll_inv p' h' \<and> poll_channels p' = (poll_channels p)(ch_fd ch \<mapsto> a) \<and>
    upto_index h' (put_chan a (ch\<lparr>ch_events := e\<rparr>) h)"
proof -
  let ?h = "assert_in_loop_thread il (put_chan a (ch\<lparr>ch_events := e\<rparr>) h)"
  let ?n = "length (poll_fds p)"
  let ?pfd = "\<lparr>pfd_fd = ch_fd ch, pfd_events = ucast e, pfd_revents = 0\<rparr>"
  let ?p = "p\<lparr>poll_fds := poll_fds p @ [?pfd], poll_channels := (poll_channels p)(ch_fd ch \<mapsto> a)\<rparr>"
  let ?ch = "ch\<lparr>ch_events := e, ch_index := int ?n\<rparr>"
  have other: "poll_channels p fd' = Some b \<Longrightarrow> b \<noteq> a" for fd' b
    using poll_invD [OF inv, of fd' b] a new by auto
  have "poll_update_channel il a (p, put_chan a (ch\<lparr>ch_events := e\<rparr>) h) = Inr (?p, put_chan a ?ch ?h)"
    using new idx by (simp add: poll_update_channel_def heap_simps Let_def)
  moreover have "poll_inv ?p (put_chan a ?ch ?h)"
    unfolding poll_inv_def
  proof (intro conjI allI impI)
    fix fd' b assume "poll_channels ?p fd' = Some b"
    then consider "fd' = ch_fd ch" "b = a" | "poll_channels p fd' = Some b" "b \<noteq> a"
      using other [of fd' b] by (cases "fd' = ch_fd ch") auto
    then show "\<exists>x. chans (put_chan a ?ch ?h) b = Some x \<and> ch_fd x = fd' \<and> 0 \<le> fd' \<and> slot_ok (poll_fds ?p) x"
    proof cases
      case 1 with fd e show ?thesis by (auto simp: slot_ok_def real_fd_def is_none_event_def)
    next
      case 2 with poll_invD [OF inv 2(1)] show ?thesis by (auto intro: slot_ok_append)
    qed
  next
    fix i assume i: "i < length (poll_fds ?p)"
    show "\<exists>b x. poll_channels ?p (real_fd (poll_fds ?p ! i)) = Some b \<and>
            chans (put_chan a ?ch ?h) b = Some x \<and> ch_index x = int i"
    proof (cases "i < ?n")
      case True
      from poll_inv_slot [OF inv True] obtain b x where
        "poll_channels p (real_fd (poll_fds p ! i)) = Some b" "chans h b = Some x" "ch_index x = int i"
        by blast
      with True new other show ?thesis by (auto simp: nth_append)
    next
      case False
      with i fd show ?thesis by (auto simp: nth_append real_fd_def)
    qed
  qed
  moreover have "upto_index (put_chan a ?ch ?h) (put_chan a (ch\<lparr>ch_events := e\<rparr>) h)"
    by (simp add: upto_index_def forget_index_def)
  ultimately show ?thesis by auto
qed

lemma poll_update_known:
  assumes inv: "poll_inv p h" and a: "chans h a = Some ch" and known: "poll_channels p (ch_fd ch) = Some a"
  shows "\<exists>p' h'. poll_update_channel il a (p, put_chan a (ch\<lparr>ch_events := e\<rparr>) h) = Inr (p', h') \<and>
    poll_inv p' h' \<and> poll_channels p' = poll_channels p \<and>
    upto_index h' (put_chan a (ch\<lparr>ch_events := e\<rparr>) h)"
proof -
  let ?ch = "ch\<lparr>ch_events := e\<rparr>" and ?i = "nat (ch_index ch)"
  let ?h = "assert_in_loop_thread il (put_chan a ?ch h)"
  have slot: "slot_ok (poll_fds p) ch" "0 \<le> ch_fd ch"
    using poll_invD [OF inv known] a by auto
  then have i: "?i < length (poll_fds p)" "0 \<le> ch_index ch" by (auto simp: slot_ok_def)
  let ?pfd = "poll_fds p ! ?i"
  let ?pfd2 = "?pfd\<lparr>pfd_events := ucast e, pfd_revents := 0,
                    pfd_fd := if e = k_none_event then -1 - ch_fd ch else pfd_fd ?pfd\<rparr>"
  let ?p = "p\<lparr>poll_fds := (poll_fds p)[?i := ?pfd2]\<rparr>"
  have fd: "pfd_fd ?pfd = ch_fd ch \<or> pfd_fd ?pfd = -1 - ch_fd ch"
    using slot by (auto simp: slot_ok_def real_fd_def split: if_splits)
  have "poll_update_channel il a (p, put_chan a ?ch h) = Inr (?p, ?h)"
    using known i fd by (simp add: poll_update_channel_def heap_simps Let_def is_none_event_def)
  moreover have "poll_inv ?p ?h"
    unfolding poll_inv_def
  proof (intro conjI allI impI)
    fix fd' b assume b: "poll_channels ?p fd' = Some b"
    then obtain x where x: "chans h b = Some x" "ch_fd x = fd'" "0 \<le> fd'" "slot_ok (poll_fds p) x"
      using poll_invD [OF inv, of fd' b] by auto
    show "\<exists>x. chans ?h b = Some x \<and> ch_fd x = fd' \<and> 0 \<le> fd' \<and> slot_ok (poll_fds ?p) x"
    proof (cases "b = a")
      case True
      with x a slot fd i show ?thesis
        by (auto simp: slot_ok_def real_fd_def is_none_event_def)
    next
      case False
      with b known x have "ch_index x \<noteq> ch_index ch"
        using poll_slots_distinct [OF inv, of fd' b x "ch_fd ch" a ch] a by auto
      with x i False show ?thesis by (auto simp: slot_ok_def nth_list_update nat_eq_iff)
    qed
  next
    fix j assume "j < length (poll_fds ?p)"
    then obtain b x where "poll_channels p (real_fd (poll_fds p ! j)) = Some b" "chans h b = Some x"
      "ch_index x = int j" using poll_inv_slot [OF inv, of j] by auto
    moreover have "real_fd (poll_fds ?p ! j) = real_fd (poll_fds p ! j)"
      using slot i by (cases "j = ?i") (auto simp: slot_ok_def real_fd_def)
    ultimately show "\<exists>b x. poll_channels ?p (real_fd (poll_fds ?p ! j)) = Some b \<and>
        chans ?h b = Some x \<and> ch_index x = int j"
      using a by (cases "b = a") auto
  qed
  moreover have "upto_index ?h (put_chan a ?ch h)" by (simp add: upto_index_def)
  ultimately show ?thesis by auto
qed

text \<open>
  The facts every removal starts from: the channel's slot is switched off and no other
  registered channel has its index.
\<close>

lemma poll_remove_facts:
  assumes inv: "poll_inv p h" and a: "chans h a = Some ch" and known: "poll_channels p (ch_fd ch) = Some a"
    and none: "is_none_event ch"
  shows "0 \<le> ch_index ch" "nat (ch_index ch) < length (poll_fds p)"
    "pfd_fd (poll_fds p ! nat (ch_index ch)) = - ch_fd ch - 1"
    "scast (pfd_events (poll_fds p ! nat (ch_index ch))) = ch_events ch"
    "\<And>fd' b x. poll_channels p fd' = Some b \<Longrightarrow> chans h b = Some x \<Longrightarrow> fd' \<noteq> ch_fd ch \<Longrightarrow>
       ch_index x \<noteq> ch_index ch"
    "\<And>j. j < length (poll_fds p) \<Longrightarrow> real_fd (poll_fds p ! j) = ch_fd ch \<Longrightarrow> j = nat (ch_index ch)"
proof -
  show "0 \<le> ch_index ch" "nat (ch_index ch) < length (poll_fds p)"
    "pfd_fd (poll_fds p ! nat (ch_index ch)) = - ch_fd ch - 1"
    "scast (pfd_events (poll_fds p ! nat (ch_index ch))) = ch_events ch"
    using poll_invD [OF inv known] a none
    by (auto simp: slot_ok_def is_none_event_def k_none_event_def)
  show "ch_index x \<noteq> ch_index ch"
    if "poll_channels p fd' = Some b" "chans h b = Some x" "fd' \<noteq> ch_fd ch" for fd' b x
    using poll_slots_distinct [OF inv that(1,2) known a] that(3) by blast
  show "j = nat (ch_index ch)"
    if "j < length (poll_fds p)" "real_fd (poll_fds p ! j) = ch_fd ch" for j
    using poll_inv_slot [OF inv that(1)] that(2) known a by auto
qed

lemma poll_remove_last:
  assumes inv: "poll_inv p h" and a: "chans h a = Some ch" and known: "poll_channels p (ch_fd ch) = Some a"
    and none: "is_none_event ch" and last: "nat (ch_index ch) = length (poll_fds p) - 1"
  shows "\<exists>p' h'. poll_remove_channel il a (p, h) = Inr (p', h') \<and> poll_inv p' h' \<and>
    poll_channels p' = (poll_channels p)(ch_fd ch := None) \<and> upto_index h' h"
proof -
  note facts = poll_remove_facts [OF inv a known none]
  let ?h = "assert_in_loop_thread il h"
  let ?p = "p\<lparr>poll_channels := (poll_channels p)(ch_fd ch := None), poll_fds := butlast (poll_fds p)\<rparr>"
  have "poll_remove_channel il a (p, h) = Inr (?p, ?h)"
    using known a none last facts(1-4) by (simp add: poll_remove_channel_def heap_simps Let_def)
  moreover have "poll_inv ?p ?h"
    unfolding poll_inv_def
  proof (intro conjI allI impI)
    fix fd' b assume "poll_channels ?p fd' = Some b"
    then have b: "poll_channels p fd' = Some b" "fd' \<noteq> ch_fd ch" by (auto split: if_splits)
    from poll_invD [OF inv b(1)] obtain x where
      x: "chans h b = Some x" "ch_fd x = fd'" "0 \<le> fd'" "slot_ok (poll_fds p) x" by blast
    then have "nat (ch_index x) < length (poll_fds p) - 1"
      using facts(5) [OF b(1) x(1) b(2)] last facts(1) by (auto simp: slot_ok_def)
    with x show "\<exists>x. chans ?h b = Some x \<and> ch_fd x = fd' \<and> 0 \<le> fd' \<and> slot_ok (poll_fds ?p) x"
      by (auto simp: slot_ok_def nth_butlast)
  next
    fix j assume "j < length (poll_fds ?p)"
    then have j: "j < length (poll_fds p)" "j \<noteq> nat (ch_index ch)" using last by auto
    with facts(6) [of j] poll_inv_slot [OF inv j(1)] last
    show "\<exists>b x. poll_channels ?p (real_fd (poll_fds ?p ! j)) = Some b \<and> chans ?h b = Some x \<and> ch_index x = int j"
      by (auto simp: nth_butlast)
  qed
  moreover have "upto_index ?h h" by (simp add: upto_index_def)
  ultimately show ?thesis by auto
qed

text \<open>The array after the last slot was moved into the hole.\<close>

lemma nth_butlast_swap:
  assumes "i < length xs - 1" and "j < length xs - 1"
  shows "butlast (swap_slots xs i (length xs - 1)) ! j = (if j = i then last xs else xs ! j)"
  using assms by (cases "xs = []") (auto simp: swap_slots_def nth_butlast nth_list_update last_conv_nth)

lemma poll_remove_slots:
  assumes inv: "poll_inv p h" and a: "chans h a = Some ch" and known: "poll_channels p (ch_fd ch) = Some a"
    and none: "is_none_event ch" and mid: "nat (ch_index ch) \<noteq> length (poll_fds p) - 1"
  shows "nat (ch_index ch) < length (poll_fds p) - 1" "length (poll_fds p) - 1 < length (poll_fds p)"
    "last (poll_fds p) = poll_fds p ! (length (poll_fds p) - 1)" "real_fd (last (poll_fds p)) \<noteq> ch_fd ch"
proof -
  note facts = poll_remove_facts [OF inv a known none]
  show il: "nat (ch_index ch) < length (poll_fds p) - 1" "length (poll_fds p) - 1 < length (poll_fds p)" using facts(2) mid by auto
  show "last (poll_fds p) = poll_fds p ! (length (poll_fds p) - 1)" using il by (subst last_conv_nth) auto
  then show "real_fd (last (poll_fds p)) \<noteq> ch_fd ch" using facts(6) [OF il(2)] mid by auto
qed

text \<open>The last slot moves to the place of the removed one, and the index of its channel follows.\<close>

lemma poll_remove_middle_inv:
  assumes inv: "poll_inv p h" and a: "chans h a = Some ch" and known: "poll_channels p (ch_fd ch) = Some a"
    and none: "is_none_event ch" and mid: "nat (ch_index ch) \<noteq> length (poll_fds p) - 1"
    and b: "poll_channels p (real_fd (last (poll_fds p))) = Some b" "chans h b = Some x" "ch_index x = int (length (poll_fds p) - 1)"
  shows "poll_inv (p\<lparr>poll_channels := (poll_channels p)(ch_fd ch := None),
      poll_fds := butlast (swap_slots (poll_fds p) (nat (ch_index ch)) (length (poll_fds p) - 1))\<rparr>)
    (put_chan b (x\<lparr>ch_index := ch_index ch\<rparr>) (assert_in_loop_thread il h))"
proof -
  note facts = poll_remove_facts [OF inv a known none]
  let ?fds = "poll_fds p" and ?i = "nat (ch_index ch)" and ?l = "length (poll_fds p) - 1"
  let ?h = "assert_in_loop_thread il h"
  note sl = poll_remove_slots [OF inv a known none mid]
  note il = sl(1,2) and lst = sl(3) and end_fd = sl(4)
  let ?x = "x\<lparr>ch_index := ch_index ch\<rparr>" and ?fds' = "butlast (swap_slots (poll_fds p) ?i ?l)"
  let ?p = "p\<lparr>poll_channels := (poll_channels p)(ch_fd ch := None), poll_fds := ?fds'\<rparr>"
  have len: "length ?fds' = ?l" by (simp add: swap_slots_def)
  note nth = nth_butlast_swap [OF il(1)]
  show "poll_inv ?p (put_chan b ?x ?h)"
    unfolding poll_inv_def
  proof (intro conjI allI impI)
    fix fd' c assume "poll_channels ?p fd' = Some c"
    then have c: "poll_channels p fd' = Some c" "fd' \<noteq> ch_fd ch" by (auto split: if_splits)
    from poll_invD [OF inv c(1)] obtain y where
      y: "chans h c = Some y" "ch_fd y = fd'" "0 \<le> fd'" "slot_ok ?fds y" by blast
    show "\<exists>y. chans (put_chan b ?x ?h) c = Some y \<and> ch_fd y = fd' \<and> 0 \<le> fd' \<and> slot_ok (poll_fds ?p) y"
    proof (cases "c = b")
      case True
      have "nat (ch_index x) = ?l" using b(3) by simp
      moreover have "slot_ok ?fds x" using True y(1,4) b(2) by simp
      ultimately have "slot_ok ?fds' ?x"
        using il len nth [of ?i] lst facts(1) by (simp add: slot_ok_def is_none_event_def)
      with True y b show ?thesis by simp
    next
      case False
      then have "ch_index y \<noteq> ch_index x"
        using poll_slots_distinct [OF inv c(1) y(1) b(1,2)] c(1) b(1) by auto
      then have "nat (ch_index y) < ?l" "nat (ch_index y) \<noteq> ?i"
        using y(4) b(3) facts(5) [OF c(1) y(1) c(2)] facts(1) by (auto simp: slot_ok_def)
      with y False show ?thesis using len nth by (simp add: slot_ok_def)
    qed
  next
    fix j assume "j < length (poll_fds ?p)"
    then have j: "j < ?l" using len by simp
    show "\<exists>c y. poll_channels ?p (real_fd (poll_fds ?p ! j)) = Some c \<and>
        chans (put_chan b ?x ?h) c = Some y \<and> ch_index y = int j"
    proof (cases "j = ?i")
      case True
      with b end_fd nth [OF j] facts(1) show ?thesis by simp
    next
      case False
      have jl: "j < length ?fds" using j by simp
      from poll_inv_slot [OF inv jl] obtain c y where
        c: "poll_channels p (real_fd (?fds ! j)) = Some c" "chans h c = Some y" "ch_index y = int j"
        by blast
      then have "c \<noteq> b" using b j by auto
      with c False facts(6) [OF jl] nth [OF j] show ?thesis by auto
    qed
  qed
qed

lemma poll_remove_middle:
  assumes inv: "poll_inv p h" and a: "chans h a = Some ch" and known: "poll_channels p (ch_fd ch) = Some a"
    and none: "is_none_event ch" and mid: "nat (ch_index ch) \<noteq> length (poll_fds p) - 1"
  shows "\<exists>p' h'. poll_remove_channel il a (p, h) = Inr (p', h') \<and> poll_inv p' h' \<and>
    poll_channels p' = (poll_channels p)(ch_fd ch := None) \<and> upto_index h' h"
proof -
  note facts = poll_remove_facts [OF inv a known none]
  note sl = poll_remove_slots [OF inv a known none mid]
  from poll_inv_slot [OF inv sl(2)] obtain b x where
    b: "poll_channels p (real_fd (last (poll_fds p))) = Some b" "chans h b = Some x" "ch_index x = int (length (poll_fds p) - 1)"
    by (auto simp: sl(3))
  let ?p = "p\<lparr>poll_channels := (poll_channels p)(ch_fd ch := None),
      poll_fds := butlast (swap_slots (poll_fds p) (nat (ch_index ch)) (length (poll_fds p) - 1))\<rparr>"
  let ?h = "put_chan b (x\<lparr>ch_index := ch_index ch\<rparr>) (assert_in_loop_thread il h)"
  have "poll_remove_channel il a (p, h) = Inr (?p, ?h)"
    using known a none mid facts(1-4) b sl(4)
    by (simp add: poll_remove_channel_def heap_simps Let_def real_fd_def)
  moreover have "upto_index ?h h" using b(2) by (simp add: upto_index_def forget_index_def)
  ultimately show ?thesis using poll_remove_middle_inv [OF inv a known none mid b, of il] by auto
qed

interpretation pollp: poller_contract poll_update_channel poll_remove_channel poll_channels poll_inv
proof unfold_locales
  fix p :: poller and h :: "('c, 'z) heap_scheme" and fd a
  show "poll_inv p h \<Longrightarrow> poll_channels p fd = Some a \<Longrightarrow> \<exists>ch. chans h a = Some ch \<and> ch_fd ch = fd"
    using poll_invD by blast
next
  fix p :: poller and h :: "('c, 'z) heap_scheme" and a ch il
  assume "poll_inv p h" "chans h a = Some ch" "poll_channels p (ch_fd ch) = Some a" "is_none_event ch"
  then show "\<exists>p' h'. poll_remove_channel il a (p, h) = Inr (p', h') \<and> poll_inv p' h' \<and>
      poll_channels p' = (poll_channels p)(ch_fd ch := None) \<and> upto_index h' h"
    using poll_remove_last poll_remove_middle by blast
qed (rule poll_update_new poll_update_known; assumption)+

section \<open>Reporting active channels\<close>

definition ready :: "pollfd \<Rightarrow> bool" where
  "ready pfd \<longleftrightarrow> 0 < sint (pfd_revents pfd)"

definition ready_channels :: "(int \<rightharpoonup> addr) \<Rightarrow> pollfd list \<Rightarrow> addr list" where
  "ready_channels cm fds = map (\<lambda>pfd. the (cm (pfd_fd pfd))) (filter ready fds)"

definition slot_live :: "(int \<rightharpoonup> addr) \<Rightarrow> ('c, 'z) heap_scheme \<Rightarrow> pollfd \<Rightarrow> bool" where
  "slot_live cm s pfd \<longleftrightarrow> (\<exists>a ch. cm (pfd_fd pfd) = Some a \<and> chans s a = Some ch \<and> ch_fd ch = pfd_fd pfd)"

lemma slot_live_put:
  "slot_live cm s pfd \<Longrightarrow> chans s a = Some ch \<Longrightarrow>
   slot_live cm (put_chan a (ch\<lparr>ch_revents := r\<rparr>) s) pfd"
  by (auto simp: slot_live_def split: if_splits)

text \<open>What the walk leaves behind: only returned events change.\<close>

definition revents_only :: "('c, 'z) heap_scheme \<Rightarrow> ('c, 'z) heap_scheme \<Rightarrow> bool" where
  "revents_only s t \<longleftrightarrow> (\<forall>a. map_option (ch_revents_update (\<lambda>_. 0)) (chans t a) =
                              map_option (ch_revents_update (\<lambda>_. 0)) (chans s a)) \<and>
                        logs t = logs s \<and> clock_reads t = clock_reads s \<and> heap.more t = heap.more s"

lemma revents_only_put:
  "chans s a = Some ch \<Longrightarrow> revents_only (put_chan a (ch\<lparr>ch_revents := r\<rparr>) s) t \<Longrightarrow> revents_only s t"
  by (auto simp: revents_only_def)

lemma fill_active_ok:
  assumes "\<And>pfd. pfd \<in> set fds \<Longrightarrow> ready pfd \<Longrightarrow> slot_live cm s pfd"
    and "num = int (length (filter ready fds))"
  shows "\<exists>s'. poll_fill_active_channels cm fds num active s = Inr (active @ ready_channels cm fds, s') \<and>
              revents_only s s'"
  using assms
proof (induction fds arbitrary: num active s)
  case Nil
  then show ?case by (simp add: ready_channels_def revents_only_def)
next
  case (Cons pfd fds)
  show ?case
  proof (cases "ready pfd")
    case False
    with Cons show ?thesis by (simp add: ready_def ready_channels_def)
  next
    case True
    with Cons.prems(1) obtain a ch where
      a: "cm (pfd_fd pfd) = Some a" "chans s a = Some ch" "ch_fd ch = pfd_fd pfd"
      by (force simp: slot_live_def)
    let ?s = "put_chan a (ch\<lparr>ch_revents := scast (pfd_revents pfd)\<rparr>) s"
    have "\<exists>s'. (if num - 1 = 0 then Inr (active @ [a], ?s)
               else poll_fill_active_channels cm fds (num - 1) (active @ [a]) ?s) =
              Inr ((active @ [a]) @ ready_channels cm fds, s') \<and> revents_only ?s s'"
    proof (cases "filter ready fds = []")
      case True
      with Cons.prems(2) \<open>ready pfd\<close> show ?thesis
        by (simp add: ready_channels_def revents_only_def)
    next
      case False
      have "\<exists>s'. poll_fill_active_channels cm fds (num - 1) (active @ [a]) ?s =
              Inr ((active @ [a]) @ ready_channels cm fds, s') \<and> revents_only ?s s'"
        using Cons.prems \<open>ready pfd\<close> slot_live_put [OF _ a(2)] by (intro Cons.IH) auto
      with False Cons.prems(2) \<open>ready pfd\<close> show ?thesis by simp
    qed
    with True a show ?thesis
      by (auto simp: ready_def ready_channels_def heap_simps Let_def intro: revents_only_put)
  qed
qed

text \<open>
  What \<^verbatim>\<open>poll(2)\<close> promises: one answer per slot, none for a negative descriptor, and the
  return value counts the slots with events.
\<close>

definition poll_answer :: "pollfd list \<Rightarrow> 16 word list \<Rightarrow> int \<Rightarrow> bool" where
  "poll_answer fds rs n \<longleftrightarrow>
     length rs = length fds \<and>
     (\<forall>i < length fds. 0 \<le> sint (rs ! i) \<and> (pfd_fd (fds ! i) < 0 \<longrightarrow> rs ! i = 0)) \<and>
     n = int (length (filter (\<lambda>r. r \<noteq> 0) rs))"

lemma nth_store_revents:
  "length rs = length fds \<Longrightarrow> i < length fds \<Longrightarrow> store_revents rs fds ! i = (fds ! i)\<lparr>pfd_revents := rs ! i\<rparr>"
  by (simp add: store_revents_def)

lemma sint_pos_iff: "0 \<le> sint r \<Longrightarrow> 0 < sint r \<longleftrightarrow> r \<noteq> (0 :: 16 word)"
  using signed_word_eqI [of r 0] by (auto simp: order_less_le)

lemma count_ready:
  "length rs = length fds \<Longrightarrow> (\<And>r. r \<in> set rs \<Longrightarrow> 0 \<le> sint r) \<Longrightarrow>
   length (filter (\<lambda>r. r \<noteq> 0) rs) = length (filter ready (store_revents rs fds))"
  by (induction rs fds rule: list_induct2) (auto simp: store_revents_def ready_def sint_pos_iff)

text \<open>Under the invariant a slot that reports events belongs to a live channel.\<close>

lemma poll_inv_slot_live:
  assumes inv: "poll_inv p s" and ans: "poll_answer (poll_fds p) rs n"
    and pfd: "pfd \<in> set (store_revents rs (poll_fds p))" "ready pfd"
  shows "slot_live (poll_channels p) s pfd"
proof -
  have len: "length rs = length (poll_fds p)" using ans by (simp add: poll_answer_def)
  from pfd(1) obtain i where i: "i < length (store_revents rs (poll_fds p))"
    "pfd = store_revents rs (poll_fds p) ! i" by (auto simp: in_set_conv_nth)
  then have "i < length (poll_fds p)" by (simp add: store_revents_def)
  note i = this i(2) [unfolded nth_store_revents [OF len this]]
  from pfd(2) i ans have "0 \<le> pfd_fd (poll_fds p ! i)"
    by (force simp: poll_answer_def ready_def)
  with poll_inv_slot [OF inv i(1)] have *: "real_fd (poll_fds p ! i) = pfd_fd pfd"
    by (simp add: real_fd_def i)
  from poll_inv_slot [OF inv i(1)] obtain a where a: "poll_channels p (pfd_fd pfd) = Some a"
    by (auto simp: *)
  with poll_invD [OF inv a] show ?thesis by (auto simp: slot_live_def)
qed

section \<open>Properties\<close>

text \<open>A poller with two channels, used as the concrete state below.\<close>

definition two_chans :: "cint \<Rightarrow> unit heap" where
  "two_chans e = \<lparr>logs = [], clock_reads = 0,
     chans = [10 \<mapsto> (Channel_ctor 0 5)\<lparr>ch_events := e, ch_index := 0\<rparr>,
              20 \<mapsto> (Channel_ctor 0 6)\<lparr>ch_events := POLLIN, ch_index := 1\<rparr>]\<rparr>"

definition two_poller :: "int \<Rightarrow> 16 word \<Rightarrow> poller" where
  "two_poller fd e = \<lparr>poll_fds = [\<lparr>pfd_fd = fd, pfd_events = e, pfd_revents = 0\<rparr>,
                                  \<lparr>pfd_fd = 6, pfd_events = 1, pfd_revents = 0\<rparr>],
                      poll_channels = [5 \<mapsto> 10, 6 \<mapsto> 20]\<rparr>"

lemma two_poller_inv:
  "poll_inv (two_poller 5 1) (two_chans POLLIN)" "poll_inv (two_poller (-6) 0) (two_chans k_none_event)"
  by (auto simp: poll_inv_def two_poller_def two_chans_def Channel_ctor_def slot_ok_def real_fd_def
      is_none_event_def POLLIN_def k_none_event_def less_Suc_eq split: if_splits)

lemma two_poller_simps [simp]:
  "chans (two_chans e) 10 = Some ((Channel_ctor 0 5)\<lparr>ch_events := e, ch_index := 0\<rparr>)"
  "poll_channels (two_poller fd w) = [5 \<mapsto> 10, 6 \<mapsto> 20]"
  "clock_reads (two_chans e) = 0"
  by (simp_all add: two_chans_def two_poller_def)


text \<open>
  The \<^verbatim>\<open>poll\<close> poller keeps its array, its map and the indices stored in the channels in
  agreement: from a consistent state, disabling and removing any registered channel passes
  every assertion (among them those on the slot) and gives a consistent state in which
  exactly that descriptor is gone, also when the last slot is moved into the hole.
\<close>

lemma poller_disable_remove_consistent:
  assumes "poll_inv p h" and "chans h a = Some ch" and "poll_channels p (ch_fd ch) = Some a"
  shows "\<exists>p' h'. andthen (poll_update_channel il a (p, put_chan a (ch\<lparr>ch_events := k_none_event\<rparr>) h))
             (poll_remove_channel il a) = Inr (p', h') \<and>
    poll_inv p' h' \<and> poll_channels p' = (poll_channels p)(ch_fd ch := None)"
  using pollp.disable_remove [OF assms] by blast

lemma poller_disable_remove_consistent_example:
  "\<exists>p' h'. andthen (poll_update_channel True 10 (two_poller 5 1,
       put_chan 10 ((Channel_ctor 0 5)\<lparr>ch_events := k_none_event, ch_index := 0\<rparr>) (two_chans POLLIN)))
       (poll_remove_channel True 10) = Inr (p', h') \<and> poll_inv p' h' \<and> poll_channels p' = [6 \<mapsto> 20]"
  using poller_disable_remove_consistent
      [OF two_poller_inv(1), of 10 "(Channel_ctor 0 5)\<lparr>ch_events := POLLIN, ch_index := 0\<rparr>" True]
  by (simp add: Channel_ctor_def fun_upd_twist)

text \<open>
  \<^verbatim>\<open>Poller::poll\<close> reports exactly the ready channels: given an answer as \<^verbatim>\<open>poll(2)\<close>
  documents it, no assertion of \<^verbatim>\<open>fill_active_channels\<close> fails and the list of active
  channels grows by the channels of the slots with events, in array order.
\<close>

lemma poller_reports_ready:
  assumes "poll_inv p s" and "poll_answer (poll_fds p) revents n"
  shows "\<exists>s'. poller_poll clk n revents active (p, s) =
    Inr (timestamp_at (clk (clock_reads s)),
         active @ ready_channels (poll_channels p) (store_revents revents (poll_fds p)),
         p\<lparr>poll_fds := store_revents revents (poll_fds p)\<rparr>, s')"
proof -
  let ?fds = "store_revents revents (poll_fds p)" and ?s = "snd (read_clock clk s)"
  have n: "n = int (length (filter ready ?fds))"
    using assms(2) count_ready [of revents "poll_fds p"]
    by (auto simp: poll_answer_def in_set_conv_nth)
  have inv: "poll_inv p ?s"
    using assms(1) by (simp add: read_clock_def cong: poll_inv_cong)
  from fill_active_ok [OF poll_inv_slot_live [OF inv assms(2)] n, of active] n show ?thesis
    by (auto simp: poller_poll_def read_clock_def Let_def ready_channels_def)
qed

lemma poller_reports_ready_example:
  "\<exists>p' s'. poller_poll (\<lambda>_. 7) 1 [0, 1] [] (two_poller 5 1, two_chans POLLIN) =
     Inr (timestamp_at 7, [20], p', s')"
proof -
  have "poll_answer (poll_fds (two_poller 5 1)) [0, 1] 1"
    by (auto simp: poll_answer_def two_poller_def less_Suc_eq nth_Cons split: nat.splits)
  from poller_reports_ready [OF two_poller_inv(1) this, of "\<lambda>_. 7" "[]"] show ?thesis
    by (auto simp: ready_channels_def store_revents_def two_poller_def ready_def)
qed

text \<open>
  C32.  A channel disabled with \<^verbatim>\<open>disable_all\<close> and enabled again stays switched off in the
  \<^verbatim>\<open>poll\<close> poller: the update stores the new events but leaves the negative descriptor in
  the slot, and \<^verbatim>\<open>poll(2)\<close> ignores slots with a negative descriptor.
\<close>

theorem poller_reenable_stays_off:
  assumes "poll_inv p h" and "chans h a = Some ch" and "poll_channels p (ch_fd ch) = Some a"
    and "is_none_event ch"
  shows "\<exists>p' h'. poll_update_channel il a (p, put_chan a (ch\<lparr>ch_events := e\<rparr>) h) = Inr (p', h') \<and>
    pfd_events (poll_fds p' ! nat (ch_index ch)) = ucast e \<and>
    pfd_fd (poll_fds p' ! nat (ch_index ch)) < 0"
proof -
  note facts = poll_remove_facts [OF assms]
  have "0 \<le> ch_fd ch" using poll_invD [OF assms(1,3)] by auto
  with facts(1-3) assms show ?thesis
    by (auto simp: poll_update_channel_def heap_simps Let_def)
qed

theorem poller_reenable_stays_off_witness:
  "\<exists>p' h'. poll_update_channel True 10 (two_poller (-6) 0,
       put_chan 10 ((Channel_ctor 0 5)\<lparr>ch_events := POLLIN, ch_index := 0\<rparr>) (two_chans k_none_event))
       = Inr (p', h') \<and> pfd_events (poll_fds p' ! 0) = 1 \<and> pfd_fd (poll_fds p' ! 0) < 0"
  using poller_reenable_stays_off
      [OF two_poller_inv(2), of 10 "(Channel_ctor 0 5)\<lparr>ch_events := k_none_event, ch_index := 0\<rparr>" True POLLIN]
  by (simp add: Channel_ctor_def is_none_event_def POLLIN_def)

end
