(* ===== verification/Epoll_Poller.thy ===== *)
theory Epoll_Poller
  imports Poller_Interface
begin

text \<open>
  The \<^verbatim>\<open>epoll(7)\<close> implementation (\<^verbatim>\<open>poller/Epoller.hpp\<close>, \<^verbatim>\<open>Epoller.cpp\<close>).  The index of a channel is a
  three-state tag (new, added, deleted).  The kernel's interest list is part of the state;
  \<^verbatim>\<open>epoll_ctl\<close> is a parameter that maps an operation and an interest list to a return value
  and a new list.  What its manual page promises is the hypothesis
  \<open>epoll_ctl_documented\<close> of the theorems about the kernel's view; the registration contract
  holds for any \<^verbatim>\<open>epoll_ctl\<close>, since the code only logs its failures.
\<close>

section \<open>State and operations\<close>

definition k_new :: int where "k_new = -1"
definition k_added :: int where "k_added = 1"
definition k_deleted :: int where "k_deleted = 2"

lemmas index_tags = k_new_def k_added_def k_deleted_def

definition k_init_event_list_size :: nat where
  "k_init_event_list_size = 16"

datatype epoll_op = EPOLL_CTL_ADD | EPOLL_CTL_MOD | EPOLL_CTL_DEL

type_synonym interest = "int \<rightharpoonup> cint \<times> addr"

type_synonym epoll_ctl = "epoll_op \<Rightarrow> int \<Rightarrow> cint \<times> addr \<Rightarrow> interest \<Rightarrow> int \<times> interest"

record epoller =
  epoll_fd :: int
  events_size :: nat
  ep_channels :: "int \<rightharpoonup> addr"
  kernel :: interest

text \<open>The constructor, with the descriptor \<^verbatim>\<open>epoll_create1\<close> returns.\<close>

definition Epoller_ctor :: "int \<Rightarrow> ('z) world_scheme \<Rightarrow> epoller \<times> ('z) world_scheme" where
  "Epoller_ctor fd s =
     (\<lparr>epoll_fd = fd, events_size = k_init_event_list_size, ep_channels = Map.empty, kernel = Map.empty\<rparr>,
      if fd < 0 then log_to LOG_SYSFATAL s else s)"

text \<open>How \<^verbatim>\<open>Epoller::update\<close> reports the return value of \<^verbatim>\<open>epoll_ctl\<close>.\<close>

definition ctl_report :: "epoll_op \<Rightarrow> int \<Rightarrow> ('z) world_scheme \<Rightarrow> ('z) world_scheme" where
  "ctl_report operation ret s =
     (if ret \<noteq> 0 then
        (if operation = EPOLL_CTL_DEL then log_to LOG_SYSERR s else log_to LOG_SYSFATAL s)
      else s)"

definition epoll_update ::
  "epoll_ctl \<Rightarrow> epoll_op \<Rightarrow> addr \<Rightarrow> epoller \<times> ('c, 'z) heap_scheme \<Rightarrow> (epoller \<times> ('c, 'z) heap_scheme) res" where
  "epoll_update ctl operation a ps =
     (case ps of (p, s) \<Rightarrow>
      andthen (deref a s) (\<lambda>ch.
      let (ret, k) = ctl operation (ch_fd ch) (ch_events ch, a) (kernel p)
      in Inr (p\<lparr>kernel := k\<rparr>, ctl_report operation ret s)))"

definition epoll_update_channel ::
  "epoll_ctl \<Rightarrow> bool \<Rightarrow> addr \<Rightarrow> epoller \<times> ('c, 'z) heap_scheme \<Rightarrow> (epoller \<times> ('c, 'z) heap_scheme) res" where
  "epoll_update_channel ctl il a ps =
     (case ps of (p, s0) \<Rightarrow>
      let s = assert_in_loop_thread il s0 in
      andthen (deref a s) (\<lambda>ch.
      let index = ch_index ch; fd = ch_fd ch in
      if index = k_new \<or> index = k_deleted then
        andthen
          (if index = k_new then
             cpp_assert (ep_channels p fd = None) (Inr (p\<lparr>ep_channels := (ep_channels p)(fd \<mapsto> a)\<rparr>))
           else
             cpp_assert (ep_channels p fd \<noteq> None) (cpp_assert (ep_channels p fd = Some a) (Inr p)))
          (\<lambda>p1. epoll_update ctl EPOLL_CTL_ADD a (p1, put_chan a (set_index k_added ch) s))
      else
        cpp_assert (ep_channels p fd \<noteq> None)
          (cpp_assert (ep_channels p fd = Some a)
          (cpp_assert (index = k_added)
          (if is_none_event ch then
             andthen (epoll_update ctl EPOLL_CTL_DEL a (p, s)) (\<lambda>(p1, s1).
             andthen (modify_chan a (set_index k_deleted) s1) (\<lambda>s2. Inr (p1, s2)))
           else epoll_update ctl EPOLL_CTL_MOD a (p, s))))))"

definition epoll_remove_channel ::
  "epoll_ctl \<Rightarrow> bool \<Rightarrow> addr \<Rightarrow> epoller \<times> ('c, 'z) heap_scheme \<Rightarrow> (epoller \<times> ('c, 'z) heap_scheme) res" where
  "epoll_remove_channel ctl il a ps =
     (case ps of (p, s0) \<Rightarrow>
      let s = assert_in_loop_thread il s0 in
      andthen (deref a s) (\<lambda>ch.
      let fd = ch_fd ch; index = ch_index ch in
      cpp_assert (ep_channels p fd \<noteq> None)
        (cpp_assert (ep_channels p fd = Some a)
        (cpp_assert (is_none_event ch)
        (cpp_assert (index = k_added \<or> index = k_deleted)
        (let p1 = p\<lparr>ep_channels := (ep_channels p)(fd := None)\<rparr> in
         andthen (if index = k_added then epoll_update ctl EPOLL_CTL_DEL a (p1, s) else Inr (p1, s)) (\<lambda>(p2, s2).
         andthen (modify_chan a (set_index k_new) s2) (\<lambda>s3. Inr (p2, s3)))))))))"

text \<open>
  \<^verbatim>\<open>fill_active_channels\<close> over the events the kernel stored (events and the pointer that was
  registered with them).
\<close>

fun epoll_fill_active_channels ::
  "(int \<rightharpoonup> addr) \<Rightarrow> (cint \<times> addr) list \<Rightarrow> addr list \<Rightarrow> ('c, 'z) heap_scheme \<Rightarrow>
   (addr list \<times> ('c, 'z) heap_scheme) res" where
  "epoll_fill_active_channels cm [] active s = Inr (active, s)"
| "epoll_fill_active_channels cm ((ev, a) # evs) active s =
     andthen (deref a s) (\<lambda>ch.
     cpp_assert (cm (ch_fd ch) \<noteq> None)
       (cpp_assert (cm (ch_fd ch) = Some a)
       (epoll_fill_active_channels cm evs (active @ [a]) (put_chan a (set_revents ev ch) s))))"

text \<open>
  \<^verbatim>\<open>Epoller::poll\<close>.  The answer of \<^verbatim>\<open>epoll_wait\<close> is an input: \<open>Inl\<close> for a failure, \<open>Inr\<close> with the
  events stored.
\<close>

definition epoller_poll ::
  "clock \<Rightarrow> unit + (cint \<times> addr) list \<Rightarrow> addr list \<Rightarrow> epoller \<times> ('c, 'z) heap_scheme \<Rightarrow>
   (timestamp \<times> addr list \<times> epoller \<times> ('c, 'z) heap_scheme) res" where
  "epoller_poll clk answer active ps =
     (case ps of (p, s) \<Rightarrow>
      let (now, s1) = read_clock clk s
      in case answer of
           Inl _ \<Rightarrow> Inr (timestamp_at now, active, p, log_to LOG_SYSERR s1)
         | Inr evs \<Rightarrow>
             if length evs > 0 then
               cpp_assert (length evs \<le> events_size p)
                 (andthen (epoll_fill_active_channels (ep_channels p) evs active s1) (\<lambda>(active', s2).
                  Inr (timestamp_at now, active',
                       if length evs = events_size p then p\<lparr>events_size := events_size p * 2\<rparr> else p,
                       s2)))
             else Inr (timestamp_at now, active, p, s1))"

section \<open>Registration contract\<close>

definition ep_inv :: "epoller \<Rightarrow> ('c, 'z) heap_scheme \<Rightarrow> bool" where
  "ep_inv p s \<longleftrightarrow>
     (\<forall>fd a. ep_channels p fd = Some a \<longrightarrow>
        (\<exists>ch. chans s a = Some ch \<and> ch_fd ch = fd \<and> (ch_index ch = k_added \<or> ch_index ch = k_deleted)))"

lemma ep_invD:
  "ep_inv p s \<Longrightarrow> ep_channels p fd = Some a \<Longrightarrow>
   \<exists>ch. chans s a = Some ch \<and> ch_fd ch = fd \<and> (ch_index ch = k_added \<or> ch_index ch = k_deleted)"
  by (simp add: ep_inv_def)

text \<open>Changing a registered channel, keeping its descriptor and a registered index.\<close>

lemma ep_inv_put:
  assumes "ep_inv p s" and "chans t = (chans s)(a \<mapsto> x)" and "ep_channels q = (ep_channels p)(ch_fd x \<mapsto> a)"
    and "chans s a = Some y" "ch_fd x = ch_fd y" and "ch_index x = k_added \<or> ch_index x = k_deleted"
  shows "ep_inv q t"
  using assms by (fastforce simp: ep_inv_def)

lemma ep_inv_drop:
  assumes "ep_inv p s" and "chans t = (chans s)(a \<mapsto> x)" and "ep_channels q = (ep_channels p)(ch_fd y := None)"
    and "chans s a = Some y"
  shows "ep_inv q t"
  using assms by (fastforce simp: ep_inv_def split: if_splits)

lemma ctl_report_frame [simp]:
  "chans (ctl_report opn r s) = chans s" "heap.more (ctl_report opn r s) = heap.more s"
  "ctl_report opn 0 s = s"
  by (simp_all add: ctl_report_def log_to_def)

lemma epoll_update_eq:
  "chans s a = Some ch \<Longrightarrow>
   epoll_update ctl opn a (p, s) =
     Inr (p\<lparr>kernel := snd (ctl opn (ch_fd ch) (ch_events ch, a) (kernel p))\<rparr>,
          ctl_report opn (fst (ctl opn (ch_fd ch) (ch_events ch, a) (kernel p))) s)"
  by (simp add: epoll_update_def heap_simps split: prod.split)

text \<open>The operation an update issues, and the index it leaves.\<close>

definition update_op :: "int \<Rightarrow> cint \<Rightarrow> epoll_op" where
  "update_op index e =
     (if index = k_added then (if e = k_none_event then EPOLL_CTL_DEL else EPOLL_CTL_MOD) else EPOLL_CTL_ADD)"

definition update_index :: "int \<Rightarrow> cint \<Rightarrow> int" where
  "update_index index e = (if index = k_added \<and> e = k_none_event then k_deleted else k_added)"

lemma epoll_update_channel_eq:
  assumes ch: "chans s a = Some ch"
    and reg: "ch_index ch = k_new \<and> ep_channels p (ch_fd ch) = None \<or>
              (ch_index ch = k_added \<or> ch_index ch = k_deleted) \<and> ep_channels p (ch_fd ch) = Some a"
  shows "\<exists>t. epoll_update_channel ctl il a (p, s) =
      Inr (p\<lparr>ep_channels := (ep_channels p)(ch_fd ch \<mapsto> a),
             kernel := snd (ctl (update_op (ch_index ch) (ch_events ch)) (ch_fd ch) (ch_events ch, a) (kernel p))\<rparr>, t) \<and>
    chans t = (chans s)(a \<mapsto> ch\<lparr>ch_index := update_index (ch_index ch) (ch_events ch)\<rparr>) \<and>
    heap.more t = heap.more s \<and>
    (il \<and> fst (ctl (update_op (ch_index ch) (ch_events ch)) (ch_fd ch) (ch_events ch, a) (kernel p)) = 0 \<longrightarrow>
       logs t = logs s)"
proof -
  let ?s = "assert_in_loop_thread il s"
  have s: "chans ?s a = Some ch" using ch by simp
  from reg consider "ch_index ch = k_new" "ep_channels p (ch_fd ch) = None"
    | "ch_index ch = k_deleted" "ep_channels p (ch_fd ch) = Some a"
    | "ch_index ch = k_added" "ep_channels p (ch_fd ch) = Some a" by auto
  then show ?thesis
  proof cases
    case 1
    then show ?thesis using s ch
      by (simp add: epoll_update_channel_def heap_simps epoll_update_eq update_op_def update_index_def
          index_tags Let_def)
  next
    case 2
    then have "p\<lparr>ep_channels := (ep_channels p)(ch_fd ch \<mapsto> a)\<rparr> = p" by (simp add: fun_upd_idem)
    with 2 show ?thesis using s ch
      by (simp add: epoll_update_channel_def heap_simps epoll_update_eq update_op_def update_index_def
          index_tags Let_def fun_upd_idem)
  next
    case 3
    then show ?thesis using s ch
      by (cases "is_none_event ch")
         (simp_all add: epoll_update_channel_def heap_simps epoll_update_eq update_op_def update_index_def
          index_tags Let_def fun_upd_idem is_none_event_def)
  qed
qed

lemma epoll_remove_channel_eq:
  assumes ch: "chans s a = Some ch" and reg: "ep_channels p (ch_fd ch) = Some a"
    and none: "is_none_event ch" and idx: "ch_index ch = k_added \<or> ch_index ch = k_deleted"
  shows "\<exists>t. epoll_remove_channel ctl il a (p, s) =
      Inr (p\<lparr>ep_channels := (ep_channels p)(ch_fd ch := None),
             kernel := (if ch_index ch = k_added
                        then snd (ctl EPOLL_CTL_DEL (ch_fd ch) (ch_events ch, a) (kernel p)) else kernel p)\<rparr>, t) \<and>
    chans t = (chans s)(a \<mapsto> ch\<lparr>ch_index := k_new\<rparr>) \<and> heap.more t = heap.more s \<and>
    (il \<and> fst (ctl EPOLL_CTL_DEL (ch_fd ch) (ch_events ch, a) (kernel p)) = 0 \<longrightarrow> logs t = logs s)"
proof -
  have "chans (assert_in_loop_thread il s) a = Some ch" using ch by simp
  with assms show ?thesis
    by (cases "ch_index ch = k_added")
       (simp_all add: epoll_remove_channel_def heap_simps epoll_update_eq index_tags Let_def)
qed

text \<open>An update of a new or registered channel, after its events were changed.\<close>

lemma epoll_update_ok:
  assumes inv: "ep_inv p h" and a: "chans h a = Some ch"
    and reg: "ch_index ch = k_new \<and> ep_channels p (ch_fd ch) = None \<or> ep_channels p (ch_fd ch) = Some a"
  shows "\<exists>p' h'. epoll_update_channel ctl il a (p, put_chan a (ch\<lparr>ch_events := e\<rparr>) h) = Inr (p', h') \<and>
    ep_inv p' h' \<and> ep_channels p' = (ep_channels p)(ch_fd ch \<mapsto> a) \<and>
    upto_index h' (put_chan a (ch\<lparr>ch_events := e\<rparr>) h)"
proof -
  let ?x = "ch\<lparr>ch_events := e\<rparr>" and ?h = "put_chan a (ch\<lparr>ch_events := e\<rparr>) h"
  have x: "chans ?h a = Some ?x" by simp
  have reg': "ch_index ?x = k_new \<and> ep_channels p (ch_fd ?x) = None \<or>
      (ch_index ?x = k_added \<or> ch_index ?x = k_deleted) \<and> ep_channels p (ch_fd ?x) = Some a"
    using reg ep_invD [OF inv, of "ch_fd ch" a] a by auto
  from epoll_update_channel_eq [OF x reg', of ctl il] obtain q t where
    t: "epoll_update_channel ctl il a (p, ?h) = Inr (q, t)" "ep_channels q = (ep_channels p)(ch_fd ch \<mapsto> a)"
      "chans t = (chans ?h)(a \<mapsto> ?x\<lparr>ch_index := update_index (ch_index ch) e\<rparr>)" "heap.more t = heap.more ?h"
    by auto
  have "ep_inv q t"
    by (rule ep_inv_put [OF inv, where x = "?x\<lparr>ch_index := update_index (ch_index ch) e\<rparr>"])
       (use t a in \<open>simp_all add: update_index_def\<close>)
  moreover have "upto_index t ?h"
    using t(3,4) by (simp add: upto_index_def forget_index_def)
  ultimately show ?thesis using t(1,2) by blast
qed

interpretation epollp: poller_contract "epoll_update_channel ctl" "epoll_remove_channel ctl" ep_channels ep_inv
  for ctl
proof unfold_locales
  fix p :: epoller and h :: "('c, 'z) heap_scheme" and fd a
  show "ep_inv p h \<Longrightarrow> ep_channels p fd = Some a \<Longrightarrow> \<exists>ch. chans h a = Some ch \<and> ch_fd ch = fd"
    using ep_invD by blast
next
  fix p :: epoller and h :: "('c, 'z) heap_scheme" and a ch e il
  assume *: "ep_inv p h" "chans h a = Some ch" "ch_index ch = -1" "ep_channels p (ch_fd ch) = None"
  then show "\<exists>p' h'. epoll_update_channel ctl il a (p, put_chan a (ch\<lparr>ch_events := e\<rparr>) h) = Inr (p', h') \<and>
      ep_inv p' h' \<and> ep_channels p' = (ep_channels p)(ch_fd ch \<mapsto> a) \<and>
      upto_index h' (put_chan a (ch\<lparr>ch_events := e\<rparr>) h)"
    by (intro epoll_update_ok) (simp_all add: k_new_def)
next
  fix p :: epoller and h :: "('c, 'z) heap_scheme" and a ch e il
  assume *: "ep_inv p h" "chans h a = Some ch" "ep_channels p (ch_fd ch) = Some a"
  then show "\<exists>p' h'. epoll_update_channel ctl il a (p, put_chan a (ch\<lparr>ch_events := e\<rparr>) h) = Inr (p', h') \<and>
      ep_inv p' h' \<and> ep_channels p' = ep_channels p \<and>
      upto_index h' (put_chan a (ch\<lparr>ch_events := e\<rparr>) h)"
    using epoll_update_ok [OF *(1,2), of ctl il e] by (simp add: fun_upd_idem)
next
  fix p :: epoller and h :: "('c, 'z) heap_scheme" and a ch il
  assume *: "ep_inv p h" "chans h a = Some ch" "ep_channels p (ch_fd ch) = Some a" "is_none_event ch"
  have idx: "ch_index ch = k_added \<or> ch_index ch = k_deleted" using ep_invD [OF *(1,3)] *(2) by auto
  from epoll_remove_channel_eq [OF *(2,3,4) idx, of ctl il] obtain q t where
    t: "epoll_remove_channel ctl il a (p, h) = Inr (q, t)" "ep_channels q = (ep_channels p)(ch_fd ch := None)"
      "chans t = (chans h)(a \<mapsto> ch\<lparr>ch_index := k_new\<rparr>)" "heap.more t = heap.more h" by auto
  moreover from t(3,4) *(2) have "upto_index t h" by (simp add: upto_index_def forget_index_def)
  moreover have "ep_inv q t" using t *(2) by (intro ep_inv_drop [OF *(1)]) auto
  ultimately show "\<exists>p' h'. epoll_remove_channel ctl il a (p, h) = Inr (p', h') \<and> ep_inv p' h' \<and>
      ep_channels p' = (ep_channels p)(ch_fd ch := None) \<and> upto_index h' h"
    by blast
qed

section \<open>The kernel's view\<close>

text \<open>
  \<^verbatim>\<open>epoll_ctl(2)\<close> on open descriptors that can be watched, while memory and the limit on watches suffice: adding an absent,
  changing or deleting a present entry succeeds and does just that; adding a present or touching an absent entry fails and changes
  nothing.  (The kernel also drops the entry of a descriptor that is closed; the library closes a descriptor after it
  has removed its channel.)
\<close>

definition epoll_ctl_documented :: "epoll_ctl \<Rightarrow> bool" where
  "epoll_ctl_documented ctl \<longleftrightarrow>
     (\<forall>fd ev k. k fd = None \<longrightarrow> ctl EPOLL_CTL_ADD fd ev k = (0, k(fd \<mapsto> ev))) \<and>
     (\<forall>fd ev k. k fd \<noteq> None \<longrightarrow> ctl EPOLL_CTL_MOD fd ev k = (0, k(fd \<mapsto> ev))) \<and>
     (\<forall>fd ev k. k fd \<noteq> None \<longrightarrow> ctl EPOLL_CTL_DEL fd ev k = (0, k(fd := None))) \<and>
     (\<forall>opn fd ev k. (opn = EPOLL_CTL_ADD) = (k fd \<noteq> None) \<longrightarrow>
        fst (ctl opn fd ev k) \<noteq> 0 \<and> snd (ctl opn fd ev k) = k)"

text \<open>The interest list the registered channels call for.\<close>

definition wanted :: "epoller \<Rightarrow> ('c, 'z) heap_scheme \<Rightarrow> interest" where
  "wanted p s fd =
     (case ep_channels p fd of None \<Rightarrow> None
      | Some a \<Rightarrow> (case chans s a of None \<Rightarrow> None
                   | Some ch \<Rightarrow> if ch_index ch = k_added then Some (ch_events ch, a) else None))"

definition registered_or_new :: "epoller \<Rightarrow> ('c, 'z) heap_scheme \<Rightarrow> bool" where
  "registered_or_new p s \<longleftrightarrow>
     (\<forall>a ch. chans s a = Some ch \<longrightarrow> ch_index ch = k_new \<or> ep_channels p (ch_fd ch) = Some a)"

definition ep_synced :: "epoller \<Rightarrow> ('c, 'z) heap_scheme \<Rightarrow> bool" where
  "ep_synced p s \<longleftrightarrow> ep_inv p s \<and> registered_or_new p s \<and> kernel p = wanted p s"

lemma ctl_documented:
  assumes "epoll_ctl_documented ctl"
  shows "k fd = None \<Longrightarrow> ctl EPOLL_CTL_ADD fd ev k = (0, k(fd \<mapsto> ev))"
    "k fd = Some v \<Longrightarrow> ctl EPOLL_CTL_MOD fd ev k = (0, k(fd \<mapsto> ev))"
    "k fd = Some v \<Longrightarrow> ctl EPOLL_CTL_DEL fd ev k = (0, k(fd := None))"
  using assms unfolding epoll_ctl_documented_def by (metis option.distinct(1))+

text \<open>An update issues an operation the kernel accepts.\<close>

lemma update_op_accepted:
  assumes ctl: "epoll_ctl_documented ctl" and sync: "ep_synced p s" and ch: "chans s a = Some ch"
    and reg: "ch_index ch = k_new \<and> ep_channels p (ch_fd ch) = None \<or> ep_channels p (ch_fd ch) = Some a"
  shows "ctl (update_op (ch_index ch) e) (ch_fd ch) (e, a) (kernel p) =
    (0, (kernel p)(ch_fd ch := if update_index (ch_index ch) e = k_added then Some (e, a) else None))"
proof -
  have k: "kernel p (ch_fd ch) = (if ch_index ch = k_added then Some (ch_events ch, a) else None)"
    using sync ch reg by (auto simp: ep_synced_def wanted_def index_tags)
  show ?thesis
  proof (cases "ch_index ch = k_added")
    case True
    with k have "kernel p (ch_fd ch) = Some (ch_events ch, a)" by simp
    with True show ?thesis
      by (simp add: ctl_documented(2,3) [OF ctl] update_op_def update_index_def index_tags)
  next
    case False
    with k show ?thesis
      by (simp add: ctl_documented(1) [OF ctl] update_op_def update_index_def index_tags)
  qed
qed

lemma ep_synced_reg:
  assumes "ep_synced p s" and "chans s a = Some ch" and "ep_channels p fd = Some a"
  shows "fd = ch_fd ch"
  using assms ep_invD [of p s fd a] by (auto simp: ep_synced_def)

text \<open>An operation on one channel leaves what the others call for.\<close>

lemma wanted_other:
  assumes "ep_channels q = (ep_channels p)(f := v)" and "chans t = (chans s)(a \<mapsto> x)"
    and "ep_channels p fd = Some a \<Longrightarrow> fd = f" and "fd \<noteq> f"
  shows "wanted q t fd = wanted p s fd"
  using assms by (auto simp: wanted_def split: option.split)

lemma registered_or_new_other:
  assumes "registered_or_new p s" and "ep_channels q = (ep_channels p)(f := v)"
    and "chans t = (chans s)(a \<mapsto> x)" and "ch_index x = k_new \<or> f = ch_fd x \<and> v = Some a"
    and "\<And>b y. chans s b = Some y \<Longrightarrow> b \<noteq> a \<Longrightarrow> ch_fd y = f \<Longrightarrow> ep_channels p f \<noteq> Some b"
  shows "registered_or_new q t"
  using assms unfolding registered_or_new_def by (metis fun_upd_apply option.inject)

lemma epoll_update_synced:
  assumes ctl: "epoll_ctl_documented ctl" and sync: "ep_synced p s" and ch: "chans s a = Some ch"
    and reg: "ch_index ch = k_new \<and> ep_channels p (ch_fd ch) = None \<or> ep_channels p (ch_fd ch) = Some a"
  shows "\<exists>p' s'. epoll_update_channel ctl True a (p, put_chan a (ch\<lparr>ch_events := e\<rparr>) s) = Inr (p', s') \<and>
    ep_synced p' s' \<and> logs s' = logs s"
proof -
  let ?x = "ch\<lparr>ch_events := e\<rparr>" and ?s = "put_chan a (ch\<lparr>ch_events := e\<rparr>) s"
  let ?i = "update_index (ch_index ch) e"
  have inv: "ep_inv p s" using sync by (simp add: ep_synced_def)
  have reg': "ch_index ?x = k_new \<and> ep_channels p (ch_fd ?x) = None \<or>
      (ch_index ?x = k_added \<or> ch_index ?x = k_deleted) \<and> ep_channels p (ch_fd ?x) = Some a"
    using reg ep_invD [OF inv, of "ch_fd ch" a] ch by auto
  note ctl_ok = update_op_accepted [OF ctl sync ch reg, of e]
  from epoll_update_channel_eq [of ?s a ?x p ctl True] reg' ctl_ok obtain q t where
    q: "epoll_update_channel ctl True a (p, ?s) = Inr (q, t)" "ep_channels q = (ep_channels p)(ch_fd ch \<mapsto> a)"
      "kernel q = (kernel p)(ch_fd ch := if ?i = k_added then Some (e, a) else None)"
      "chans t = (chans s)(a \<mapsto> ?x\<lparr>ch_index := ?i\<rparr>)" "logs t = logs s"
    by (auto simp: put_chan_def)
  have "ep_inv q t"
    by (rule ep_inv_put [OF inv q(4)]) (use q ch in \<open>simp_all add: update_index_def\<close>)
  moreover have "registered_or_new q t"
    by (rule registered_or_new_other [OF _ q(2,4)]) (use sync reg in \<open>auto simp: ep_synced_def\<close>)
  moreover have "kernel q = wanted q t"
  proof
    fix fd show "kernel q fd = wanted q t fd"
    proof (cases "fd = ch_fd ch")
      case True
      with q show ?thesis by (simp add: wanted_def)
    next
      case False
      with wanted_other [OF q(2,4) ep_synced_reg [OF sync ch]] sync q(3) show ?thesis
        by (simp add: ep_synced_def)
    qed
  qed
  ultimately show ?thesis using q(1,5) by (auto simp: ep_synced_def)
qed

lemma epoll_remove_synced:
  assumes ctl: "epoll_ctl_documented ctl" and sync: "ep_synced p s"
    and rem: "epoll_remove_channel ctl True a (p, s) = Inr (p', s')"
  shows "ep_synced p' s' \<and> logs s' = logs s"
proof -
  from rem obtain ch where ch: "chans s a = Some ch" "ep_channels p (ch_fd ch) = Some a"
    "is_none_event ch" "ch_index ch = k_added \<or> ch_index ch = k_deleted"
    by (auto simp: epoll_remove_channel_def Let_def)
  have inv: "ep_inv p s" using sync by (simp add: ep_synced_def)
  have k: "kernel p (ch_fd ch) = (if ch_index ch = k_added then Some (ch_events ch, a) else None)"
    using sync ch by (simp add: ep_synced_def wanted_def)
  have del: "ctl EPOLL_CTL_DEL (ch_fd ch) (ch_events ch, a) (kernel p) = (0, (kernel p)(ch_fd ch := None))"
    if "ch_index ch = k_added" using k that ctl_documented(3) [OF ctl] by simp
  from epoll_remove_channel_eq [OF ch, of ctl True] rem k del
  have q: "ep_channels p' = (ep_channels p)(ch_fd ch := None)" "kernel p' = (kernel p)(ch_fd ch := None)"
    "chans s' = (chans s)(a \<mapsto> ch\<lparr>ch_index := k_new\<rparr>)"
    by (auto simp: fun_upd_idem split: if_splits)
  have l: "logs s' = logs s"
    using rem ch del
    by (cases "ch_index ch = k_added")
       (auto simp: epoll_remove_channel_def heap_simps epoll_update_eq Let_def index_tags)
  have "ep_inv p' s'" by (rule ep_inv_drop [OF inv q(3,1) ch(1)])
  moreover have "registered_or_new p' s'"
    by (rule registered_or_new_other [OF _ q(1,3)]) (use sync ch(2) in \<open>auto simp: ep_synced_def\<close>)
  moreover have "kernel p' = wanted p' s'"
  proof
    fix fd show "kernel p' fd = wanted p' s' fd"
    proof (cases "fd = ch_fd ch")
      case True
      with q show ?thesis by (simp add: wanted_def)
    next
      case False
      with wanted_other [OF q(1,3) ep_synced_reg [OF sync ch(1)]] sync q(2) show ?thesis
        by (simp add: ep_synced_def)
    qed
  qed
  ultimately show ?thesis using l by (simp add: ep_synced_def)
qed

text \<open>
  The states a loop thread can bring an epoll poller and its channels to: channels are
  constructed, change their events, are removed and destroyed, in any order, as long as
  no assertion fails; a channel is destroyed only while it is not registered.
\<close>

inductive ep_reachable :: "epoll_ctl \<Rightarrow> epoller \<Rightarrow> ('c, 'z) heap_scheme \<Rightarrow> bool" for ctl where
  ep_start: "chans s = Map.empty \<Longrightarrow> ep_reachable ctl (fst (Epoller_ctor epfd s)) s"
| ep_construct: "ep_reachable ctl p s \<Longrightarrow> chans s a = None \<Longrightarrow>
    ep_reachable ctl p (put_chan a (Channel_ctor lp fd) s)"
| ep_change: "ep_reachable ctl p s \<Longrightarrow> chans s a = Some ch \<Longrightarrow>
    epoll_update_channel ctl True a
      (p, put_chan a (ch\<lparr>ch_events := change_events c (ch_events ch)\<rparr>) s) = Inr (p', s') \<Longrightarrow>
    ep_reachable ctl p' s'"
| ep_remove: "ep_reachable ctl p s \<Longrightarrow> epoll_remove_channel ctl True a (p, s) = Inr (p', s') \<Longrightarrow>
    ep_reachable ctl p' s'"
| ep_destroy: "ep_reachable ctl p s \<Longrightarrow> chans s a = Some ch \<Longrightarrow> ch_index ch = k_new \<Longrightarrow>
    destroy_chan a s = Inr s' \<Longrightarrow> ep_reachable ctl p s'"

lemma ep_synced_construct:
  assumes "ep_synced p s" and "chans s a = None"
  shows "ep_synced p (put_chan a (Channel_ctor lp fd) s)"
proof -
  have a: "ep_channels p fd' \<noteq> Some a" for fd'
    using assms ep_invD [of p s fd' a] by (auto simp: ep_synced_def)
  then have "wanted p (put_chan a (Channel_ctor lp fd) s) = wanted p s"
    by (auto simp: wanted_def fun_eq_iff split: option.split)
  moreover have "ep_inv p (put_chan a (Channel_ctor lp fd) s)"
    using assms(1) a by (auto simp: ep_synced_def ep_inv_def)
  ultimately show ?thesis
    using assms by (auto simp: ep_synced_def registered_or_new_def Channel_ctor_def k_new_def split: if_splits)
qed

lemma ep_synced_destroy:
  assumes "ep_synced p s" and "chans s a = Some ch" and "ch_index ch = k_new" and "destroy_chan a s = Inr s'"
  shows "ep_synced p s'"
proof -
  have a: "ep_channels p fd' \<noteq> Some a" for fd'
    using assms(1-3) ep_invD [of p s fd' a] by (auto simp: ep_synced_def index_tags)
  have s': "chans s' = (chans s)(a := None)"
    using assms(2,4) by (auto simp: destroy_chan_def heap_simps)
  then have "wanted p s' = wanted p s"
    using a by (auto simp: wanted_def fun_eq_iff split: option.split)
  moreover have "ep_inv p s'"
    using assms(1) a s' by (auto simp: ep_synced_def ep_inv_def)
  ultimately show ?thesis
    using assms(1) s' by (auto simp: ep_synced_def registered_or_new_def split: if_splits)
qed

lemma epoll_update_new_unregistered:
  "chans s a = Some ch \<Longrightarrow> ch_index ch = k_new \<Longrightarrow>
   epoll_update_channel ctl il a (p, s) = Inr r \<Longrightarrow> ep_channels p (ch_fd ch) = None"
  by (cases r) (auto simp: epoll_update_channel_def Let_def)

lemma ep_reachable_synced:
  assumes "ep_reachable ctl p s" and ctl: "epoll_ctl_documented ctl"
  shows "ep_synced p s"
  using assms(1)
proof (induction rule: ep_reachable.induct)
  case (ep_start s epfd)
  then show ?case
    by (auto simp: ep_synced_def ep_inv_def registered_or_new_def wanted_def Epoller_ctor_def)
next
  case (ep_change p s a ch c p' s')
  then have "ch_index ch = k_new \<and> ep_channels p (ch_fd ch) = None \<or> ep_channels p (ch_fd ch) = Some a"
    using epoll_update_new_unregistered [OF _ _ ep_change.hyps(3)]
    by (auto simp: ep_synced_def registered_or_new_def)
  from epoll_update_synced [OF ctl ep_change.IH ep_change.hyps(2) this, of "change_events c (ch_events ch)"]
    ep_change.hyps(3)
  show ?case by auto
next
  case (ep_remove p s a p' s')
  with epoll_remove_synced [OF ctl] show ?case by blast
qed (blast intro: ep_synced_construct ep_synced_destroy)+

text \<open>A channel that left the interest list without being removed asks for no events.\<close>

definition deleted_idle :: "('c, 'z) heap_scheme \<Rightarrow> bool" where
  "deleted_idle s \<longleftrightarrow> (\<forall>a ch. chans s a = Some ch \<and> ch_index ch = k_deleted \<longrightarrow> is_none_event ch)"

lemma epoll_update_chans:
  assumes "epoll_update_channel ctl il a (p, s) = Inr (q, t)" and "chans s a = Some x"
  shows "chans t = (chans s)(a \<mapsto> x\<lparr>ch_index := update_index (ch_index x) (ch_events x)\<rparr>)"
proof -
  have "ch_index x = k_new \<and> ep_channels p (ch_fd x) = None \<or>
      (ch_index x = k_added \<or> ch_index x = k_deleted) \<and> ep_channels p (ch_fd x) = Some a"
    using assms by (auto simp: epoll_update_channel_def Let_def heap_simps split: if_splits)
  from epoll_update_channel_eq [OF assms(2) this, of ctl il] assms(1) show ?thesis by auto
qed

lemma epoll_remove_chans:
  assumes "epoll_remove_channel ctl il a (p, s) = Inr (q, t)"
  shows "\<exists>x. chans s a = Some x \<and> chans t = (chans s)(a \<mapsto> x\<lparr>ch_index := k_new\<rparr>)"
  using assms
  by (auto simp: epoll_remove_channel_def Let_def heap_simps epoll_update_eq index_tags split: if_splits)

lemma ep_reachable_deleted_idle:
  assumes "ep_reachable ctl p s"
  shows "deleted_idle s"
  using assms
proof (induction rule: ep_reachable.induct)
  case (ep_change p s a ch c p' s')
  let ?x = "ch\<lparr>ch_events := change_events c (ch_events ch)\<rparr>"
  from epoll_update_chans [OF ep_change.hyps(3), of ?x] ep_change.IH show ?case
    by (auto simp: deleted_idle_def is_none_event_def update_index_def index_tags split: if_splits)
next
  case (ep_remove p s a p' s')
  from epoll_remove_chans [OF ep_remove.hyps(2)] ep_remove.IH show ?case
    by (auto simp: deleted_idle_def index_tags split: if_splits)
next
  case (ep_destroy p s a ch s')
  then show ?case by (auto simp: deleted_idle_def destroy_chan_def heap_simps split: if_splits)
qed (auto simp: deleted_idle_def Channel_ctor_def index_tags split: if_splits)

section \<open>Properties\<close>

text \<open>
  C7.  The kernel's interest list mirrors the channels: in every state reachable through
  \<^verbatim>\<open>update_channel\<close>, \<^verbatim>\<open>remove_channel\<close> and the construction and destruction of channels, a
  descriptor is watched with events \<open>ev\<close> and pointer \<open>a\<close> exactly if \<open>a\<close> is the channel
  registered for it, is in the added state and asks for just these events.  As far as any event is watched for, the state does
  not matter: the enabled registered channels are watched with just the events they ask for, and nothing else is.  (A disabled channel
  may be listed with an empty mask: a second \<^verbatim>\<open>disable_all\<close> adds it again.)  The kernel is assumed to accept every well-formed
  \<^verbatim>\<open>epoll_ctl\<close> call, that is descriptors are open and memory and the limit on watches suffice.
\<close>

theorem epoll_interest_mirrors_channels:
  assumes "ep_reachable ctl p s" and "epoll_ctl_documented ctl"
  shows "(kernel p fd = Some (ev, a) \<longleftrightarrow>
      ep_channels p fd = Some a \<and> (\<exists>ch. chans s a = Some ch \<and> ch_fd ch = fd \<and> ch_index ch = k_added \<and> ch_events ch = ev)) \<and>
    (ev \<noteq> k_none_event \<longrightarrow> (kernel p fd = Some (ev, a) \<longleftrightarrow>
      ep_channels p fd = Some a \<and> (\<exists>ch. chans s a = Some ch \<and> ch_fd ch = fd \<and> ch_events ch = ev)))"
proof -
  from ep_reachable_synced [OF assms] have inv: "ep_inv p s" and k: "kernel p fd = wanted p s fd"
    by (simp_all add: ep_synced_def)
  have idle: "deleted_idle s" by (rule ep_reachable_deleted_idle [OF assms(1)])
  show ?thesis
  proof (cases "ep_channels p fd")
    case None
    with k show ?thesis by (simp add: wanted_def)
  next
    case (Some b)
    with ep_invD [OF inv Some] k idle show ?thesis
      by (auto simp: wanted_def deleted_idle_def is_none_event_def split: if_splits)
  qed
qed

text \<open>
  Changing the events of a channel that is registered, or new with a free descriptor,
  passes every assertion of the epoll poller and issues an \<^verbatim>\<open>epoll_ctl\<close> call that the kernel
  accepts: nothing is logged, and the kernel's view stays in step.
\<close>

lemma epoll_update_accepted:
  assumes "epoll_ctl_documented ctl" and "ep_synced p s" and "chans s a = Some ch"
    and "ch_index ch = k_new \<and> ep_channels p (ch_fd ch) = None \<or> ep_channels p (ch_fd ch) = Some a"
  shows "\<exists>p' s'. epoll_update_channel ctl True a
      (p, put_chan a (ch\<lparr>ch_events := change_events c (ch_events ch)\<rparr>) s) = Inr (p', s') \<and>
    ep_synced p' s' \<and> logs s' = logs s"
  by (rule epoll_update_synced [OF assms])

lemma epoll_fill_ok:
  "ep_inv p s \<Longrightarrow> (\<And>ev a. (ev, a) \<in> set evs \<Longrightarrow> \<exists>fd. ep_channels p fd = Some a) \<Longrightarrow>
   \<exists>s'. epoll_fill_active_channels (ep_channels p) evs active s = Inr (active @ map snd evs, s') \<and> ep_inv p s'"
proof (induction evs arbitrary: active s)
  case (Cons e evs)
  obtain ev a where e: "e = (ev, a)" by (cases e)
  with Cons.prems(2) obtain fd where fd: "ep_channels p fd = Some a" by force
  from ep_invD [OF Cons.prems(1) fd] obtain ch where ch: "chans s a = Some ch" "ch_fd ch = fd" by blast
  have "ep_inv p (put_chan a (ch\<lparr>ch_revents := ev\<rparr>) s)"
    using Cons.prems(1) ch by (force simp: ep_inv_def)
  from Cons.IH [OF this, where active = "active @ [a]"] Cons.prems(2) ch fd e show ?case
    by (fastforce simp: heap_simps)
qed simp

text \<open>
  \<^verbatim>\<open>Epoller::poll\<close> hands on exactly what \<^verbatim>\<open>epoll_wait\<close> reports: if the reported pointers
  belong to watched channels and their number fits the event array, no assertion of
  \<^verbatim>\<open>fill_active_channels\<close> fails, the active channels are the reported ones in order, and the
  event array doubles exactly when it was filled up.
\<close>

lemma epoll_poll_reports:
  assumes "ep_inv p s" and "length evs \<le> events_size p"
    and "\<And>ev a. (ev, a) \<in> set evs \<Longrightarrow> \<exists>fd. ep_channels p fd = Some a"
  shows "\<exists>s'. epoller_poll clk (Inr evs) active (p, s) =
    Inr (timestamp_at (clk (clock_reads s)), active @ map snd evs,
         p\<lparr>events_size := if evs \<noteq> [] \<and> length evs = events_size p then events_size p * 2 else events_size p\<rparr>, s')"
proof -
  have "ep_inv p (snd (read_clock clk s))" using assms(1) by (simp add: ep_inv_def read_clock_def)
  then have "\<exists>s'. epoll_fill_active_channels (ep_channels p) evs active (snd (read_clock clk s)) =
      Inr (active @ map snd evs, s') \<and> ep_inv p s'"
    using assms(3) by (rule epoll_fill_ok)
  with assms(2) show ?thesis
    by (cases "evs = []") (auto simp: epoller_poll_def read_clock_def Let_def)
qed

text \<open>A kernel that behaves as documented, and a first channel.\<close>

fun sample_ctl :: epoll_ctl where
  "sample_ctl EPOLL_CTL_ADD fd ev k = (if k fd = None then (0, k(fd \<mapsto> ev)) else (-1, k))"
| "sample_ctl EPOLL_CTL_MOD fd ev k = (if k fd = None then (-1, k) else (0, k(fd \<mapsto> ev)))"
| "sample_ctl EPOLL_CTL_DEL fd ev k = (if k fd = None then (-1, k) else (0, k(fd := None)))"

lemma sample_ctl_documented: "epoll_ctl_documented sample_ctl"
proof -
  have "fst (sample_ctl opn fd ev k) \<noteq> 0 \<and> snd (sample_ctl opn fd ev k) = k"
    if "(opn = EPOLL_CTL_ADD) = (k fd \<noteq> None)" for opn fd ev k
    using that by (cases opn) auto
  then show ?thesis unfolding epoll_ctl_documented_def by simp
qed

definition no_chans :: "unit heap" where
  "no_chans = \<lparr>logs = [], clock_reads = 0, chans = Map.empty\<rparr>"

definition one_chan :: "unit heap" where
  "one_chan = put_chan 10 (Channel_ctor 0 5) no_chans"

definition fresh_epoller :: epoller where
  "fresh_epoller = fst (Epoller_ctor 3 no_chans)"

lemma one_chan_reachable: "ep_reachable sample_ctl fresh_epoller one_chan"
  unfolding fresh_epoller_def one_chan_def
  by (intro ep_construct ep_start) (simp_all add: no_chans_def)

lemma one_chan_simps [simp]:
  "chans one_chan 10 = Some (Channel_ctor 0 5)" "logs one_chan = []"
  "ep_channels fresh_epoller = Map.empty"
  by (simp_all add: one_chan_def no_chans_def fresh_epoller_def Epoller_ctor_def)

lemma epoll_update_accepted_example:
  "\<exists>p' s'. epoll_update_channel sample_ctl True 10
      (fresh_epoller, put_chan 10 ((Channel_ctor 0 5)\<lparr>ch_events := k_read_event\<rparr>) one_chan) = Inr (p', s') \<and>
    ep_synced p' s' \<and> logs s' = []"
  using epoll_update_accepted [OF sample_ctl_documented
      ep_reachable_synced [OF one_chan_reachable sample_ctl_documented], of 10 "Channel_ctor 0 5" Enable_reading]
  by (simp add: k_new_def) (simp add: Channel_ctor_def)

theorem epoll_interest_mirrors_channels_witness:
  "\<exists>p s. ep_reachable sample_ctl p (s :: unit heap) \<and> kernel p 5 = Some (k_read_event, 10) \<and>
         ep_channels p 5 = Some 10"
proof -
  let ?x = "(Channel_ctor 0 5)\<lparr>ch_events := k_read_event\<rparr> :: unit channel"
  obtain p s where u: "epoll_update_channel sample_ctl True 10 (fresh_epoller, put_chan 10 ?x one_chan) = Inr (p, s)"
    and p: "kernel p 5 = Some (k_read_event, 10)"
    by (simp add: epoll_update_channel_def heap_simps epoll_update_eq Channel_ctor_def index_tags Let_def
        fresh_epoller_def Epoller_ctor_def)
  have "ep_reachable sample_ctl p s"
    using u by (intro ep_change [OF one_chan_reachable, of 10 "Channel_ctor 0 5" Enable_reading])
      (simp_all add: Channel_ctor_def)
  with epoll_interest_mirrors_channels [OF this sample_ctl_documented, of 5 k_read_event 10] p
  show ?thesis by blast
qed

lemma epoll_poll_reports_example:
  "\<exists>s'. epoller_poll (\<lambda>_. 7) (Inr [(POLLIN, 10)]) []
      (\<lparr>epoll_fd = 3, events_size = 1, ep_channels = [5 \<mapsto> 10], kernel = [5 \<mapsto> (POLLIN, 10)]\<rparr>,
       put_chan 10 ((Channel_ctor 0 5)\<lparr>ch_index := k_added\<rparr>) no_chans) =
    Inr (timestamp_at 7, [10],
         \<lparr>epoll_fd = 3, events_size = 2, ep_channels = [5 \<mapsto> 10], kernel = [5 \<mapsto> (POLLIN, 10)]\<rparr>, s')"
proof -
  let ?p = "\<lparr>epoll_fd = 3, events_size = 1, ep_channels = [5 \<mapsto> 10], kernel = [5 \<mapsto> (POLLIN, 10)]\<rparr>"
  let ?s = "put_chan 10 ((Channel_ctor 0 5)\<lparr>ch_index := k_added\<rparr>) no_chans"
  have "ep_inv ?p ?s" by (simp add: ep_inv_def Channel_ctor_def)
  from epoll_poll_reports [OF this, of "[(POLLIN, 10)]" "\<lambda>_. 7" "[]"] show ?thesis
    by (auto simp: numeral_2_eq_2 split: if_splits)
qed

end
