(* ===== verification/Poller_Equivalence.thy ===== *)
theory Poller_Equivalence
  imports Poll_Poller Epoll_Poller
begin

text \<open>
  The two implementations of \<^verbatim>\<open>PollerInterface\<close> side by side.  \<^verbatim>\<open>DefaultPoller.hpp\<close> picks one when
  the library is built; the event loop calls either through the same interface.  An abstract
  specification of the registrations (\<open>watch\<close>), the locale \<open>poller_frame\<close> that shows that every
  poller with the contract implements it, its interpretations on \<^verbatim>\<open>Poller\<close> and \<^verbatim>\<open>Epoller\<close>, and the
  theorem that the same calls lead both to the same registrations.
\<close>

section \<open>The calls of an event loop and what they ask for\<close>

text \<open>
  What a channel asks of the poller through its loop: to take over a new event mask
  (\<^verbatim>\<open>Channel::update\<close>), or to forget it (\<^verbatim>\<open>EventLoop::remove_channel\<close>).
\<close>

datatype poller_request = Set_mask addr cint | Forget addr

type_synonym ('p, 'c, 'z) poller_fun =
  "bool \<Rightarrow> addr \<Rightarrow> 'p \<times> ('c, 'z) heap_scheme \<Rightarrow> ('p \<times> ('c, 'z) heap_scheme) res"

fun request :: "('p, 'c, 'z) poller_fun \<Rightarrow> ('p, 'c, 'z) poller_fun \<Rightarrow> bool \<Rightarrow> poller_request \<Rightarrow>
    'p \<times> ('c, 'z) heap_scheme \<Rightarrow> ('p \<times> ('c, 'z) heap_scheme) res" where
  "request upd rem il (Set_mask a e) (p, h) =
     andthen (modify_chan a (\<lambda>ch. ch\<lparr>ch_events := e\<rparr>) h) (\<lambda>h'. upd il a (p, h'))"
| "request upd rem il (Forget a) (p, h) = rem il a (p, h)"

text \<open>
  The specification: which channel is registered for which descriptor, the channels but for
  the poller's own mark in them, and the channels that were never registered.
\<close>

record 'c watch =
  w_reg :: "int \<rightharpoonup> addr"
  w_chan :: "addr \<rightharpoonup> 'c channel"
  w_fresh :: "addr set"

fun watch_request :: "poller_request \<Rightarrow> 'c watch \<Rightarrow> 'c watch option" where
  "watch_request (Set_mask a e) w =
     (case w_chan w a of None \<Rightarrow> None
      | Some ch \<Rightarrow>
          (let w' = w\<lparr>w_chan := (w_chan w)(a \<mapsto> ch\<lparr>ch_events := e\<rparr>)\<rparr> in
           if w_reg w (ch_fd ch) = Some a then Some w'
           else if w_reg w (ch_fd ch) = None \<and> a \<in> w_fresh w \<and> 0 \<le> ch_fd ch \<and> e \<noteq> k_none_event then
             Some (w'\<lparr>w_reg := (w_reg w)(ch_fd ch \<mapsto> a), w_fresh := w_fresh w - {a}\<rparr>)
           else None))"
| "watch_request (Forget a) w =
     (case w_chan w a of None \<Rightarrow> None
      | Some ch \<Rightarrow>
          if w_reg w (ch_fd ch) = Some a \<and> is_none_event ch then Some (w\<lparr>w_reg := (w_reg w)(ch_fd ch := None)\<rparr>)
          else None)"

fun watch_requests :: "poller_request list \<Rightarrow> 'c watch \<Rightarrow> 'c watch option" where
  "watch_requests [] w = Some w"
| "watch_requests (r # rs) w = (case watch_request r w of None \<Rightarrow> None | Some w' \<Rightarrow> watch_requests rs w')"

text \<open>A poller before its first call: nothing is registered.\<close>

definition first_watch :: "('c, 'z) heap_scheme \<Rightarrow> 'c watch" where
  "first_watch h = \<lparr>w_reg = Map.empty, w_chan = (\<lambda>a. map_option forget_index (chans h a)),
     w_fresh = {a. \<exists>ch. chans h a = Some ch \<and> ch_index ch = -1}\<rparr>"

text \<open>Two channels no poller has seen, for descriptors 5 and 6.\<close>

definition new_chans :: "unit heap" where
  "new_chans = no_chans\<lparr>chans := [10 \<mapsto> Channel_ctor 0 5, 20 \<mapsto> Channel_ctor 0 6]\<rparr>"

text \<open>What a poller and the store have in common with the specification.\<close>

definition implements ::
  "('p \<Rightarrow> int \<rightharpoonup> addr) \<Rightarrow> ('p \<Rightarrow> ('c, 'z) heap_scheme \<Rightarrow> bool) \<Rightarrow> 'c watch \<Rightarrow> 'p \<Rightarrow> ('c, 'z) heap_scheme \<Rightarrow> bool" where
  "implements reg I w p h \<longleftrightarrow>
     I p h \<and> reg p = w_reg w \<and> (\<forall>a. map_option forget_index (chans h a) = w_chan w a) \<and>
     (\<forall>a \<in> w_fresh w. \<exists>ch. chans h a = Some ch \<and> ch_index ch = -1 \<and> reg p (ch_fd ch) \<noteq> Some a)"

lemma implementsD:
  assumes "implements reg I w p h" and "w_chan w a = Some x"
  obtains ch where "chans h a = Some ch" "x = forget_index ch" "ch_fd x = ch_fd ch" "ch_events x = ch_events ch"
proof -
  have "map_option forget_index (chans h a) = Some x" using assms by (simp add: implements_def)
  then obtain ch where "chans h a = Some ch" "x = forget_index ch" by auto
  with that show thesis by (simp add: forget_index_def)
qed

lemma implements_fresh:
  "implements reg I w p h \<Longrightarrow> a \<in> w_fresh w \<Longrightarrow> \<exists>ch. chans h a = Some ch \<and> ch_index ch = -1 \<and> reg p (ch_fd ch) \<noteq> Some a"
  unfolding implements_def by blast

lemma upto_index_chan:
  "upto_index h' h \<Longrightarrow> map_option forget_index (chans h' a) = map_option forget_index (chans h a)"
  by (simp add: upto_index_def)

lemma upto_index_put_chan:
  assumes "upto_index h' (put_chan a (ch\<lparr>ch_events := e\<rparr>) h)"
  shows "map_option forget_index (chans h' b) =
    (if b = a then Some ((forget_index ch)\<lparr>ch_events := e\<rparr>) else map_option forget_index (chans h b))"
  using upto_index_chan [OF assms, of b] by (simp add: forget_index_def)

lemma upto_index_more: "upto_index h' (put_chan a x h) \<Longrightarrow> heap.more h' = heap.more h"
  by (simp add: upto_index_def)

section \<open>Every poller with the contract implements the specification\<close>

text \<open>Beyond the contract: a poller marks no channel but its argument and the registered ones.\<close>

locale poller_frame = poller_contract upd rem reg inv
  for upd rem :: "('p, 'c, 'z) poller_fun" and reg :: "'p \<Rightarrow> int \<rightharpoonup> addr" and inv :: "'p \<Rightarrow> ('c, 'z) heap_scheme \<Rightarrow> bool" +
  assumes upd_frame: "upd il a (p, h) = Inr (p', h') \<Longrightarrow> b \<noteq> a \<Longrightarrow> chans h' b = chans h b"
    and rem_frame: "inv p h \<Longrightarrow> rem il a (p, h) = Inr (p', h') \<Longrightarrow> b \<noteq> a \<Longrightarrow> chans h b = Some x \<Longrightarrow>
      reg p (ch_fd x) \<noteq> Some b \<Longrightarrow> chans h' b = Some x"
begin

lemma set_mask_implements:
  assumes impl: "implements reg inv w p h" and "watch_request (Set_mask a e) w = Some w'"
  shows "\<exists>p' h'. request upd rem il (Set_mask a e) (p, h) = Inr (p', h') \<and> implements reg inv w' p' h' \<and>
    heap.more h' = heap.more h"
proof -
  from assms(2) obtain x where x: "w_chan w a = Some x" by (auto split: option.splits)
  then obtain ch where ch: "chans h a = Some ch" "x = forget_index ch" "ch_fd x = ch_fd ch"
    using implementsD [OF impl] by metis
  let ?h = "put_chan a (ch\<lparr>ch_events := e\<rparr>) h"
  have req: "request upd rem il (Set_mask a e) (p, h) = upd il a (p, ?h)" using ch(1) by (simp add: heap_simps)
  have inv: "inv p h" and reg: "reg p = w_reg w" using impl by (simp_all add: implements_def)
  consider (known) "w_reg w (ch_fd ch) = Some a" "w' = w\<lparr>w_chan := (w_chan w)(a \<mapsto> x\<lparr>ch_events := e\<rparr>)\<rparr>"
    | (new) "w_reg w (ch_fd ch) = None" "a \<in> w_fresh w" "0 \<le> ch_fd ch" "e \<noteq> k_none_event"
      "w' = w\<lparr>w_chan := (w_chan w)(a \<mapsto> x\<lparr>ch_events := e\<rparr>), w_reg := (w_reg w)(ch_fd ch \<mapsto> a), w_fresh := w_fresh w - {a}\<rparr>"
    using assms(2) x ch(3) by (auto simp: Let_def split: if_splits)
  then show ?thesis
  proof cases
    case known
    with reg have "reg p (ch_fd ch) = Some a" by simp
    from upd_known [OF inv ch(1) this, of il e] obtain p' h' where
      t: "upd il a (p, ?h) = Inr (p', h')" "inv p' h'" "reg p' = reg p" "upto_index h' ?h" by blast
    have "\<exists>y. chans h' b = Some y \<and> ch_index y = -1 \<and> reg p' (ch_fd y) \<noteq> Some b" if "b \<in> w_fresh w" for b
      using implements_fresh [OF impl that] ch(1) known(1) reg t(3) upd_frame [OF t(1), of b] by (cases "b = a") auto
    then have "implements reg inv w' p' h'"
      using t known reg ch(2) impl upto_index_put_chan [OF t(4)] by (simp add: implements_def)
    with t(1) req upto_index_more [OF t(4)] show ?thesis unfolding req by blast
  next
    case new
    then have "ch_index ch = -1" "reg p (ch_fd ch) = None" using implements_fresh [OF impl new(2)] ch(1) reg by auto
    from upd_new [OF inv ch(1) new(3) this new(4), of il] obtain p' h' where
      t: "upd il a (p, ?h) = Inr (p', h')" "inv p' h'" "reg p' = (reg p)(ch_fd ch \<mapsto> a)" "upto_index h' ?h" by blast
    have "\<exists>y. chans h' b = Some y \<and> ch_index y = -1 \<and> reg p' (ch_fd y) \<noteq> Some b" if "b \<in> w_fresh w" "b \<noteq> a" for b
      using implements_fresh [OF impl that(1)] that(2) t(3) upd_frame [OF t(1), of b] by auto
    then have "implements reg inv w' p' h'"
      using t new reg ch(2) impl upto_index_put_chan [OF t(4)] by (simp add: implements_def)
    with t(1) req upto_index_more [OF t(4)] show ?thesis unfolding req by blast
  qed
qed

lemma forget_implements:
  assumes impl: "implements reg inv w p h" and "watch_request (Forget a) w = Some w'"
  shows "\<exists>p' h'. request upd rem il (Forget a) (p, h) = Inr (p', h') \<and> implements reg inv w' p' h' \<and>
    heap.more h' = heap.more h"
proof -
  from assms(2) obtain x where x: "w_chan w a = Some x" by (auto split: option.splits)
  then obtain ch where ch: "chans h a = Some ch" "ch_fd x = ch_fd ch" "ch_events x = ch_events ch"
    using implementsD [OF impl] by metis
  have inv: "inv p h" and reg: "reg p = w_reg w" using impl by (simp_all add: implements_def)
  have w: "w_reg w (ch_fd ch) = Some a" "is_none_event ch" "w' = w\<lparr>w_reg := (w_reg w)(ch_fd ch := None)\<rparr>"
    using assms(2) x ch by (auto simp: is_none_event_def split: if_splits)
  with reg have "reg p (ch_fd ch) = Some a" by simp
  from rem [OF inv ch(1) this w(2), of il] obtain p' h' where
    t: "rem il a (p, h) = Inr (p', h')" "inv p' h'" "reg p' = (reg p)(ch_fd ch := None)" "upto_index h' h" by blast
  have "\<exists>y. chans h' b = Some y \<and> ch_index y = -1 \<and> reg p' (ch_fd y) \<noteq> Some b" if b: "b \<in> w_fresh w" for b
  proof -
    from implements_fresh [OF impl b] obtain y where
      y: "chans h b = Some y" "ch_index y = -1" "reg p (ch_fd y) \<noteq> Some b" by blast
    then have "b \<noteq> a" using ch(1) w(1) reg by auto
    from rem_frame [OF inv t(1) this y(1,3)] y t(3) show ?thesis by simp
  qed
  then have "implements reg inv w' p' h'"
    using t w reg impl upto_index_chan [OF t(4)] by (simp add: implements_def)
  with t show ?thesis by (simp add: upto_index_def)
qed

lemma requests_implement:
  assumes "implements reg inv w p h" and "watch_requests rs w = Some w'"
  shows "\<exists>p' h'. fold_res (request upd rem il) rs (p, h) = Inr (p', h') \<and> implements reg inv w' p' h' \<and>
    heap.more h' = heap.more h"
  using assms
proof (induction rs arbitrary: w p h)
  case Nil
  then show ?case by simp
next
  case (Cons r rs)
  then obtain w1 where w1: "watch_request r w = Some w1" "watch_requests rs w1 = Some w'"
    by (auto split: option.splits)
  obtain p1 h1 where 1: "request upd rem il r (p, h) = Inr (p1, h1)" "implements reg inv w1 p1 h1" "heap.more h1 = heap.more h"
    using set_mask_implements [OF Cons.prems(1)] forget_implements [OF Cons.prems(1)] w1(1) by (cases r) blast+
  with Cons.IH [OF 1(2) w1(2)] show ?case by simp
qed

lemma first_implements:
  assumes "inv p h" and "reg p = Map.empty"
  shows "implements reg inv (first_watch h) p h"
  using assms by (simp add: implements_def first_watch_def)

end

lemma poll_update_frame:
  "poll_update_channel il a (p, h) = Inr (p', h') \<Longrightarrow> b \<noteq> a \<Longrightarrow> chans h' b = chans h b"
  by (auto simp: poll_update_channel_def deref_def Let_def cpp_assert_def split: option.splits if_splits)

lemma poll_remove_frame:
  assumes "poll_inv p h" and "poll_remove_channel il a (p, h) = Inr (p', h')" and "chans h b = Some x"
    and "poll_channels p (ch_fd x) \<noteq> Some b"
  shows "chans h' b = Some x"
  using assms(2-4) poll_invD [OF assms(1)]
  by (fastforce simp: poll_remove_channel_def deref_def modify_chan_def Let_def cpp_assert_def split: option.splits if_splits)

interpretation pollf: poller_frame poll_update_channel poll_remove_channel poll_channels poll_inv
  by unfold_locales (auto dest: poll_update_frame poll_remove_frame)

lemma epoll_update_frame: "epoll_update ctl opn a (p, h) = Inr (p', h') \<Longrightarrow> chans h' = chans h"
  by (auto simp: epoll_update_def deref_def split: option.splits prod.splits)

lemma epoll_update_channel_frame:
  "epoll_update_channel ctl il a (p, h) = Inr (p', h') \<Longrightarrow> b \<noteq> a \<Longrightarrow> chans h' b = chans h b"
  by (fastforce simp: epoll_update_channel_def deref_def modify_chan_def Let_def cpp_assert_def
      dest: epoll_update_frame split: option.splits if_splits sum.splits)

lemma epoll_remove_channel_frame:
  "epoll_remove_channel ctl il a (p, h) = Inr (p', h') \<Longrightarrow> b \<noteq> a \<Longrightarrow> chans h' b = chans h b"
  by (fastforce simp: epoll_remove_channel_def deref_def modify_chan_def Let_def cpp_assert_def
      dest: epoll_update_frame split: option.splits if_splits sum.splits)

interpretation epollf: poller_frame "epoll_update_channel ctl" "epoll_remove_channel ctl" ep_channels ep_inv
  for ctl
  by unfold_locales (auto dest: epoll_update_channel_frame epoll_remove_channel_frame)

text \<open>
  C13.  The two pollers are interchangeable: requests the specification allows, made in the
  same order of a new \<^verbatim>\<open>Poller\<close> and of a new \<^verbatim>\<open>Epoller\<close>, are carried out by both without a failed assertion
  and leave the same channel registered for every descriptor, the one of the specification,
  with each poller's own tables consistent and the channels different at most in the index.
\<close>

theorem pollers_equivalent:
  assumes "watch_requests rs (first_watch h) = Some w"
  shows "\<exists>p t q u.
    fold_res (request poll_update_channel poll_remove_channel il) rs (Poller_ctor, h) = Inr (p, t) \<and>
    fold_res (request (epoll_update_channel ctl) (epoll_remove_channel ctl) il) rs (fst (Epoller_ctor fd h), h) = Inr (q, u) \<and>
    poll_channels p = w_reg w \<and> ep_channels q = w_reg w \<and> poll_inv p t \<and> ep_inv q u \<and> upto_index t u"
proof -
  have "poll_inv Poller_ctor h" "poll_channels Poller_ctor = Map.empty"
    by (rule poll_inv_init) (simp add: Poller_ctor_def)
  from pollf.requests_implement [OF pollf.first_implements [OF this] assms, of il] obtain p t where
    p: "fold_res (request poll_update_channel poll_remove_channel il) rs (Poller_ctor, h) = Inr (p, t)"
      "implements poll_channels poll_inv w p t" "heap.more t = heap.more h" by blast
  have "ep_inv (fst (Epoller_ctor fd h)) h" "ep_channels (fst (Epoller_ctor fd h)) = Map.empty"
    by (simp_all add: Epoller_ctor_def ep_inv_def)
  from epollf.requests_implement [OF epollf.first_implements [OF this] assms, of ctl il] obtain q u where
    q: "fold_res (request (epoll_update_channel ctl) (epoll_remove_channel ctl) il) rs (fst (Epoller_ctor fd h), h) = Inr (q, u)"
      "implements ep_channels ep_inv w q u" "heap.more u = heap.more h" by blast
  from p q show ?thesis by (auto simp: implements_def upto_index_def)
qed

text \<open>Two channels are enabled, the first is switched off and forgotten.\<close>

theorem pollers_equivalent_witness:
  "\<exists>p t q u. let rs = [Set_mask 10 POLLIN, Set_mask 20 POLLIN, Set_mask 10 0, Forget 10] in
    fold_res (request poll_update_channel poll_remove_channel True) rs (Poller_ctor, new_chans) = Inr (p, t) \<and>
    fold_res (request (epoll_update_channel sample_ctl) (epoll_remove_channel sample_ctl) True) rs (fst (Epoller_ctor 3 new_chans), new_chans) = Inr (q, u) \<and>
    poll_channels p = [6 \<mapsto> 20] \<and> ep_channels q = [6 \<mapsto> 20]"
proof -
  let ?rs = "[Set_mask 10 POLLIN, Set_mask 20 POLLIN, Set_mask 10 0, Forget 10]"
  have "\<exists>w. watch_requests ?rs (first_watch new_chans) = Some w \<and> w_reg w = [6 \<mapsto> 20]"
    by (simp add: first_watch_def new_chans_def forget_index_def Channel_ctor_def is_none_event_def k_none_event_def POLLIN_def Let_def)
  then obtain w where w: "watch_requests ?rs (first_watch new_chans) = Some w" "w_reg w = [6 \<mapsto> 20]" by blast
  show ?thesis using pollers_equivalent [OF w(1), of True sample_ctl 3] unfolding Let_def w(2) by blast
qed

end
