(* ===== verification/Buffer.thy ===== *)
theory Buffer
  imports Prelude
begin

text \<open>
  The byte buffer of \<^verbatim>\<open>buffer/Buffer.hpp\<close> and \<^verbatim>\<open>buffer/Buffer.cpp\<close>: one vector of bytes with
  a reader and a writer index.  A field keeps its name without the trailing underscore
  (\<open>buffer_bytes\<close> is \<^verbatim>\<open>buffer_\<close>).  The model keeps the indices as 64-bit words
  (\<^verbatim>\<open>size_t\<close>), so every subtraction and addition wraps as in the code, and makes each
  \<^verbatim>\<open>assert\<close>, \<^verbatim>\<open>std::copy\<close> and \<^verbatim>\<open>resize\<close> a step that can fail.  A pointer into the buffer
  (\<^verbatim>\<open>peek()\<close>, \<^verbatim>\<open>begin_write()\<close>) is its offset from \<^verbatim>\<open>begin()\<close>.

  The specification is a queue of bytes: \<open>content\<close> is the readable range, and each
  operation is shown to be the queue operation on it.  The locale \<open>byte_queue\<close> is the
  interface the connection code relies on; it is interpreted on the buffer at the end.
\<close>

section \<open>State and operations\<close>

record buffer =
  buffer_bytes :: "char list"
  reader_index :: size_t
  writer_index :: size_t

definition k_cheap_prepend :: size_t where
  "k_cheap_prepend = 8"

definition k_initial_size :: size_t where
  "k_initial_size = 1024"

text \<open>The value-initialised \<^verbatim>\<open>char\<close>.\<close>

definition NUL :: char where
  "NUL = CHR 0x00"

text \<open>\<^verbatim>\<open>buffer_.size()\<close>.\<close>

definition buffer_size :: "buffer \<Rightarrow> size_t" where
  "buffer_size b = word_of_nat (length (buffer_bytes b))"

definition readable_bytes :: "buffer \<Rightarrow> size_t" where
  "readable_bytes b = writer_index b - reader_index b"

definition writable_bytes :: "buffer \<Rightarrow> size_t" where
  "writable_bytes b = buffer_size b - writer_index b"

definition prependable_bytes :: "buffer \<Rightarrow> size_t" where
  "prependable_bytes b = reader_index b"

definition peek :: "buffer \<Rightarrow> nat" where
  "peek b = unat (reader_index b)"

definition begin_write :: "buffer \<Rightarrow> nat" where
  "begin_write b = unat (writer_index b)"

definition Buffer_ctor :: "buffer res" where
  "Buffer_ctor =
     (let b = \<lparr>buffer_bytes = replicate (unat (k_cheap_prepend + k_initial_size)) NUL,
               reader_index = k_cheap_prepend, writer_index = k_cheap_prepend\<rparr>
      in cpp_assert (readable_bytes b = 0)
         (cpp_assert (writable_bytes b = k_initial_size)
         (cpp_assert (prependable_bytes b = k_cheap_prepend) (Inr b))))"

definition buffer_swap :: "buffer \<times> buffer \<Rightarrow> buffer \<times> buffer" where
  "buffer_swap p =
     (case p of (a, rhs) \<Rightarrow>
        (a\<lparr>buffer_bytes := buffer_bytes rhs, writer_index := writer_index rhs, reader_index := reader_index rhs\<rparr>,
         rhs\<lparr>buffer_bytes := buffer_bytes a, writer_index := writer_index a, reader_index := reader_index a\<rparr>))"

definition retrieve :: "size_t \<Rightarrow> buffer \<Rightarrow> buffer res" where
  "retrieve len b =
     cpp_assert (len \<le> readable_bytes b) (Inr (b\<lparr>reader_index := reader_index b + len\<rparr>))"

definition retrieve_until :: "nat \<Rightarrow> buffer \<Rightarrow> buffer res" where
  "retrieve_until endp b =
     cpp_assert (peek b \<le> endp)
       (cpp_assert (endp \<le> begin_write b) (retrieve (word_of_nat (endp - peek b)) b))"

definition retrieve_all :: "buffer \<Rightarrow> buffer" where
  "retrieve_all b = b\<lparr>reader_index := k_cheap_prepend, writer_index := k_cheap_prepend\<rparr>"

definition retrieve_as_string :: "buffer \<Rightarrow> (string \<times> buffer) res" where
  "retrieve_as_string b =
     andthen (subrange (buffer_bytes b) (peek b) (peek b + unat (readable_bytes b)))
       (\<lambda>str. Inr (str, retrieve_all b))"

definition make_space :: "size_t \<Rightarrow> buffer \<Rightarrow> buffer res" where
  "make_space len b =
     (if writable_bytes b + prependable_bytes b < len + k_cheap_prepend then
        andthen (resize NUL (unat (len + writer_index b)) (buffer_bytes b))
          (\<lambda>v. Inr (b\<lparr>buffer_bytes := v\<rparr>))
      else
        cpp_assert (k_cheap_prepend < reader_index b)
          (let readable = readable_bytes b in
           andthen (subrange (buffer_bytes b) (unat (reader_index b)) (unat (writer_index b)))
             (\<lambda>bytes. andthen (copy_to (buffer_bytes b) (unat k_cheap_prepend) bytes)
             (\<lambda>v. let b' = b\<lparr>buffer_bytes := v, reader_index := k_cheap_prepend,
                            writer_index := k_cheap_prepend + readable\<rparr>
                  in cpp_assert (readable = readable_bytes b') (Inr b')))))"

definition ensure_writeable_bytes :: "size_t \<Rightarrow> buffer \<Rightarrow> buffer res" where
  "ensure_writeable_bytes len b =
     andthen (if writable_bytes b < len then make_space len b else Inr b)
       (\<lambda>b'. cpp_assert (len \<le> writable_bytes b') (Inr b'))"

definition has_written :: "size_t \<Rightarrow> buffer \<Rightarrow> buffer" where
  "has_written len b = b\<lparr>writer_index := writer_index b + len\<rparr>"

text \<open>\<^verbatim>\<open>append(const void* data, size_t len)\<close>: reads \<open>len\<close> bytes of the memory \<open>data\<close>.\<close>

definition append_data :: "char list \<Rightarrow> size_t \<Rightarrow> buffer \<Rightarrow> buffer res" where
  "append_data data len b =
     andthen (ensure_writeable_bytes len b) (\<lambda>b1.
     andthen (subrange data 0 (unat len)) (\<lambda>bytes.
     andthen (copy_to (buffer_bytes b1) (begin_write b1) bytes) (\<lambda>v.
     Inr (has_written len (b1\<lparr>buffer_bytes := v\<rparr>)))))"

text \<open>\<^verbatim>\<open>append(std::string_view str)\<close>.\<close>

definition append_str :: "string \<Rightarrow> buffer \<Rightarrow> buffer res" where
  "append_str str b =
     andthen (ensure_writeable_bytes (word_of_nat (length str)) b) (\<lambda>b1.
     andthen (copy_to (buffer_bytes b1) (begin_write b1) str) (\<lambda>v.
     Inr (has_written (word_of_nat (length str)) (b1\<lparr>buffer_bytes := v\<rparr>))))"

definition prepend :: "char list \<Rightarrow> size_t \<Rightarrow> buffer \<Rightarrow> buffer res" where
  "prepend data len b =
     cpp_assert (len \<le> prependable_bytes b)
       (let b1 = b\<lparr>reader_index := reader_index b - len\<rparr> in
        andthen (subrange data 0 (unat len)) (\<lambda>bytes.
        andthen (copy_to (buffer_bytes b1) (begin_write b1 + unat (reader_index b1)) bytes) (\<lambda>v.
        Inr (b1\<lparr>buffer_bytes := v\<rparr>))))"

definition shrink :: "size_t \<Rightarrow> buffer \<Rightarrow> buffer res" where
  "shrink reserve b =
     andthen (resize NUL (unat (k_cheap_prepend + readable_bytes b + reserve)) []) (\<lambda>buf.
     andthen (subrange (buffer_bytes b) (peek b) (peek b + unat (readable_bytes b))) (\<lambda>bytes.
     andthen (copy_to buf (unat k_cheap_prepend) bytes) (\<lambda>buf'.
     Inr (b\<lparr>buffer_bytes := buf'\<rparr>))))"

text \<open>\<^verbatim>\<open>operator==\<close> compares the vectors only.\<close>

definition buffer_eq :: "buffer \<Rightarrow> buffer \<Rightarrow> bool" where
  "buffer_eq a b \<longleftrightarrow> buffer_bytes a = buffer_bytes b"

text \<open>
  \<^verbatim>\<open>read_fd\<close>.  What \<^verbatim>\<open>readv(2)\<close> does is an input: it delivers bytes (into the writable
  range first, then into the 65536 byte stack buffer) or fails with an error number.
  The result carries the return value of \<^verbatim>\<open>read_fd\<close>, the error number stored through
  \<^verbatim>\<open>savedErrno\<close> (\<open>None\<close>: not written) and the buffer.
\<close>

datatype readv_result = Readv_bytes "char list" | Readv_error int

definition extra_buff_size :: nat where
  "extra_buff_size = 65536"

fun read_fd :: "readv_result \<Rightarrow> buffer \<Rightarrow> (int \<times> int option \<times> buffer) res" where
  "read_fd (Readv_error e) b = Inr (-1, Some e, b)"
| "read_fd (Readv_bytes bytes) b =
     (let writable = writable_bytes b; n = length bytes;
          vec0 = take (unat writable) bytes;
          extra = drop (unat writable) bytes
      in andthen (copy_to (buffer_bytes b) (begin_write b) vec0) (\<lambda>v.
         if n \<le> unat writable then
           Inr (int n, None, b\<lparr>buffer_bytes := v, writer_index := writer_index b + word_of_nat n\<rparr>)
         else
           andthen (append_data (extra @ replicate (extra_buff_size - length extra) NUL)
                      (word_of_nat n - writable)
                      (b\<lparr>buffer_bytes := v, writer_index := buffer_size b\<rparr>))
             (\<lambda>b'. Inr (int n, None, b'))))"

section \<open>Invariant and abstraction\<close>

text \<open>The picture of the class comment: \<open>0 \<le> readerIndex \<le> writerIndex \<le> size\<close>.\<close>

definition buf_inv :: "buffer \<Rightarrow> bool" where
  "buf_inv b \<longleftrightarrow>
     unat (reader_index b) \<le> unat (writer_index b) \<and>
     unat (writer_index b) \<le> length (buffer_bytes b) \<and>
     8 \<le> length (buffer_bytes b) \<and> length (buffer_bytes b) \<le> max_size"

definition content :: "buffer \<Rightarrow> char list" where
  "content b = take (unat (writer_index b) - unat (reader_index b))
                 (drop (unat (reader_index b)) (buffer_bytes b))"

text \<open>Appending \<open>n\<close> bytes stays within the largest vector.\<close>

definition room :: "buffer \<Rightarrow> nat \<Rightarrow> bool" where
  "room b n \<longleftrightarrow> unat (writer_index b) + n \<le> max_size"

definition empty_buffer :: buffer where
  "empty_buffer = \<lparr>buffer_bytes = replicate 1032 NUL, reader_index = 8, writer_index = 8\<rparr>"


named_theorems buffer_defs \<open>definitions of the observers of a buffer\<close>

lemmas buffer_observers [buffer_defs] =
  readable_bytes_def writable_bytes_def prependable_bytes_def buffer_size_def
  peek_def begin_write_def k_cheap_prepend_def

lemma max_size_less: "n \<le> max_size \<Longrightarrow> n < 2 ^ 63" "n \<le> max_size \<Longrightarrow> n < 2 ^ 64"
  by (simp_all add: max_size_def)

text \<open>Under the invariant no observer wraps.\<close>

lemma unat_readable_bytes:
  "buf_inv b \<Longrightarrow> unat (readable_bytes b) = unat (writer_index b) - unat (reader_index b)"
  by (simp add: buf_inv_def readable_bytes_def unat_diff_no_wrap)

lemma unat_buffer_size: "buf_inv b \<Longrightarrow> unat (buffer_size b) = length (buffer_bytes b)"
  unfolding buf_inv_def buffer_size_def by (intro unat_of_nat_no_wrap max_size_less) simp

lemma unat_writable_bytes:
  "buf_inv b \<Longrightarrow> unat (writable_bytes b) = length (buffer_bytes b) - unat (writer_index b)"
  using unat_buffer_size [of b]
  by (simp add: writable_bytes_def unat_diff_no_wrap buf_inv_def)

lemma length_content: "buf_inv b \<Longrightarrow> length (content b) = unat (readable_bytes b)"
  by (simp add: unat_readable_bytes content_def) (auto simp: buf_inv_def)

lemmas buffer_unat = unat_readable_bytes unat_buffer_size unat_writable_bytes

lemma Buffer_ctor_eq: "Buffer_ctor = Inr empty_buffer"
  by (simp add: Buffer_ctor_def empty_buffer_def buffer_defs k_initial_size_def Let_def)

lemma empty_buffer_inv: "buf_inv empty_buffer" and empty_buffer_content: "content empty_buffer = []"
  by (simp_all add: empty_buffer_def buf_inv_def content_def max_size_def)

lemma empty_buffer_simps [simp]:
  "reader_index empty_buffer = 8" "writer_index empty_buffer = 8"
  "buffer_bytes empty_buffer = replicate 1032 NUL" "readable_bytes empty_buffer = 0"
  by (simp_all add: empty_buffer_def readable_bytes_def)

section \<open>Making space\<close>

text \<open>Growing the vector keeps every byte, so the readable range is untouched.\<close>

lemma make_space_grow:
  assumes inv: "buf_inv b" and room: "room b (unat len)" and need: "writable_bytes b < len"
    and grow: "writable_bytes b + prependable_bytes b < len + k_cheap_prepend"
  shows "\<exists>b'. make_space len b = Inr b' \<and> buf_inv b' \<and> content b' = content b \<and>
              length (buffer_bytes b') = unat (writer_index b) + unat len \<and>
              writer_index b' = writer_index b \<and> reader_index b' = reader_index b"
proof -
  let ?n = "unat (writer_index b) + unat len"
  have n: "unat (len + writer_index b) = ?n"
    using room by (subst unat_add_no_wrap) (simp_all add: room_def max_size_def)
  have le: "length (buffer_bytes b) \<le> ?n"
    using need inv by (simp add: word_less_nat_alt unat_writable_bytes)
  have "make_space len b =
        Inr (b\<lparr>buffer_bytes := buffer_bytes b @ replicate (?n - length (buffer_bytes b)) NUL\<rparr>)"
    using grow le room by (simp add: make_space_def n resize_grow room_def)
  with inv room le show ?thesis
    by (auto simp: buf_inv_def content_def room_def)
qed

text \<open>
  Moving the readable bytes to the front: the assertion \<^verbatim>\<open>k_cheap_prepend < reader_index_\<close>
  never fails, since a buffer with too little writable space and enough space in all has
  more than the cheap prepend in front.
\<close>

lemma make_space_move:
  assumes inv: "buf_inv b" and len: "unat len \<le> max_size" and need: "writable_bytes b < len"
    and move: "\<not> writable_bytes b + prependable_bytes b < len + k_cheap_prepend"
  shows "\<exists>b'. make_space len b = Inr b' \<and> buf_inv b' \<and> content b' = content b \<and>
              length (buffer_bytes b') = length (buffer_bytes b) \<and>
              writer_index b' = k_cheap_prepend + readable_bytes b \<and> reader_index b' = k_cheap_prepend \<and>
              unat len \<le> unat (writable_bytes b') \<and> unat (writer_index b') \<le> unat (writer_index b)"
proof -
  let ?r = "unat (reader_index b)" and ?w = "unat (writer_index b)" and ?xs = "buffer_bytes b"
  have bounds: "?r \<le> ?w" "?w \<le> length ?xs" "length ?xs < 2 ^ 63" "unat len < 2 ^ 63"
    using inv len by (auto simp: buf_inv_def max_size_def)
  have l8: "unat (len + k_cheap_prepend) = unat len + 8"
    using bounds by (subst unat_add_no_wrap) (simp_all add: k_cheap_prepend_def)
  have wp: "unat (writable_bytes b + prependable_bytes b) = length ?xs - ?w + ?r"
    using bounds by (subst unat_add_no_wrap)
      (simp_all add: unat_writable_bytes [OF inv] prependable_bytes_def)
  have enough: "unat len + 8 \<le> length ?xs - ?w + ?r"
    using move by (simp add: word_less_nat_alt l8 wp)
  have short: "length ?xs - ?w < unat len"
    using need by (simp add: word_less_nat_alt unat_writable_bytes [OF inv])
  have r8: "8 < ?r" using enough short by simp
  let ?ys = "take (?w - ?r) (drop ?r ?xs)"
  have ys: "length ?ys = ?w - ?r" using bounds by simp
  let ?v = "take 8 ?xs @ ?ys @ drop (8 + (?w - ?r)) ?xs"
  have k8: "unat (k_cheap_prepend + readable_bytes b) = 8 + (?w - ?r)"
    using bounds by (subst unat_add_no_wrap)
      (simp_all add: unat_readable_bytes [OF inv] k_cheap_prepend_def)
  let ?b = "b\<lparr>buffer_bytes := ?v, reader_index := k_cheap_prepend,
              writer_index := k_cheap_prepend + readable_bytes b\<rparr>"
  have v: "length ?v = length ?xs" using bounds r8 by simp
  have inv': "buf_inv ?b"
    using inv bounds r8 k8 v by (simp add: buf_inv_def k_cheap_prepend_def) arith
  have eq: "make_space len b = Inr ?b"
    using move r8 bounds ys
    by (simp add: make_space_def subrange_def copy_to_def k_cheap_prepend_def readable_bytes_def
        word_less_nat_alt Let_def)
  have "content ?b = ?ys"
    using bounds r8 k8 ys by (simp add: content_def k_cheap_prepend_def)
  then have "content ?b = content b" by (simp add: content_def)
  moreover have "unat len \<le> unat (writable_bytes ?b)"
    unfolding unat_writable_bytes [OF inv'] using enough bounds k8 v by simp
  moreover have "unat (writer_index ?b) \<le> ?w" using k8 r8 bounds by simp
  ultimately show ?thesis using eq inv' v by auto
qed


lemma make_space_ok:
  assumes inv: "buf_inv b" and room: "room b (unat len)" and need: "writable_bytes b < len"
  shows "\<exists>b'. make_space len b = Inr b' \<and> buf_inv b' \<and> content b' = content b \<and>
              unat len \<le> unat (writable_bytes b') \<and> unat (writer_index b') \<le> unat (writer_index b) \<and>
              length (buffer_bytes b') \<le> length (buffer_bytes b) + unat len"
proof (cases "writable_bytes b + prependable_bytes b < len + k_cheap_prepend")
  case True
  from make_space_grow [OF assms True] inv show ?thesis by (auto simp: unat_writable_bytes buf_inv_def)
next
  case False
  from make_space_move [OF inv _ need False] room show ?thesis by (auto simp: room_def)
qed

lemma ensure_writeable_bytes_ok:
  assumes "buf_inv b" and "room b (unat len)"
  shows "\<exists>b'. ensure_writeable_bytes len b = Inr b' \<and> buf_inv b' \<and> content b' = content b \<and>
              unat len \<le> unat (writable_bytes b') \<and> unat (writer_index b') \<le> unat (writer_index b) \<and>
              length (buffer_bytes b') \<le> length (buffer_bytes b) + unat len"
  using make_space_ok [OF assms] assms(1)
  by (cases "writable_bytes b < len")
     (auto simp: ensure_writeable_bytes_def word_le_nat_alt word_less_nat_alt)

section \<open>Appending and retrieving\<close>

text \<open>Writing bytes behind the readable range and advancing the writer index.\<close>

definition written :: "char list \<Rightarrow> buffer \<Rightarrow> buffer" where
  "written ys b =
     b\<lparr>buffer_bytes := take (unat (writer_index b)) (buffer_bytes b) @ ys @
                       drop (unat (writer_index b) + length ys) (buffer_bytes b),
       writer_index := writer_index b + word_of_nat (length ys)\<rparr>"

lemma write_behind:
  assumes inv: "buf_inv b" and fits: "length ys \<le> unat (writable_bytes b)"
  shows "copy_to (buffer_bytes b) (begin_write b) ys = Inr (buffer_bytes (written ys b))"
    and "buf_inv (written ys b)"
    and "content (written ys b) = content b @ ys"
    and "unat (writer_index (written ys b)) = unat (writer_index b) + length ys"
    and "length (buffer_bytes (written ys b)) = length (buffer_bytes b)"
proof -
  let ?w = "unat (writer_index b)"
  have bounds: "unat (reader_index b) \<le> ?w" "?w + length ys \<le> length (buffer_bytes b)"
    "length (buffer_bytes b) < 2 ^ 63"
    using inv fits by (auto simp: unat_writable_bytes buf_inv_def dest: max_size_less)
  have w': "unat (writer_index b + word_of_nat (length ys)) = ?w + length ys"
    using bounds by (subst unat_add_no_wrap) (simp_all add: unat_of_nat_no_wrap)
  show "length (buffer_bytes (written ys b)) = length (buffer_bytes b)" using bounds by (simp add: written_def)
  show "copy_to (buffer_bytes b) (begin_write b) ys = Inr (buffer_bytes (written ys b))"
    using bounds by (simp add: copy_to_def begin_write_def written_def)
  show "buf_inv (written ys b)"
    using inv bounds w' by (simp add: buf_inv_def written_def)
  show "content (written ys b) = content b @ ys"
    using range_extend [of "unat (reader_index b)" ?w ys "buffer_bytes b"] bounds w'
    by (simp add: content_def written_def)
  show "unat (writer_index (written ys b)) = ?w + length ys"
    using w' by (simp add: written_def)
qed

lemma has_written_eq:
  "has_written (word_of_nat (length ys)) (b\<lparr>buffer_bytes := buffer_bytes (written ys b)\<rparr>) = written ys b"
  by (simp add: has_written_def written_def)

lemma append_data_ok:
  assumes "buf_inv b" and "room b (unat len)" and "unat len \<le> length data"
  shows "\<exists>b'. append_data data len b = Inr b' \<and> buf_inv b' \<and>
              content b' = content b @ take (unat len) data \<and>
              unat (writer_index b') \<le> unat (writer_index b) + unat len \<and>
              length (buffer_bytes b') \<le> length (buffer_bytes b) + unat len"
proof -
  from ensure_writeable_bytes_ok [OF assms(1,2)] obtain b1
    where b1: "ensure_writeable_bytes len b = Inr b1" "buf_inv b1" "content b1 = content b"
      "unat len \<le> unat (writable_bytes b1)" "unat (writer_index b1) \<le> unat (writer_index b)"
      "length (buffer_bytes b1) \<le> length (buffer_bytes b) + unat len" by blast
  have "length (take (unat len) data) = unat len" using assms(3) by simp
  with write_behind [OF b1(2), of "take (unat len) data"] b1 assms(3) show ?thesis
    using has_written_eq [of "take (unat len) data" b1]
    by (simp add: append_data_def subrange_def)
qed

lemma append_str_ok:
  assumes "buf_inv b" and "room b (length str)"
  shows "\<exists>b'. append_str str b = Inr b' \<and> buf_inv b' \<and> content b' = content b @ str \<and>
              unat (writer_index b') \<le> unat (writer_index b) + length str"
proof -
  have len: "unat (word_of_nat (length str) :: size_t) = length str"
    using assms(2) by (intro unat_of_nat_no_wrap) (simp add: room_def max_size_def)
  with ensure_writeable_bytes_ok [OF assms(1), of "word_of_nat (length str)"] assms(2) obtain b1
    where b1: "ensure_writeable_bytes (word_of_nat (length str)) b = Inr b1" "buf_inv b1"
      "content b1 = content b" "length str \<le> unat (writable_bytes b1)"
      "unat (writer_index b1) \<le> unat (writer_index b)" by auto
  with write_behind [OF b1(2,4)] show ?thesis
    by (simp add: append_str_def has_written_eq)
qed

lemma retrieve_ok:
  assumes inv: "buf_inv b" and len: "unat len \<le> length (content b)"
  shows "\<exists>b'. retrieve len b = Inr b' \<and> buf_inv b' \<and> content b' = drop (unat len) (content b)"
proof -
  have l: "unat len \<le> unat (writer_index b) - unat (reader_index b)"
    using len by (simp add: length_content [OF inv] unat_readable_bytes [OF inv])
  have bounds: "unat (reader_index b) \<le> unat (writer_index b)"
    "unat (writer_index b) \<le> length (buffer_bytes b)" "length (buffer_bytes b) < 2 ^ 63"
    using inv by (auto simp: buf_inv_def dest: max_size_less)
  have r': "unat (reader_index b + len) = unat (reader_index b) + unat len"
    using bounds l by (intro unat_add_no_wrap) simp
  have "len \<le> readable_bytes b"
    using l by (simp add: word_le_nat_alt unat_readable_bytes [OF inv])
  then have "retrieve len b = Inr (b\<lparr>reader_index := reader_index b + len\<rparr>)"
    by (simp add: retrieve_def)
  moreover have "buf_inv (b\<lparr>reader_index := reader_index b + len\<rparr>)"
    using inv l r' bounds by (simp add: buf_inv_def)
  moreover have "content (b\<lparr>reader_index := reader_index b + len\<rparr>) = drop (unat len) (content b)"
    using l r' by (simp add: content_def drop_take add.commute)
  ultimately show ?thesis by blast
qed

lemma retrieve_too_much:
  assumes "buf_inv b" and "length (content b) < unat len"
  shows "retrieve len b = Inl Assert_failed"
  using assms by (simp add: retrieve_def word_le_nat_alt length_content)

lemma retrieve_all_ok: "buf_inv b \<Longrightarrow> buf_inv (retrieve_all b) \<and> content (retrieve_all b) = []"
  by (simp add: retrieve_all_def buf_inv_def content_def k_cheap_prepend_def)

lemma retrieve_as_string_eq:
  assumes "buf_inv b"
  shows "retrieve_as_string b = Inr (content b, retrieve_all b)"
  using assms unat_readable_bytes [OF assms]
  by (simp add: retrieve_as_string_def subrange_def peek_def content_def buf_inv_def)

section \<open>Reading from a descriptor, prepending, shrinking\<close>

text \<open>The writable range filled up: the writer index is the size of the vector.\<close>

lemma written_full:
  assumes "buf_inv b" and "length ys = unat (writable_bytes b)"
  shows "b\<lparr>buffer_bytes := buffer_bytes (written ys b), writer_index := buffer_size b\<rparr> = written ys b"
  using assms(2) by (simp add: written_def writable_bytes_def)

lemma read_fd_fits:
  assumes inv: "buf_inv b" and fits: "length bytes \<le> unat (writable_bytes b)"
  shows "read_fd (Readv_bytes bytes) b = Inr (int (length bytes), None, written bytes b)"
  using write_behind(1) [OF assms] fits by (simp add: Let_def) (simp add: written_def)

lemma read_fd_overflow:
  assumes inv: "buf_inv b" and much: "unat (writable_bytes b) < length bytes"
    and bound: "length bytes \<le> unat (writable_bytes b) + extra_buff_size"
    and room: "length (buffer_bytes b) + length bytes \<le> max_size + unat (writable_bytes b)"
  shows "\<exists>b'. read_fd (Readv_bytes bytes) b = Inr (int (length bytes), None, b') \<and>
              buf_inv b' \<and> content b' = content b @ bytes \<and> length (buffer_bytes b') \<le> length (buffer_bytes b) + length bytes"
proof -
  let ?n = "unat (writable_bytes b)"
  let ?v = "take ?n bytes" and ?x = "drop ?n bytes"
  let ?l = "word_of_nat (length bytes) - writable_bytes b" and ?b = "written ?v b"
  have v: "length ?v = ?n" using much by simp
  have b: "copy_to (buffer_bytes b) (begin_write b) ?v = Inr (buffer_bytes ?b)"
    "buf_inv ?b" "content ?b = content b @ ?v"
    "unat (writer_index ?b) = unat (writer_index b) + ?n" "length (buffer_bytes ?b) = length (buffer_bytes b)"
    using write_behind [OF inv, of ?v] v by simp_all
  have "?n \<le> length (buffer_bytes b)" by (simp add: unat_writable_bytes [OF inv])
  then have n64: "length bytes < 2 ^ 64" using room by (simp add: max_size_def)
  have l: "unat ?l = length bytes - ?n"
    using much unat_of_nat_no_wrap [OF n64] by (subst unat_diff_no_wrap) simp_all
  have "unat (writer_index b) + ?n = length (buffer_bytes b)"
    using inv by (simp add: unat_writable_bytes buf_inv_def)
  then have "room ?b (unat ?l)"
    using room much l b(4) by (simp add: room_def)
  moreover have "unat ?l \<le> extra_buff_size" using bound l by simp
  ultimately
  obtain b' where b': "append_data (?x @ replicate (extra_buff_size - length ?x) NUL) ?l ?b = Inr b'"
    "buf_inv b'" "content b' = content ?b @ ?x" "length (buffer_bytes b') \<le> length (buffer_bytes ?b) + unat ?l"
    using append_data_ok [OF b(2), of ?l "?x @ replicate (extra_buff_size - length ?x) NUL"] l by auto
  then have "length (buffer_bytes b') \<le> length (buffer_bytes b) + length bytes" using b(5) l by simp
  with b b'(1-3) much show ?thesis
    by (simp add: Let_def written_full [OF inv v])
qed

lemma read_fd_grows:
  assumes "buf_inv b" and "length bytes \<le> unat (writable_bytes b) + extra_buff_size"
    and "length (buffer_bytes b) + length bytes \<le> max_size + unat (writable_bytes b)"
  shows "\<exists>b'. read_fd (Readv_bytes bytes) b = Inr (int (length bytes), None, b') \<and>
              buf_inv b' \<and> content b' = content b @ bytes \<and> length (buffer_bytes b') \<le> length (buffer_bytes b) + length bytes"
proof (cases "length bytes \<le> unat (writable_bytes b)")
  case True
  with read_fd_fits [OF assms(1)] write_behind [OF assms(1)] show ?thesis by simp
next
  case False
  with read_fd_overflow [OF assms(1) _ assms(2,3)] show ?thesis by simp
qed

lemma read_fd_ok:
  assumes "buf_inv b" and "length bytes \<le> unat (writable_bytes b) + extra_buff_size"
    and "length (buffer_bytes b) + extra_buff_size \<le> max_size"
  shows "\<exists>b'. read_fd (Readv_bytes bytes) b = Inr (int (length bytes), None, b') \<and>
              buf_inv b' \<and> content b' = content b @ bytes"
  using read_fd_grows [OF assms(1,2)] assms(2,3) by auto

lemma prepend_eq:
  assumes "len \<le> prependable_bytes b" and "unat len \<le> length data"
  shows "prepend data len b =
    andthen (copy_to (buffer_bytes b)
               (unat (writer_index b) + (unat (reader_index b) - unat len)) (take (unat len) data))
      (\<lambda>v. Inr (b\<lparr>reader_index := reader_index b - len, buffer_bytes := v\<rparr>))"
  using assms
  by (simp add: prepend_def subrange_def prependable_bytes_def begin_write_def Let_def
      word_le_nat_alt unat_diff_no_wrap)

lemma prepend_content:
  assumes inv: "buf_inv b" and len: "unat len \<le> unat (reader_index b)" "unat len \<le> length data"
    and space: "unat (writer_index b) + unat (reader_index b) \<le> length (buffer_bytes b)"
  shows "\<exists>b'. prepend data len b = Inr b' \<and> buf_inv b' \<and>
    content b' = take (unat len) (drop (unat (reader_index b) - unat len) (buffer_bytes b)) @ content b"
proof -
  let ?r = "unat (reader_index b)" and ?w = "unat (writer_index b)" and ?l = "unat len"
  let ?xs = "buffer_bytes b" and ?o = "unat (writer_index b) + (unat (reader_index b) - unat len)"
  let ?v = "take ?o ?xs @ take ?l data @ drop (?o + ?l) ?xs"
  let ?b = "b\<lparr>reader_index := reader_index b - len, buffer_bytes := ?v\<rparr>"
  have r': "unat (reader_index b - len) = ?r - ?l" using len(1) by (rule unat_diff_no_wrap)
  have rw: "?r \<le> ?w" using inv by (simp add: buf_inv_def)
  have "prepend data len b = Inr ?b"
    using len space
    by (subst prepend_eq) (simp_all add: prependable_bytes_def word_le_nat_alt copy_to_def)
  moreover have "buf_inv ?b" using inv len space r' rw by (simp add: buf_inv_def)
  moreover have "content ?b = take ?l (drop (?r - ?l) ?xs) @ content b"
  proof -
    have "content ?b = take (?w - (?r - ?l)) (drop (?r - ?l) (take ?o ?xs))"
      using len space r' rw by (simp add: content_def)
    also have "\<dots> = take (?l + (?w - ?r)) (drop (?r - ?l) ?xs)"
    proof -
      have "?o - (?r - ?l) = ?w" and "?w - (?r - ?l) = ?l + (?w - ?r)"
        and "min (?l + (?w - ?r)) ?w = ?l + (?w - ?r)" using len rw by simp_all
      then show ?thesis by (simp only: drop_take take_take)
    qed
    also have "\<dots> = take ?l (drop (?r - ?l) ?xs) @ content b"
      using len by (simp add: take_add content_def)
    finally show ?thesis .
  qed
  ultimately show ?thesis by blast
qed

lemma shrink_content:
  assumes inv: "buf_inv b" and r8: "8 \<le> unat (reader_index b)"
    and total: "8 + unat (readable_bytes b) + unat reserve \<le> max_size"
  shows "\<exists>b'. shrink reserve b = Inr b' \<and>
    reader_index b' = reader_index b \<and> writer_index b' = writer_index b \<and>
    length (buffer_bytes b') = 8 + length (content b) + unat reserve \<and>
    content b' = take (length (content b))
                   (drop (unat (reader_index b) - 8) (content b @ replicate (unat reserve) NUL))"
proof -
  let ?n = "unat (readable_bytes b)" and ?q = "unat reserve"
  have l: "length (content b) = ?n" by (rule length_content [OF inv])
  have k8: "unat k_cheap_prepend = 8" by (simp add: k_cheap_prepend_def)
  have n8: "unat (k_cheap_prepend + readable_bytes b) = 8 + ?n"
    using total by (subst unat_add_no_wrap) (simp_all add: k_cheap_prepend_def max_size_def)
  then have tot: "unat (k_cheap_prepend + readable_bytes b + reserve) = 8 + ?n + ?q"
    using total by (subst unat_add_no_wrap) (simp_all add: max_size_def)
  have bytes: "subrange (buffer_bytes b) (peek b) (peek b + ?n) = Inr (content b)"
    using inv unat_readable_bytes [OF inv]
    by (simp add: subrange_def peek_def content_def buf_inv_def)
  let ?v = "replicate 8 NUL @ content b @ replicate ?q NUL"
  have "shrink reserve b = Inr (b\<lparr>buffer_bytes := ?v\<rparr>)"
    using total l k8 by (simp add: shrink_def tot bytes resize_def copy_to_def)
  moreover have "content (b\<lparr>buffer_bytes := ?v\<rparr>) =
      take (length (content b)) (drop (unat (reader_index b) - 8) (content b @ replicate ?q NUL))"
    using r8 l by (simp add: content_def unat_readable_bytes [OF inv])
  ultimately show ?thesis using l by simp
qed

section \<open>Running out of memory\<close>

text \<open>Without an assumption on sizes: the operations succeed or throw \<^verbatim>\<open>std::length_error\<close>.\<close>

lemma make_space_safe:
  assumes inv: "buf_inv b" and len: "unat len \<le> max_size" and need: "writable_bytes b < len"
  shows "length_safe (\<lambda>b'. buf_inv b' \<and> content b' = content b \<and> unat len \<le> unat (writable_bytes b')) (make_space len b)"
proof (cases "room b (unat len)")
  case True
  from make_space_ok [OF inv True need] show ?thesis by auto
next
  case False
  have w: "unat (writer_index b) \<le> length (buffer_bytes b)" "length (buffer_bytes b) \<le> max_size"
    using inv by (simp_all add: buf_inv_def)
  have "unat (len + writer_index b) = unat len + unat (writer_index b)"
    using len w by (intro unat_add_no_wrap) (simp add: max_size_def)
  then have grow: "resize NUL (unat (len + writer_index b)) (buffer_bytes b) = Inl Length_error"
    using False by (simp add: resize_def room_def)
  show ?thesis
  proof (cases "writable_bytes b + prependable_bytes b < len + k_cheap_prepend")
    case True
    then show ?thesis by (simp add: make_space_def grow)
  next
    case False
    from make_space_move [OF inv len need False] show ?thesis by auto
  qed
qed

lemma ensure_writeable_bytes_safe:
  assumes inv: "buf_inv b" and len: "unat len \<le> max_size"
  shows "length_safe (\<lambda>b'. buf_inv b' \<and> content b' = content b \<and> unat len \<le> unat (writable_bytes b')) (ensure_writeable_bytes len b)"
proof -
  have "length_safe (\<lambda>b'. buf_inv b' \<and> content b' = content b \<and> unat len \<le> unat (writable_bytes b'))
      (if writable_bytes b < len then make_space len b else Inr b)"
    using make_space_safe [OF inv len] inv by (simp add: word_less_nat_alt)
  then show ?thesis unfolding ensure_writeable_bytes_def
    by (rule length_safe_andthen) (simp add: word_le_nat_alt)
qed

lemma append_data_content:
  assumes inv: "buf_inv b" and len: "unat len \<le> max_size" "unat len \<le> length data"
  shows "length_safe (\<lambda>b'. buf_inv b' \<and> content b' = content b @ take (unat len) data) (append_data data len b)"
  unfolding append_data_def
  using ensure_writeable_bytes_safe [OF inv len(1)]
proof (rule length_safe_andthen)
  fix b1 assume b1: "buf_inv b1 \<and> content b1 = content b \<and> unat len \<le> unat (writable_bytes b1)"
  have "length (take (unat len) data) = unat len" using len(2) by simp
  with write_behind [of b1 "take (unat len) data"] b1 len(2) has_written_eq [of "take (unat len) data" b1]
  show "length_safe (\<lambda>b'. buf_inv b' \<and> content b' = content b @ take (unat len) data) (andthen (subrange data 0 (unat len)) (\<lambda>bytes.
      andthen (copy_to (buffer_bytes b1) (begin_write b1) bytes) (\<lambda>v. Inr (has_written len (b1\<lparr>buffer_bytes := v\<rparr>)))))"
    by (simp add: subrange_def)
qed

lemma append_data_safe:
  assumes "buf_inv b" and "unat len \<le> max_size" "unat len \<le> length data"
  shows "length_safe buf_inv (append_data data len b)"
  using append_data_content [OF assms] by (rule length_safe_mono) simp

text \<open>\<^verbatim>\<open>readv(2)\<close> delivers at most what the two parts of the vector hold.\<close>

definition readv_fits :: "readv_result \<Rightarrow> buffer \<Rightarrow> bool" where
  "readv_fits r b \<longleftrightarrow> (\<forall>bytes. r = Readv_bytes bytes \<longrightarrow> length bytes \<le> unat (writable_bytes b) + extra_buff_size)"

text \<open>What a read leaves: the bytes delivered are queued, a failed read changes nothing.\<close>

fun read_into :: "readv_result \<Rightarrow> buffer \<Rightarrow> int \<times> int option \<times> buffer \<Rightarrow> bool" where
  "read_into (Readv_bytes bytes) b (n, e, b') \<longleftrightarrow> buf_inv b' \<and> content b' = content b @ bytes \<and> n = int (length bytes)"
| "read_into (Readv_error err) b (n, e, b') \<longleftrightarrow> b' = b \<and> n = -1"

lemma read_fd_content:
  assumes inv: "buf_inv b" and fits: "readv_fits r b"
  shows "length_safe (read_into r b) (read_fd r b)"
proof (cases r)
  case (Readv_bytes bytes)
  let ?n = "unat (writable_bytes b)"
  show ?thesis
  proof (cases "length bytes \<le> ?n")
    case True
    with read_fd_fits [OF inv] write_behind [OF inv] Readv_bytes show ?thesis by simp
  next
    case False
    let ?v = "take ?n bytes" and ?x = "drop ?n bytes" and ?l = "word_of_nat (length bytes) - writable_bytes b"
    have v: "length ?v = ?n" using False by simp
    note w = write_behind [OF inv, of ?v, unfolded v, OF order.refl]
    have bound: "length bytes \<le> ?n + extra_buff_size" using fits Readv_bytes by (simp add: readv_fits_def)
    have "?n < 2 ^ 63" using inv by (auto simp: unat_writable_bytes [OF inv] buf_inv_def max_size_def)
    then have "length bytes < 2 ^ 64" using bound by (simp add: extra_buff_size_def)
    then have l: "unat ?l = length bytes - ?n"
      using False unat_of_nat_no_wrap [of "length bytes"] by (subst unat_diff_no_wrap) simp_all
    have "length_safe (\<lambda>b'. buf_inv b' \<and> content b' = content b @ bytes)
        (append_data (?x @ replicate (extra_buff_size - length ?x) NUL) ?l (written ?v b))"
      using append_data_content [OF w(2), of ?l "?x @ replicate (extra_buff_size - length ?x) NUL"] w(3) l bound
      by (simp add: extra_buff_size_def max_size_def)
    then show ?thesis using Readv_bytes False w
      by (auto simp: Let_def written_full [OF inv v] intro: length_safe_andthen)
  qed
qed simp

lemma read_fd_safe:
  assumes "buf_inv b" and "readv_fits r b"
  shows "length_safe (\<lambda>(n, e, b'). buf_inv b') (read_fd r b)"
  using read_fd_content [OF assms] by (rule length_safe_mono) (use assms(1) in \<open>cases r; auto\<close>)

section \<open>Programs over buffers\<close>

text \<open>
  The operations of a client on two buffers, the second being the one \<^verbatim>\<open>swap\<close> exchanges with, and what each of them
  asks of its arguments.  \<^verbatim>\<open>prepend\<close> and \<^verbatim>\<open>shrink\<close> are left out: they break the buffer (see below).
\<close>

datatype buffer_op =
    Do_retrieve size_t
  | Do_retrieve_until nat
  | Do_retrieve_all
  | Do_retrieve_as_string
  | Do_append string
  | Do_append_data "char list" size_t
  | Do_ensure_writeable size_t
  | Do_has_written size_t
  | Do_read_fd readv_result
  | Do_swap

fun buffer_exec :: "buffer_op \<Rightarrow> buffer \<times> buffer \<Rightarrow> (buffer \<times> buffer) res" where
  "buffer_exec (Do_retrieve len) (a, b) = map_sum id (\<lambda>a'. (a', b)) (retrieve len a)"
| "buffer_exec (Do_retrieve_until e) (a, b) = map_sum id (\<lambda>a'. (a', b)) (retrieve_until e a)"
| "buffer_exec Do_retrieve_all (a, b) = Inr (retrieve_all a, b)"
| "buffer_exec Do_retrieve_as_string (a, b) = map_sum id (\<lambda>(str, a'). (a', b)) (retrieve_as_string a)"
| "buffer_exec (Do_append str) (a, b) = map_sum id (\<lambda>a'. (a', b)) (append_str str a)"
| "buffer_exec (Do_append_data data len) (a, b) = map_sum id (\<lambda>a'. (a', b)) (append_data data len a)"
| "buffer_exec (Do_ensure_writeable len) (a, b) = map_sum id (\<lambda>a'. (a', b)) (ensure_writeable_bytes len a)"
| "buffer_exec (Do_has_written len) (a, b) = Inr (has_written len a, b)"
| "buffer_exec (Do_read_fd r) (a, b) = map_sum id (\<lambda>(n, e, a'). (a', b)) (read_fd r a)"
| "buffer_exec Do_swap (a, b) = Inr (buffer_swap (a, b))"

fun well_called :: "buffer_op \<Rightarrow> buffer \<Rightarrow> bool" where
  "well_called (Do_retrieve len) b \<longleftrightarrow> len \<le> readable_bytes b"
| "well_called (Do_retrieve_until e) b \<longleftrightarrow> peek b \<le> e \<and> e \<le> begin_write b"
| "well_called (Do_append str) b \<longleftrightarrow> length str \<le> max_size"
| "well_called (Do_append_data data len) b \<longleftrightarrow> unat len \<le> length data \<and> unat len \<le> max_size"
| "well_called (Do_ensure_writeable len) b \<longleftrightarrow> unat len \<le> max_size"
| "well_called (Do_has_written len) b \<longleftrightarrow> len \<le> writable_bytes b"
| "well_called (Do_read_fd r) b \<longleftrightarrow> (case r of Readv_error e \<Rightarrow> True
     | Readv_bytes bytes \<Rightarrow> length bytes \<le> unat (writable_bytes b) + extra_buff_size)"
| "well_called _ b \<longleftrightarrow> True"

text \<open>A program whose calls are all in order in the state they are made in.\<close>

fun well_typed :: "buffer_op list \<Rightarrow> buffer \<times> buffer \<Rightarrow> bool" where
  "well_typed [] p \<longleftrightarrow> True"
| "well_typed (op # ops) p \<longleftrightarrow> well_called op (fst p) \<and>
     (case buffer_exec op p of Inl e \<Rightarrow> True | Inr p' \<Rightarrow> well_typed ops p')"

lemma length_safe_map: "length_safe P (map_sum id f m) \<longleftrightarrow> length_safe (P \<circ> f) m"
  by (cases m) simp_all

lemma append_str_safe:
  assumes "buf_inv b" and "length str \<le> max_size"
  shows "length_safe buf_inv (append_str str b)"
proof -
  have n: "unat (word_of_nat (length str) :: size_t) = length str"
    using assms(2) by (intro unat_of_nat_no_wrap) (rule max_size_less)
  then have "append_str str b = append_data str (word_of_nat (length str)) b"
    by (simp add: append_str_def append_data_def subrange_def)
  with append_data_safe [OF assms(1), of "word_of_nat (length str)" str] n assms(2) show ?thesis by simp
qed

lemma has_written_safe:
  assumes inv: "buf_inv b" and len: "len \<le> writable_bytes b"
  shows "buf_inv (has_written len b)"
proof -
  have l: "unat len \<le> length (buffer_bytes b) - unat (writer_index b)"
    using len by (simp add: word_le_nat_alt unat_writable_bytes [OF inv])
  have "length (buffer_bytes b) < 2 ^ 63" using inv by (auto simp: buf_inv_def dest: max_size_less)
  then have "unat (writer_index b + len) = unat (writer_index b) + unat len"
    using l inv by (intro unat_add_no_wrap) (auto simp: buf_inv_def)
  then show ?thesis using l inv by (auto simp: has_written_def buf_inv_def)
qed

lemma retrieve_safe: "buf_inv b \<Longrightarrow> len \<le> readable_bytes b \<Longrightarrow> length_safe buf_inv (retrieve len b)"
  using retrieve_ok [of b len] by (auto simp: word_le_nat_alt length_content)

lemma retrieve_until_safe:
  assumes inv: "buf_inv b" and e: "peek b \<le> e" "e \<le> begin_write b"
  shows "length_safe buf_inv (retrieve_until e b)"
proof -
  have le: "e - peek b \<le> unat (readable_bytes b)"
    using e by (simp add: unat_readable_bytes [OF inv] peek_def begin_write_def)
  then have "unat (word_of_nat (e - peek b) :: size_t) = e - peek b"
    using unsigned_less [of "readable_bytes b", where 'a = nat] by (intro unat_of_nat_no_wrap) simp
  with le have "word_of_nat (e - peek b) \<le> readable_bytes b" by (simp add: word_le_nat_alt)
  with retrieve_safe [OF inv this] e show ?thesis by (simp add: retrieve_until_def)
qed

lemma buffer_exec_safe:
  assumes "buf_inv a" and "buf_inv b" and "well_called op a"
  shows "length_safe (\<lambda>(a, b). buf_inv a \<and> buf_inv b) (buffer_exec op (a, b))"
proof -
  have plain: "length_safe (\<lambda>(a, b). buf_inv a \<and> buf_inv b) (map_sum id (\<lambda>a'. (a', b)) m)"
    if "length_safe buf_inv m" for m
    using that assms(2) by (simp add: length_safe_map o_def)
  show ?thesis
  proof (cases op)
    case (Do_ensure_writeable len)
    then have "length_safe buf_inv (ensure_writeable_bytes len a)"
      using length_safe_mono [OF ensure_writeable_bytes_safe [OF assms(1)]] assms(3) by fastforce
    then show ?thesis using plain Do_ensure_writeable by simp
  next
    case (Do_read_fd r)
    then have "readv_fits r a" using assms(3) by (auto simp: readv_fits_def)
    from length_safe_mono [OF read_fd_safe [OF assms(1) this]] Do_read_fd assms(2) show ?thesis
      by (fastforce simp: length_safe_map o_def)
  next
    case Do_swap
    then show ?thesis using assms(1,2) by (simp add: buffer_swap_def buf_inv_def)
  qed (use assms plain in \<open>simp_all add: retrieve_safe retrieve_until_safe append_str_safe append_data_safe
      retrieve_all_ok retrieve_as_string_eq has_written_safe\<close>)
qed

section \<open>The buffer as a byte queue\<close>

text \<open>
  What the code that owns a buffer relies on: bytes go in at the back and come out at
  the front, and the byte count is the length of what is queued.
\<close>

locale byte_queue =
  fixes invar :: "'q \<Rightarrow> bool"
    and bytes :: "'q \<Rightarrow> char list"
    and fits :: "'q \<Rightarrow> nat \<Rightarrow> bool"
    and put :: "char list \<Rightarrow> 'q \<Rightarrow> 'q res"
    and get :: "size_t \<Rightarrow> 'q \<Rightarrow> 'q res"
    and count :: "'q \<Rightarrow> size_t"
  assumes fits_mono: "fits q k \<Longrightarrow> j \<le> k \<Longrightarrow> fits q j"
    and put: "invar q \<Longrightarrow> fits q (length xs) \<Longrightarrow>
      \<exists>q'. put xs q = Inr q' \<and> invar q' \<and> bytes q' = bytes q @ xs \<and>
           (\<forall>k. fits q (length xs + k) \<longrightarrow> fits q' k)"
    and get: "invar q \<Longrightarrow> unat n \<le> length (bytes q) \<Longrightarrow>
      \<exists>q'. get n q = Inr q' \<and> invar q' \<and> bytes q' = drop (unat n) (bytes q)"
    and get_too_much: "invar q \<Longrightarrow> length (bytes q) < unat n \<Longrightarrow> get n q = Inl Assert_failed"
    and count: "invar q \<Longrightarrow> unat (count q) = length (bytes q)"
begin

lemma count_0: "invar q \<Longrightarrow> count q = 0 \<longleftrightarrow> bytes q = []"
  using count [of q] by (metis length_0_conv unat_0 word_unat_eq_iff)

lemma get_Inr:
  assumes "invar q" and "get n q = Inr q'"
  shows "unat n \<le> length (bytes q)" "invar q'" "take (unat n) (bytes q) @ bytes q' = bytes q"
proof -
  show n: "unat n \<le> length (bytes q)"
    using assms get_too_much [of q n] by (cases "length (bytes q) < unat n") auto
  show "invar q'" "take (unat n) (bytes q) @ bytes q' = bytes q"
    using get [OF assms(1) n] assms(2) by auto
qed

text \<open>Any number of writes is queued in order, without loss.\<close>

lemma put_all:
  assumes "invar q" and "fits q (length (concat xss))"
  shows "\<exists>q'. fold_res put xss q = Inr q' \<and> invar q' \<and> bytes q' = bytes q @ concat xss"
  using assms
proof (induction xss arbitrary: q)
  case (Cons xs xss)
  then have room: "fits q (length xs + length (concat xss))" by simp
  with fits_mono [of q] have "fits q (length xs)" by simp
  with put [OF Cons.prems(1)] room obtain q' where
    "put xs q = Inr q'" "invar q'" "bytes q' = bytes q @ xs" "fits q' (length (concat xss))"
    by blast
  with Cons.IH [of q'] show ?case by auto
qed simp

end

lemma room_mono: "room b m \<Longrightarrow> n \<le> m \<Longrightarrow> room b n"
  by (simp add: room_def)

interpretation strq: byte_queue buf_inv content room append_str retrieve readable_bytes
proof unfold_locales
  fix b and xs :: string assume "buf_inv b" "room b (length xs)"
  from append_str_ok [OF this] show "\<exists>q'. append_str xs b = Inr q' \<and> buf_inv q' \<and>
      content q' = content b @ xs \<and> (\<forall>n. room b (length xs + n) \<longrightarrow> room q' n)"
    by (auto simp: room_def)
qed (auto simp: retrieve_ok retrieve_too_much length_content intro: room_mono)

definition append_bytes :: "char list \<Rightarrow> buffer \<Rightarrow> buffer res" where
  "append_bytes xs = append_data xs (word_of_nat (length xs))"

interpretation dataq: byte_queue buf_inv content room append_bytes retrieve readable_bytes
proof unfold_locales
  fix b and xs :: "char list" assume b: "buf_inv b" "room b (length xs)"
  have len: "unat (word_of_nat (length xs) :: size_t) = length xs"
    using b(2) by (intro unat_of_nat_no_wrap) (simp add: room_def max_size_def)
  show "\<exists>q'. append_bytes xs b = Inr q' \<and> buf_inv q' \<and>
      content q' = content b @ xs \<and> (\<forall>n. room b (length xs + n) \<longrightarrow> room q' n)"
    using append_data_ok [OF b(1), of "word_of_nat (length xs)" xs] b(2)
    by (auto simp: len append_bytes_def room_def)
qed (auto simp: retrieve_ok retrieve_too_much length_content intro: room_mono)

section \<open>Properties\<close>

text \<open>
  C9.  Appending is enqueueing: from any buffer whose indices are in order, appending a
  string (within the largest vector) raises no assertion, in particular not the one of
  \<^verbatim>\<open>make_space\<close>, keeps the indices in order, leaves the unread bytes in place and adds
  exactly the new ones behind them, whether the vector was grown, compacted or left alone.
\<close>

theorem append_enqueues:
  assumes "buf_inv b" and "room b (length str)"
  shows "\<exists>b'. append_str str b = Inr b' \<and> buf_inv b' \<and> content b' = content b @ str \<and>
              unat (readable_bytes b') = unat (readable_bytes b) + length str"
  using strq.put [OF assms] strq.count assms(1) by fastforce

theorem append_enqueues_witness:
  "\<exists>b'. append_str ''abc'' empty_buffer = Inr b' \<and> buf_inv b' \<and> content b' = ''abc'' \<and>
        unat (readable_bytes b') = 3"
proof -
  have "room empty_buffer (length ''abc'')"
    by (simp add: room_def empty_buffer_def max_size_def)
  with append_enqueues [OF empty_buffer_inv, of "''abc''"] show ?thesis
    by (simp add: empty_buffer_content numeral_3_eq_3)
qed

text \<open>
  C18.  Round trip: a freshly constructed buffer into which any list of strings is
  appended gives back exactly their concatenation from \<^verbatim>\<open>retrieve_as_string\<close>, and is empty
  afterwards.
\<close>

theorem append_all_retrieve_roundtrip:
  assumes "8 + length (concat strs) \<le> max_size"
  shows "\<exists>b b'. andthen Buffer_ctor (fold_res append_str strs) = Inr b \<and>
                retrieve_as_string b = Inr (concat strs, b') \<and> content b' = [] \<and> buf_inv b'"
proof -
  have "room empty_buffer (length (concat strs))"
    using assms by (simp add: room_def empty_buffer_def)
  with strq.put_all [OF empty_buffer_inv] obtain b
    where "fold_res append_str strs empty_buffer = Inr b" "buf_inv b" "content b = concat strs"
    by (auto simp: empty_buffer_content)
  with retrieve_as_string_eq [of b] retrieve_all_ok [of b] show ?thesis
    by (auto simp: Buffer_ctor_eq)
qed

theorem append_all_retrieve_roundtrip_witness:
  "\<exists>b b'. andthen Buffer_ctor (fold_res append_str [''xxx'', ''yy'']) = Inr b \<and>
          retrieve_as_string b = Inr (''xxxyy'', b') \<and> content b' = [] \<and> buf_inv b'"
  using append_all_retrieve_roundtrip [of "[''xxx'', ''yy'']"] by (simp add: max_size_def)

text \<open>
  \<^verbatim>\<open>retrieve(len)\<close> drops exactly the first \<open>len\<close> unread bytes when there are that
  many, and fails its assertion when there are fewer.
\<close>

lemma retrieve_dequeues:
  assumes "buf_inv b"
  shows "if unat len \<le> length (content b)
         then \<exists>b'. retrieve len b = Inr b' \<and> buf_inv b' \<and> content b' = drop (unat len) (content b)
         else retrieve len b = Inl Assert_failed"
  using retrieve_ok [OF assms] retrieve_too_much [OF assms] by simp

lemma retrieve_dequeues_example:
  "buf_inv empty_buffer \<and> retrieve 1 empty_buffer = Inl Assert_failed"
  using retrieve_dequeues [OF empty_buffer_inv, of 1] empty_buffer_inv
  by (simp add: empty_buffer_content)

text \<open>
  C25.  Buffers are well typed: a program of any length over two sound buffers whose calls are each in order (no more retrieved than is there,
  no more written than there is room for, no more read than \<^verbatim>\<open>readv\<close> was given) never fails an assertion and never touches
  memory outside the vectors; it ends with both buffers sound, their indices ordered and within the vector, or with \<^verbatim>\<open>std::length_error\<close>.
\<close>

theorem buffer_programs_sound:
  assumes "buf_inv a" and "buf_inv b" and "well_typed ops (a, b)"
  shows "case fold_res buffer_exec ops (a, b) of Inr (a', b') \<Rightarrow> buf_inv a' \<and> buf_inv b' | Inl e \<Rightarrow> e = Length_error"
proof -
  define J where "J ops p \<longleftrightarrow> buf_inv (fst p) \<and> buf_inv (snd p) \<and> well_typed ops p" for ops p
  have "length_safe (J []) (fold_res buffer_exec ops (a, b))"
  proof (rule length_safe_fold)
    show "J ops (a, b)" using assms by (simp add: J_def)
    fix op rest p assume J: "J (op # rest) p"
    then have "length_safe (\<lambda>(a, b). buf_inv a \<and> buf_inv b) (buffer_exec op p)"
      using buffer_exec_safe [of "fst p" "snd p" op] by (simp add: J_def)
    then show "length_safe (J rest) (buffer_exec op p)"
      using J by (cases "buffer_exec op p") (auto simp: J_def)
  qed
  then show ?thesis by (auto simp: J_def length_safe_def split: sum.splits)
qed

theorem buffer_programs_sound_witness:
  "case fold_res buffer_exec [Do_append ''abc'', Do_retrieve 2, Do_swap] (empty_buffer, empty_buffer) of
     Inr (a, b) \<Rightarrow> buf_inv a \<and> buf_inv b | Inl e \<Rightarrow> e = Length_error"
proof -
  have "room empty_buffer (length ''abc'')" by (simp add: room_def max_size_def)
  with append_str_ok [OF empty_buffer_inv, of "''abc''"] obtain b where
    b: "append_str ''abc'' empty_buffer = Inr b" "buf_inv b" "content b = ''abc''" by (auto simp: empty_buffer_content)
  then have "unat (readable_bytes b) = 3" using length_content [OF b(2)] by simp
  then have "2 \<le> readable_bytes b" by (simp add: word_le_nat_alt)
  then have "well_typed [Do_append ''abc'', Do_retrieve 2, Do_swap] (empty_buffer, empty_buffer)"
    using b(1) by (auto simp: max_size_def split: sum.splits)
  from buffer_programs_sound [OF empty_buffer_inv empty_buffer_inv this] show ?thesis .
qed

text \<open>
  \<^verbatim>\<open>read_fd\<close>: whatever number of bytes \<^verbatim>\<open>readv\<close> delivers into the two parts it is
  given (the writable range and the 65536 byte stack buffer), all of them are queued, in
  order, and the byte count is returned.
\<close>

lemma read_fd_queues_all:
  assumes "buf_inv b" and "length bytes \<le> unat (writable_bytes b) + 65536"
    and "length (buffer_bytes b) + 65536 \<le> max_size"
  shows "\<exists>b'. read_fd (Readv_bytes bytes) b = Inr (int (length bytes), None, b') \<and>
              buf_inv b' \<and> content b' = content b @ bytes"
  using assms read_fd_ok by (simp add: extra_buff_size_def)

lemma read_fd_queues_all_example:
  "\<exists>b'. read_fd (Readv_bytes (replicate 2000 NUL)) empty_buffer = Inr (2000, None, b') \<and>
        buf_inv b' \<and> content b' = replicate 2000 NUL"
proof -
  have "length (replicate 2000 NUL) \<le> unat (writable_bytes empty_buffer) + 65536"
    by simp
  moreover have "length (buffer_bytes empty_buffer) + 65536 \<le> max_size"
    by (simp add: empty_buffer_def max_size_def)
  ultimately show ?thesis
    using read_fd_queues_all [OF empty_buffer_inv, of "replicate 2000 NUL"]
    by (simp add: empty_buffer_content)
qed

text \<open>
  C30.  \<^verbatim>\<open>prepend\<close> does not prepend: the bytes are copied behind the writer index
  (\<^verbatim>\<open>begin_write() + reader_index_\<close>), so what becomes readable in front of the old content
  is whatever the vector held there, for every data; and where that copy does not fit,
  it runs past the end of the vector.
\<close>

theorem prepend_ignores_data:
  assumes "buf_inv b" and "unat len \<le> unat (reader_index b)" and "unat len \<le> length data"
  shows "if unat (writer_index b) + unat (reader_index b) \<le> length (buffer_bytes b)
         then \<exists>b'. prepend data len b = Inr b' \<and> content b' =
                take (unat len) (drop (unat (reader_index b) - unat len) (buffer_bytes b)) @ content b
         else prepend data len b = Inl Out_of_range"
proof (cases "unat (writer_index b) + unat (reader_index b) \<le> length (buffer_bytes b)")
  case True
  with prepend_content [OF assms] show ?thesis by auto
next
  case False
  with assms have "prepend data len b = Inl Out_of_range"
    by (subst prepend_eq) (simp_all add: prependable_bytes_def word_le_nat_alt copy_to_def)
  with False show ?thesis by simp
qed

theorem prepend_ignores_data_witness:
  "\<exists>b'. prepend ''tt'' 2 empty_buffer = Inr b' \<and> content b' = replicate 2 NUL"
  using prepend_ignores_data [OF empty_buffer_inv, of 2 "''tt''"]
  by (simp add: empty_buffer_content)

text \<open>
  C31.  \<^verbatim>\<open>shrink(reserve)\<close> keeps the unread bytes when nothing was retrieved before
  (reader index at the cheap prepend).  In general it moves them to the cheap prepend but
  leaves both indices, so the first \<open>reader - 8\<close> unread bytes are lost and as many filler
  bytes appear at the end.
\<close>

theorem shrink_shifts_content:
  assumes "buf_inv b" and "8 \<le> unat (reader_index b)"
    and "8 + unat (readable_bytes b) + unat reserve \<le> max_size"
  shows "\<exists>b'. shrink reserve b = Inr b' \<and>
    (unat (reader_index b) = 8 \<longrightarrow> buf_inv b' \<and> content b' = content b \<and> writable_bytes b' = reserve) \<and>
    content b' = take (length (content b))
                   (drop (unat (reader_index b) - 8) (content b @ replicate (unat reserve) NUL))"
proof -
  from shrink_content [OF assms] obtain b' where b': "shrink reserve b = Inr b'"
    "reader_index b' = reader_index b" "writer_index b' = writer_index b"
    "length (buffer_bytes b') = 8 + length (content b) + unat reserve"
    "content b' = take (length (content b))
                   (drop (unat (reader_index b) - 8) (content b @ replicate (unat reserve) NUL))"
    by blast
  have "buf_inv b' \<and> writable_bytes b' = reserve" if r: "unat (reader_index b) = 8"
  proof
    have w: "unat (writer_index b) = 8 + unat (readable_bytes b)"
      using assms(1) r by (simp add: unat_readable_bytes buf_inv_def)
    with b' r assms(1,3) show inv: "buf_inv b'"
      by (simp add: buf_inv_def length_content)
    show "writable_bytes b' = reserve"
      using b' w length_content [OF assms(1)]
      by (simp add: word_unat_eq_iff unat_writable_bytes [OF inv])
  qed
  with b' show ?thesis by auto
qed

theorem shrink_shifts_content_witness:
  "\<exists>b'. shrink 40 empty_buffer = Inr b' \<and> content b' = [] \<and> buf_inv b' \<and> writable_bytes b' = 40"
proof -
  have "8 + unat (readable_bytes empty_buffer) + unat (40 :: size_t) \<le> max_size"
    by (simp add: max_size_def)
  from shrink_shifts_content [OF empty_buffer_inv _ this] show ?thesis
    by (auto simp: empty_buffer_content)
qed

end
