(* ===== verification/Inet_Address.thy ===== *)
theory Inet_Address
  imports Prelude
begin

text \<open>
  Socket addresses: \<^verbatim>\<open>InetAddress\<close> (\<^verbatim>\<open>tcp/InetAddress.hpp\<close>, \<^verbatim>\<open>InetAddress.cpp\<close>) and the address
  functions of \<^verbatim>\<open>tcp/SocketsOps\<close>: byte order, \<^verbatim>\<open>fromHostPort\<close> and \<^verbatim>\<open>toHostPort\<close>, with the C
  library functions they call (\<^verbatim>\<open>htons\<close> and its kin on a little-endian machine, \<^verbatim>\<open>inet_pton\<close>,
  \<^verbatim>\<open>inet_ntop\<close>, \<^verbatim>\<open>snprintf\<close>) written out for IPv4.
\<close>

section \<open>Byte order\<close>

lemma unat_less_byte: "unat (b :: 8 word) < 256"
  using unsigned_less [where 'a = nat, of b] by simp

lemma unat_less_short: "unat (p :: 16 word) < 65536"
  using unsigned_less [where 'a = nat, of p] by simp

text \<open>The bytes of a number in memory, least significant first, and the number they stand for.\<close>

fun bytes_le :: "nat \<Rightarrow> nat \<Rightarrow> 8 word list" where
  "bytes_le 0 n = []"
| "bytes_le (Suc k) n = word_of_nat (n mod 256) # bytes_le k (n div 256)"

fun num_le :: "8 word list \<Rightarrow> nat" where
  "num_le [] = 0"
| "num_le (b # bs) = unat b + 256 * num_le bs"

definition mem_bytes :: "'a::len word \<Rightarrow> 8 word list" where
  "mem_bytes x = bytes_le (LENGTH('a) div 8) (unat x)"

definition of_bytes :: "8 word list \<Rightarrow> 'a::len word" where
  "of_bytes bs = word_of_nat (num_le bs)"

definition bswap :: "'a::len word \<Rightarrow> 'a word" where
  "bswap x = of_bytes (rev (mem_bytes x))"

definition hostToNetwork64 :: "64 word \<Rightarrow> 64 word" where "hostToNetwork64 x = bswap x"
definition hostToNetwork32 :: "32 word \<Rightarrow> 32 word" where "hostToNetwork32 x = bswap x"
definition hostToNetwork16 :: "16 word \<Rightarrow> 16 word" where "hostToNetwork16 x = bswap x"
definition networkToHost64 :: "64 word \<Rightarrow> 64 word" where "networkToHost64 x = bswap x"
definition networkToHost32 :: "32 word \<Rightarrow> 32 word" where "networkToHost32 x = bswap x"
definition networkToHost16 :: "16 word \<Rightarrow> 16 word" where "networkToHost16 x = bswap x"

lemma length_bytes_le [simp]: "length (bytes_le k n) = k"
  by (induction k arbitrary: n) simp_all

lemma num_bytes_le: "num_le (bytes_le k n) = n mod 256 ^ k"
proof (induction k arbitrary: n)
  case (Suc k)
  have "unat (word_of_nat (n mod 256) :: 8 word) = n mod 256"
    by (simp add: unat_of_nat take_bit_eq_mod)
  with Suc show ?case by (simp add: mod_mult2_eq)
qed simp

lemma num_le_less: "num_le bs < 256 ^ length bs"
proof (induction bs)
  case (Cons b bs)
  have "unat b < 256" using unat_less_byte [of b] by simp
  with Cons show ?case by simp
qed simp

lemma bytes_num_le: "bytes_le (length bs) (num_le bs) = bs"
proof (induction bs)
  case (Cons b bs)
  have "unat b < 256" using unat_less_byte [of b] by simp
  then show ?case using Cons by simp
qed simp

lemma of_mem_bytes:
  assumes "LENGTH('a) mod 8 = 0"
  shows "of_bytes (mem_bytes x) = (x :: 'a::len word)"
proof -
  have "8 * (LENGTH('a) div 8) = LENGTH('a)" using assms by presburger
  then have "(256 :: nat) ^ (LENGTH('a) div 8) = 2 ^ LENGTH('a)"
    using power_mult [of "2 :: nat" 8 "LENGTH('a) div 8"] by simp
  then show ?thesis by (simp add: of_bytes_def mem_bytes_def num_bytes_le)
qed

lemma mem_of_bytes:
  assumes "LENGTH('a) = 8 * length bs"
  shows "mem_bytes (of_bytes bs :: 'a::len word) = bs"
proof -
  have "(2 :: nat) ^ LENGTH('a) = 256 ^ length bs" by (simp add: assms power_mult)
  with num_le_less [of bs] have "unat (word_of_nat (num_le bs) :: 'a word) = num_le bs"
    by (simp add: unat_of_nat take_bit_eq_mod)
  then show ?thesis by (simp add: mem_bytes_def of_bytes_def assms bytes_num_le)
qed

lemma bswap_bswap:
  assumes "LENGTH('a) mod 8 = 0"
  shows "bswap (bswap x) = (x :: 'a::len word)"
proof -
  have "LENGTH('a) = 8 * length (rev (mem_bytes x))" using assms by (simp add: mem_bytes_def) presburger
  from mem_of_bytes [OF this] show ?thesis by (simp add: bswap_def of_mem_bytes [OF assms])
qed

lemmas byte_order_defs = hostToNetwork64_def hostToNetwork32_def hostToNetwork16_def
  networkToHost64_def networkToHost32_def networkToHost16_def

lemma network_host [simp]:
  "networkToHost64 (hostToNetwork64 x) = x" "networkToHost32 (hostToNetwork32 y) = y"
  "networkToHost16 (hostToNetwork16 z) = z"
  by (simp_all add: byte_order_defs bswap_bswap)

section \<open>Decimal numbers\<close>

definition digit :: "nat \<Rightarrow> char" where
  "digit d = char_of (48 + d)"

definition is_digit :: "char \<Rightarrow> bool" where
  "is_digit c \<longleftrightarrow> 48 \<le> (of_char c :: nat) \<and> (of_char c :: nat) \<le> 57"

text \<open>The conversions \<^verbatim>\<open>%u\<close> and \<^verbatim>\<open>%d\<close>, and the inverse of the first.\<close>

fun dec :: "nat \<Rightarrow> string" where
  "dec n = (if n < 10 then [digit n] else dec (n div 10) @ [digit (n mod 10)])"

declare dec.simps [simp del]

definition dec_int :: "int \<Rightarrow> string" where
  "dec_int i = (if i < 0 then ''-'' @ dec (nat (- i)) else dec (nat i))"

definition undec :: "string \<Rightarrow> nat" where
  "undec s = foldl (\<lambda>v c. v * 10 + (of_char c - 48)) 0 s"

lemma of_char_digit [simp]: "d < 10 \<Longrightarrow> of_char (digit d) = (48 + d :: nat)"
  by (simp add: digit_def of_char_of)

lemma is_digit_digit [simp]: "d < 10 \<Longrightarrow> is_digit (digit d)"
  by (simp add: is_digit_def)

lemma dec_digits: "list_all is_digit (dec n)"
proof (induction n rule: dec.induct)
  case (1 n)
  then show ?case by (subst dec.simps) simp
qed

lemma dec_not_Nil [simp]: "dec n \<noteq> []"
  by (subst dec.simps) simp

lemma undec_dec [simp]: "undec (dec n) = n"
proof (induction n rule: dec.induct)
  case (1 n)
  then show ?case by (subst dec.simps) (simp add: undec_def)
qed

lemma dec_inj: "dec m = dec n \<longleftrightarrow> m = n"
  by (metis undec_dec)

lemma hd_dec: "0 < n \<Longrightarrow> hd (dec n) \<noteq> CHR ''0''"
proof (induction n rule: dec.induct)
  case (1 n)
  show ?case
  proof (cases "n < 10")
    case True
    have "of_char (digit n) \<noteq> (of_char (CHR ''0'') :: nat)" using True 1(2) by simp
    then have "digit n \<noteq> CHR ''0''" by metis
    then show ?thesis using True by (subst dec.simps) simp
  next
    case False
    then have "hd (dec (n div 10)) \<noteq> CHR ''0''" using 1 by simp
    with False show ?thesis by (subst dec.simps) simp
  qed
qed

lemma length_dec: "n < 10 ^ k \<Longrightarrow> 0 < k \<Longrightarrow> length (dec n) \<le> k"
proof (induction k arbitrary: n)
  case (Suc k)
  then show ?case by (cases "k = 0") (subst dec.simps; force simp: less_mult_imp_div_less mult.commute)+
qed simp

section \<open>Dotted notation\<close>

definition parse_octet :: "string \<Rightarrow> 8 word option" where
  "parse_octet s =
     (if s \<noteq> [] \<and> list_all is_digit s \<and> (hd s = CHR ''0'' \<longrightarrow> tl s = []) \<and> undec s \<le> 255
      then Some (word_of_nat (undec s)) else None)"

fun split_dots :: "string \<Rightarrow> string list" where
  "split_dots [] = [[]]"
| "split_dots (c # cs) =
     (if c = CHR ''.'' then [] # split_dots cs
      else (case split_dots cs of [] \<Rightarrow> [[c]] | p # ps \<Rightarrow> (c # p) # ps))"

text \<open>
  \<^verbatim>\<open>inet_pton(AF_INET, ...)\<close>: four decimal octets without leading zeros; the first one is the
  first byte in memory.
\<close>

definition inet_pton :: "string \<Rightarrow> 32 word option" where
  "inet_pton s =
     (case map parse_octet (split_dots s) of
        [Some a, Some b, Some c, Some d] \<Rightarrow> Some (of_bytes [a, b, c, d])
      | _ \<Rightarrow> None)"

fun join_dots :: "string list \<Rightarrow> string" where
  "join_dots [] = []"
| "join_dots [p] = p"
| "join_dots (p # ps) = p @ CHR ''.'' # join_dots ps"

definition inet_ntop :: "32 word \<Rightarrow> string" where
  "inet_ntop a = join_dots (map (\<lambda>b :: 8 word. dec (unat b)) (mem_bytes a))"

lemma digit_not_dot: "is_digit c \<Longrightarrow> c \<noteq> CHR ''.''"
  by (auto simp: is_digit_def)

lemma split_dots_digits: "list_all is_digit p \<Longrightarrow> split_dots p = [p]"
  by (induction p) (auto dest: digit_not_dot)

lemma split_dots_app:
  "list_all is_digit p \<Longrightarrow> split_dots (p @ CHR ''.'' # s) = p # split_dots s"
  by (induction p) (auto dest: digit_not_dot)

lemma split_join: "ps \<noteq> [] \<Longrightarrow> list_all (list_all is_digit) ps \<Longrightarrow> split_dots (join_dots ps) = ps"
  by (induction ps rule: join_dots.induct) (simp_all add: split_dots_digits split_dots_app)

lemma parse_octet_dec [simp]: "parse_octet (dec (unat b)) = Some (b :: 8 word)"
proof -
  have "unat b \<le> 255" using unat_less_byte [of b] by simp
  moreover have "tl (dec (unat b)) = []" if "hd (dec (unat b)) = CHR ''0''"
    using that hd_dec [of "unat b"] by (cases "unat b = 0") (simp_all add: dec.simps [of 0])
  ultimately show ?thesis by (simp add: parse_octet_def dec_digits)
qed

lemma four_octets: "\<exists>a b c d. mem_bytes (x :: 32 word) = [a, b, c, d]"
proof -
  have "length (mem_bytes x) = 4" by (simp add: mem_bytes_def)
  then show ?thesis by (auto simp: numeral_eq_Suc length_Suc_conv)
qed

lemma inet_pton_ntop [simp]: "inet_pton (inet_ntop a) = Some a"
proof -
  obtain p q r s where o: "mem_bytes a = [p, q, r, s]" using four_octets by blast
  then have "of_bytes [p, q, r, s] = a" using of_mem_bytes [of a] by simp
  then show ?thesis by (simp add: inet_pton_def inet_ntop_def o split_join dec_digits del: join_dots.simps)
qed

lemma length_dec_octet: "length (dec (unat (b :: 8 word))) \<le> 3"
  using unat_less_byte [of b] by (intro length_dec) simp_all

lemma length_dec_port: "length (dec (unat (p :: 16 word))) \<le> 5"
  using unat_less_short [of p] by (intro length_dec) simp_all

lemma length_inet_ntop: "length (inet_ntop a) \<le> 15"
proof -
  obtain p q r s where o: "mem_bytes a = [p, q, r, s]" using four_octets by blast
  show ?thesis
    using length_dec_octet [of p] length_dec_octet [of q] length_dec_octet [of r] length_dec_octet [of s]
    by (simp add: inet_ntop_def o)
qed

section \<open>InetAddress\<close>

definition AF_INET :: "16 word" where "AF_INET = 2"

record sockaddr_in =
  sin_family :: "16 word"
  sin_port :: "16 word"
  s_addr :: "32 word"

definition zero_sockaddr :: sockaddr_in where
  "zero_sockaddr = \<lparr>sin_family = 0, sin_port = 0, s_addr = 0\<rparr>"

definition k_in_addr_any :: "32 word" where "k_in_addr_any = 0"

text \<open>\<^verbatim>\<open>sockets::fromHostPort\<close>: an address that does not parse is logged and left as it was.\<close>

definition fromHostPort :: "string \<Rightarrow> 16 word \<Rightarrow> sockaddr_in \<Rightarrow> ('z) world_scheme \<Rightarrow> sockaddr_in \<times> ('z) world_scheme" where
  "fromHostPort ip port addr s =
     (let addr = addr\<lparr>sin_family := AF_INET, sin_port := hostToNetwork16 port\<rparr> in
      case inet_pton ip of Some a \<Rightarrow> (addr\<lparr>s_addr := a\<rparr>, s) | None \<Rightarrow> (addr, log_to LOG_SYSERR s))"

definition InetAddress_port :: "16 word \<Rightarrow> sockaddr_in" where
  "InetAddress_port port =
     zero_sockaddr\<lparr>sin_family := AF_INET, s_addr := hostToNetwork32 k_in_addr_any,
                   sin_port := hostToNetwork16 port\<rparr>"

definition InetAddress_ip :: "string \<Rightarrow> 16 word \<Rightarrow> ('z) world_scheme \<Rightarrow> sockaddr_in \<times> ('z) world_scheme" where
  "InetAddress_ip ip port s = fromHostPort ip port zero_sockaddr s"

text \<open>\<^verbatim>\<open>snprintf(buf, size, ...)\<close> keeps what fits with the terminating zero.\<close>

definition snprintf_buf :: "nat \<Rightarrow> string \<Rightarrow> string" where
  "snprintf_buf n s = take (n - 1) s"

definition toHostPort :: "nat \<Rightarrow> sockaddr_in \<Rightarrow> string" where
  "toHostPort n addr =
     snprintf_buf n (inet_ntop (s_addr addr) @ '':'' @ dec (unat (networkToHost16 (sin_port addr))))"

definition to_host_port :: "sockaddr_in \<Rightarrow> string" where
  "to_host_port addr = toHostPort 32 addr"

lemma to_host_port_eq:
  "to_host_port addr = inet_ntop (s_addr addr) @ '':'' @ dec (unat (networkToHost16 (sin_port addr)))"
  using length_inet_ntop [of "s_addr addr"] length_dec_port [of "networkToHost16 (sin_port addr)"]
  by (simp add: to_host_port_def toHostPort_def snprintf_buf_def)

lemma digit_not_colon: "is_digit c \<Longrightarrow> c \<noteq> CHR '':''"
  by (auto simp: is_digit_def)

lemma join_dots_no_colon: "list_all (list_all is_digit) ps \<Longrightarrow> CHR '':'' \<notin> set (join_dots ps)"
  by (induction ps rule: join_dots.induct) (auto simp: list_all_iff dest: digit_not_colon)

lemma inet_ntop_no_colon: "CHR '':'' \<notin> set (inet_ntop a)"
  unfolding inet_ntop_def by (rule join_dots_no_colon) (simp add: list_all_iff dec_digits [unfolded list_all_iff])

lemma inet_ntop_inj: "inet_ntop a = inet_ntop b \<longleftrightarrow> a = b"
  by (metis inet_pton_ntop option.inject)

lemma append_sep_inj: "x \<notin> set as \<Longrightarrow> x \<notin> set bs \<Longrightarrow> as @ x # cs = bs @ x # ds \<longleftrightarrow> as = bs \<and> cs = ds"
  by (induction as arbitrary: bs) (case_tac bs; auto)+

lemma networkToHost16_inj: "networkToHost16 x = networkToHost16 y \<longleftrightarrow> x = y"
  by (metis bswap_bswap hostToNetwork16_def len_num1 len_bit0 networkToHost16_def network_host(3))

lemma to_host_port_inj:
  "to_host_port x = to_host_port y \<longleftrightarrow> s_addr x = s_addr y \<and> sin_port x = sin_port y"
  by (simp add: to_host_port_eq append_sep_inj inet_ntop_no_colon inet_ntop_inj dec_inj
      networkToHost16_inj flip: word_unat_eq_iff)

text \<open>
  C29.  Addresses survive the way through text: the address built from a printed IP address
  and a port has exactly that IP address and port, nothing is logged, it prints as the two
  with a colon between, never cut by the 32-byte buffer, and two addresses print alike only if their
  IP address and port agree.
\<close>

theorem host_port_roundtrip:
  "InetAddress_ip (inet_ntop ip) port w =
     (\<lparr>sin_family = AF_INET, sin_port = hostToNetwork16 port, s_addr = ip\<rparr>, w) \<and>
   to_host_port (fst (InetAddress_ip (inet_ntop ip) port w)) = inet_ntop ip @ '':'' @ dec (unat port) \<and>
   (to_host_port x = to_host_port y \<longleftrightarrow> s_addr x = s_addr y \<and> sin_port x = sin_port y)"
proof -
  have "InetAddress_ip (inet_ntop ip) port w =
     (\<lparr>sin_family = AF_INET, sin_port = hostToNetwork16 port, s_addr = ip\<rparr>, w)"
    by (simp add: InetAddress_ip_def fromHostPort_def zero_sockaddr_def Let_def)
  then show ?thesis by (simp only: fst_conv to_host_port_inj) (simp add: to_host_port_eq)
qed

end
