(* ===== verification/Event_Loop.thy ===== *)
theory Event_Loop
  imports Poll_Poller Epoll_Poller Buffer Inet_Address
begin

text \<open>
  The event loop (\<^verbatim>\<open>event_loop/EventLoop.hpp\<close>, \<^verbatim>\<open>EventLoop.cpp\<close>, \<^verbatim>\<open>poller/DefaultPoller.hpp\<close>): its state,
  the channel operations that go through it (\<^verbatim>\<open>Channel::update\<close>), work handed to it from
  other threads, and one turn of the loop.  The state record also carries the fields of
  the loop's timer queue, whose operations are in \<open>Timer_Queue\<close>.

  An operation takes the thread that executes it (\<open>me\<close>) and a record \<open>os\<close> of the answers of
  the operating system; the \<open>k\<close>-th recorded system call gets the \<open>k\<close>-th answer.
\<close>

section \<open>Closures\<close>

text \<open>
  The \<^verbatim>\<open>std::bind\<close> objects and lambdas the library stores as callbacks, timers and pending
  functors: which code they run and what they captured.  \<open>User u\<close> is application code.
\<close>

datatype 'u closure =
    EventLoop_handle_read
  | TimerQueue_handle_read
  | Add_timer_in_loop addr
  | Cancel_in_loop "addr option"
  | Acceptor_handle_read_once
  | Acceptor_listen_functor
  | Connector_start_in_loop
  | Connector_handle_write
  | Connector_handle_error
  | Connector_reset_channel
  | Conn_handle_read addr
  | Conn_handle_write addr
  | Conn_handle_error addr
  | Conn_handle_close addr
  | Conn_send_in_loop addr string
  | Conn_shutdown_in_loop addr
  | Conn_connect_destroyed addr
  | Conn_write_complete addr
  | Server_remove_connection_in_loop addr
  | Client_set_close_callback addr
  | Client_remove_connector
  | User 'u

section \<open>State\<close>

datatype poller_impl = Use_poll poller | Use_epoll epoller

text \<open>System calls whose order or presence the theorems speak of.\<close>

datatype syscall =
    Sys_read int
  | Sys_readv int
  | Sys_write int string
  | Sys_timerfd_settime int uint64 uint64
  | Sys_close int
  | Sys_shutdown int
  | Sys_socket
  | Sys_bind int sockaddr_in
  | Sys_listen int
  | Sys_accept int
  | Sys_connect int sockaddr_in
  | Sys_getsockname int
  | Sys_getpeername int
  | Sys_so_error int
  | Sys_reuse_addr int bool
  | Sys_no_delay int bool
  | Sys_poll_one int
  | Sys_open_null

record 'u reactor = "'u closure heap" +
  syscalls :: "syscall list"
  looping :: bool
  quit_flag :: bool
  calling_pending_functors :: bool
  thread_id :: nat
  loop_poller :: poller_impl
  wakeup_fd :: int
  active_channels :: "addr list"
  pending_functors :: "'u closure list"
  poll_return_time :: timestamp
  timer_fd :: int
  timer_heap :: "addr \<rightharpoonup> 'u closure timer"
  timers :: "(timestamp \<times> addr) list"

text \<open>
  The answer of the waiting system call: of \<^verbatim>\<open>poll(2)\<close> (first part) or of \<^verbatim>\<open>epoll_wait(2)\<close> (second
  part), whichever the poller issues.
\<close>

type_synonym poll_result = "(int \<times> 16 word list) \<times> (unit + (cint \<times> addr) list)"

record os =
  os_clock :: clock
  os_round :: "real \<Rightarrow> real"
  os_epoll_ctl :: epoll_ctl
  os_ret :: "nat \<Rightarrow> int"
  os_errno :: "nat \<Rightarrow> int"
  os_readv :: "nat \<Rightarrow> readv_result"
  os_addr :: "nat \<Rightarrow> sockaddr_in"
  os_value :: "nat \<Rightarrow> int"

text \<open>Issue a system call: it is recorded, and its answer is that of its position.\<close>

definition issue :: "os \<Rightarrow> syscall \<Rightarrow> ('u, 'z) reactor_scheme \<Rightarrow> int \<times> ('u, 'z) reactor_scheme" where
  "issue os c s = (os_ret os (length (syscalls s)), s\<lparr>syscalls := syscalls s @ [c]\<rparr>)"

section \<open>Threads\<close>

definition is_in_loop_thread :: "nat \<Rightarrow> ('u, 'z) reactor_scheme \<Rightarrow> bool" where
  "is_in_loop_thread me s \<longleftrightarrow> thread_id s = me"

text \<open>
  \<^verbatim>\<open>wakeup\<close> and \<^verbatim>\<open>handle_read\<close> have the same body: both \<^verbatim>\<open>::read\<close> eight bytes from the event
  descriptor and log a short read.
\<close>

definition wakeup :: "os \<Rightarrow> ('u, 'z) reactor_scheme \<Rightarrow> ('u, 'z) reactor_scheme" where
  "wakeup os s =
     (case issue os (Sys_read (wakeup_fd s)) s of (n, s1) \<Rightarrow>
      if n \<noteq> 8 then log_to LOG_ERROR s1 else s1)"

definition handle_read :: "os \<Rightarrow> ('u, 'z) reactor_scheme \<Rightarrow> ('u, 'z) reactor_scheme" where
  "handle_read os s =
     (case issue os (Sys_read (wakeup_fd s)) s of (n, s1) \<Rightarrow>
      if n \<noteq> 8 then log_to LOG_ERROR s1 else s1)"

definition queue_in_loop ::
  "os \<Rightarrow> nat \<Rightarrow> 'u closure \<Rightarrow> ('u, 'z) reactor_scheme \<Rightarrow> ('u, 'z) reactor_scheme" where
  "queue_in_loop os me cb s =
     (let s1 = s\<lparr>pending_functors := pending_functors s @ [cb]\<rparr>
      in if \<not> is_in_loop_thread me s1 \<or> calling_pending_functors s1 then wakeup os s1 else s1)"

text \<open>\<^verbatim>\<open>run_in_loop\<close>: \<open>body\<close> is what calling the closure \<open>cb\<close> does.\<close>

definition run_in_loop ::
  "os \<Rightarrow> nat \<Rightarrow> (('u, 'z) reactor_scheme \<Rightarrow> ('u, 'z) reactor_scheme res) \<Rightarrow> 'u closure \<Rightarrow>
   ('u, 'z) reactor_scheme \<Rightarrow> ('u, 'z) reactor_scheme res" where
  "run_in_loop os me body cb s =
     (if is_in_loop_thread me s then body s else Inr (queue_in_loop os me cb s))"

definition quit :: "os \<Rightarrow> nat \<Rightarrow> ('u, 'z) reactor_scheme \<Rightarrow> ('u, 'z) reactor_scheme" where
  "quit os me s =
     (let s1 = s\<lparr>quit_flag := True\<rparr>
      in if \<not> is_in_loop_thread me s1 then wakeup os s1 else s1)"

section \<open>Channels\<close>

text \<open>The virtual calls through \<^verbatim>\<open>PollerInterface\<close>.\<close>

definition poller_update_channel ::
  "epoll_ctl \<Rightarrow> bool \<Rightarrow> addr \<Rightarrow> poller_impl \<times> ('c, 'z) heap_scheme \<Rightarrow> (poller_impl \<times> ('c, 'z) heap_scheme) res" where
  "poller_update_channel ctl il a ps =
     (case ps of
        (Use_poll p, s) \<Rightarrow> map_sum id (map_prod Use_poll id) (poll_update_channel il a (p, s))
      | (Use_epoll p, s) \<Rightarrow> map_sum id (map_prod Use_epoll id) (epoll_update_channel ctl il a (p, s)))"

definition poller_remove_channel ::
  "epoll_ctl \<Rightarrow> bool \<Rightarrow> addr \<Rightarrow> poller_impl \<times> ('c, 'z) heap_scheme \<Rightarrow> (poller_impl \<times> ('c, 'z) heap_scheme) res" where
  "poller_remove_channel ctl il a ps =
     (case ps of
        (Use_poll p, s) \<Rightarrow> map_sum id (map_prod Use_poll id) (poll_remove_channel il a (p, s))
      | (Use_epoll p, s) \<Rightarrow> map_sum id (map_prod Use_epoll id) (epoll_remove_channel ctl il a (p, s)))"

text \<open>The loop is the object at address 0 (\<^verbatim>\<open>this\<close>).\<close>

definition this_loop :: addr where
  "this_loop = 0"

definition loop_update_channel ::
  "os \<Rightarrow> nat \<Rightarrow> addr \<Rightarrow> ('u, 'z) reactor_scheme \<Rightarrow> ('u, 'z) reactor_scheme res" where
  "loop_update_channel os me a s =
     andthen (deref a s) (\<lambda>ch.
     cpp_assert (owner_loop ch = this_loop)
       (let il = is_in_loop_thread me s; s1 = assert_in_loop_thread il s in
        andthen (poller_update_channel (os_epoll_ctl os) il a (loop_poller s1, s1))
          (\<lambda>(p, s2). Inr (s2\<lparr>loop_poller := p\<rparr>))))"

definition loop_remove_channel ::
  "os \<Rightarrow> nat \<Rightarrow> addr \<Rightarrow> ('u, 'z) reactor_scheme \<Rightarrow> ('u, 'z) reactor_scheme res" where
  "loop_remove_channel os me a s =
     andthen (deref a s) (\<lambda>ch.
     cpp_assert (owner_loop ch = this_loop)
       (let il = is_in_loop_thread me s; s1 = assert_in_loop_thread il s in
        andthen (poller_remove_channel (os_epoll_ctl os) il a (loop_poller s1, s1))
          (\<lambda>(p, s2). Inr (s2\<lparr>loop_poller := p\<rparr>))))"

text \<open>
  \<^verbatim>\<open>enable_reading\<close>, \<^verbatim>\<open>enable_writing\<close>, \<^verbatim>\<open>disable_writing\<close> and \<^verbatim>\<open>disable_all\<close> of \<^verbatim>\<open>Channel\<close>: change the
  mask, then \<^verbatim>\<open>update()\<close>.
\<close>

definition channel_change ::
  "os \<Rightarrow> nat \<Rightarrow> event_change \<Rightarrow> addr \<Rightarrow> ('u, 'z) reactor_scheme \<Rightarrow> ('u, 'z) reactor_scheme res" where
  "channel_change os me c a s =
     andthen (modify_chan a (\<lambda>ch. ch\<lparr>ch_events := change_events c (ch_events ch)\<rparr>) s)
       (loop_update_channel os me a)"

section \<open>One turn of the loop\<close>

definition do_pending_functors ::
  "('u closure \<Rightarrow> ('u, 'z) reactor_scheme \<Rightarrow> ('u, 'z) reactor_scheme res) \<Rightarrow>
   ('u, 'z) reactor_scheme \<Rightarrow> ('u, 'z) reactor_scheme res" where
  "do_pending_functors run s =
     (let s1 = s\<lparr>calling_pending_functors := True\<rparr>;
          functors = pending_functors s1;
          s2 = s1\<lparr>pending_functors := []\<rparr>
      in andthen (fold_res run functors s2) (\<lambda>s3. Inr (s3\<lparr>calling_pending_functors := False\<rparr>)))"

definition poller_poll_impl ::
  "clock \<Rightarrow> poll_result \<Rightarrow> addr list \<Rightarrow> poller_impl \<times> ('c, 'z) heap_scheme \<Rightarrow>
   (timestamp \<times> addr list \<times> poller_impl \<times> ('c, 'z) heap_scheme) res" where
  "poller_poll_impl clk r active ps =
     (case ps of
        (Use_poll p, s) \<Rightarrow>
          map_sum id (map_prod id (map_prod id (map_prod Use_poll id)))
            (poller_poll clk (fst (fst r)) (snd (fst r)) active (p, s))
      | (Use_epoll p, s) \<Rightarrow>
          map_sum id (map_prod id (map_prod id (map_prod Use_epoll id)))
            (epoller_poll clk (snd r) active (p, s)))"

text \<open>
  The body of the \<^verbatim>\<open>while\<close> in \<^verbatim>\<open>EventLoop::loop\<close>.  What the poll call answers is given by
  \<open>polled\<close>, which may depend on the state the kernel sees.
\<close>

definition loop_once ::
  "os \<Rightarrow> (('u, 'z) reactor_scheme \<Rightarrow> poll_result) \<Rightarrow>
   ('u closure \<Rightarrow> ('u, 'z) reactor_scheme \<Rightarrow> ('u, 'z) reactor_scheme res) \<Rightarrow>
   ('u closure \<Rightarrow> timestamp \<Rightarrow> ('u, 'z) reactor_scheme \<Rightarrow> ('u, 'z) reactor_scheme res) \<Rightarrow>
   ('u, 'z) reactor_scheme \<Rightarrow> ('u, 'z) reactor_scheme res" where
  "loop_once os polled run run_read s =
     (let s1 = s\<lparr>active_channels := []\<rparr> in
      andthen (poller_poll_impl (os_clock os) (polled s1) (active_channels s1) (loop_poller s1, s1))
        (\<lambda>(t, active, p, s2).
          let s3 = s2\<lparr>loop_poller := p, active_channels := active, poll_return_time := t\<rparr> in
          andthen (fold_res (handle_event run run_read t) active s3) (do_pending_functors run)))"

text \<open>\<open>None\<close>: still looping when the fuel is used up.\<close>

fun loop_while ::
  "nat \<Rightarrow> (('u, 'z) reactor_scheme \<Rightarrow> ('u, 'z) reactor_scheme res) \<Rightarrow>
   ('u, 'z) reactor_scheme \<Rightarrow> ('u, 'z) reactor_scheme res option" where
  "loop_while fuel body s =
     (if quit_flag s then Some (Inr s)
      else case fuel of 0 \<Rightarrow> None
           | Suc n \<Rightarrow> (case body s of Inl e \<Rightarrow> Some (Inl e) | Inr s' \<Rightarrow> loop_while n body s'))"

definition event_loop ::
  "nat \<Rightarrow> nat \<Rightarrow> (('u, 'z) reactor_scheme \<Rightarrow> ('u, 'z) reactor_scheme res) \<Rightarrow>
   ('u, 'z) reactor_scheme \<Rightarrow> ('u, 'z) reactor_scheme res option" where
  "event_loop fuel me body s =
     (if looping s then Some (Inl Assert_failed)
      else
        (let s1 = assert_in_loop_thread (is_in_loop_thread me s) s;
             s2 = s1\<lparr>looping := True, quit_flag := False\<rparr>
         in map_option (map_sum id (\<lambda>t. t\<lparr>looping := False\<rparr>)) (loop_while fuel body s2)))"

section \<open>The loop and its poller\<close>

fun impl_reg :: "poller_impl \<Rightarrow> int \<rightharpoonup> addr" where
  "impl_reg (Use_poll p) = poll_channels p"
| "impl_reg (Use_epoll p) = ep_channels p"

fun impl_inv :: "poller_impl \<Rightarrow> ('c, 'z) heap_scheme \<Rightarrow> bool" where
  "impl_inv (Use_poll p) s = poll_inv p s"
| "impl_inv (Use_epoll p) s = ep_inv p s"

lemma impl_inv_cong: "chans s = chans t \<Longrightarrow> impl_inv p s = impl_inv p t"
  by (cases p) (simp_all add: poll_inv_def ep_inv_def)

text \<open>Whichever poller \<^verbatim>\<open>newDefaultPoller\<close> chose, the loop sees one that meets the contract.\<close>

interpretation looppoll: poller_contract "poller_update_channel ctl" "poller_remove_channel ctl" impl_reg impl_inv
  for ctl
proof unfold_locales
  fix p and h :: "('c, 'z) heap_scheme" and fd a
  assume "impl_inv p h" "impl_reg p fd = Some a"
  then show "\<exists>ch. chans h a = Some ch \<and> ch_fd ch = fd"
    by (cases p) (auto dest: pollp.reg_live epollp.reg_live)
next
  fix p and h :: "('c, 'z) heap_scheme" and a ch e il
  assume "impl_inv p h" "chans h a = Some ch" "0 \<le> ch_fd ch" "ch_index ch = -1"
    "impl_reg p (ch_fd ch) = None" "e \<noteq> k_none_event"
  then show "\<exists>p' h'. poller_update_channel ctl il a (p, put_chan a (ch\<lparr>ch_events := e\<rparr>) h) = Inr (p', h') \<and>
      impl_inv p' h' \<and> impl_reg p' = (impl_reg p)(ch_fd ch \<mapsto> a) \<and>
      upto_index h' (put_chan a (ch\<lparr>ch_events := e\<rparr>) h)"
    using pollp.upd_new [of _ h a ch e il] epollp.upd_new [of _ h a ch e ctl il]
    by (cases p) (fastforce simp: poller_update_channel_def)+
next
  fix p and h :: "('c, 'z) heap_scheme" and a ch e il
  assume "impl_inv p h" "chans h a = Some ch" "impl_reg p (ch_fd ch) = Some a"
  then show "\<exists>p' h'. poller_update_channel ctl il a (p, put_chan a (ch\<lparr>ch_events := e\<rparr>) h) = Inr (p', h') \<and>
      impl_inv p' h' \<and> impl_reg p' = impl_reg p \<and> upto_index h' (put_chan a (ch\<lparr>ch_events := e\<rparr>) h)"
    using pollp.upd_known [of _ h a ch il e] epollp.upd_known [of _ h a ch ctl il e]
    by (cases p) (fastforce simp: poller_update_channel_def)+
next
  fix p and h :: "('c, 'z) heap_scheme" and a ch il
  assume "impl_inv p h" "chans h a = Some ch" "impl_reg p (ch_fd ch) = Some a" "is_none_event ch"
  then show "\<exists>p' h'. poller_remove_channel ctl il a (p, h) = Inr (p', h') \<and> impl_inv p' h' \<and>
      impl_reg p' = (impl_reg p)(ch_fd ch := None) \<and> upto_index h' h"
    using pollp.rem [of _ h a ch il] epollp.rem [of _ h a ch ctl il]
    by (cases p) (fastforce simp: poller_remove_channel_def)+
qed

definition loop_inv :: "('u, 'z) reactor_scheme \<Rightarrow> bool" where
  "loop_inv s \<longleftrightarrow> impl_inv (loop_poller s) s"

definition registered :: "('u, 'z) reactor_scheme \<Rightarrow> int \<rightharpoonup> addr" where
  "registered s = impl_reg (loop_poller s)"

text \<open>
  A channel on which an update is legal: registered, or new with a free descriptor and
  some event enabled.
\<close>

definition changeable :: "event_change \<Rightarrow> addr \<Rightarrow> 'u closure channel \<Rightarrow> ('u, 'z) reactor_scheme \<Rightarrow> bool" where
  "changeable c a ch s \<longleftrightarrow>
     owner_loop ch = this_loop \<and>
     (registered s (ch_fd ch) = Some a \<or>
      registered s (ch_fd ch) = None \<and> ch_index ch = -1 \<and> 0 \<le> ch_fd ch \<and>
      change_events c (ch_events ch) \<noteq> k_none_event)"

text \<open>
  States that differ in nothing but the poller's bookkeeping: the poller itself, the
  indices it keeps in channels and the log.
\<close>

definition same_but_poller :: "('u, 'z) reactor_scheme \<Rightarrow> ('u, 'z) reactor_scheme \<Rightarrow> bool" where
  "same_but_poller s t \<longleftrightarrow> upto_index (t\<lparr>loop_poller := loop_poller s\<rparr>) s"

lemma same_but_pollerD:
  assumes "same_but_poller s t"
  shows "syscalls t = syscalls s" "looping t = looping s" "quit_flag t = quit_flag s"
    "calling_pending_functors t = calling_pending_functors s" "thread_id t = thread_id s"
    "wakeup_fd t = wakeup_fd s" "active_channels t = active_channels s"
    "pending_functors t = pending_functors s" "poll_return_time t = poll_return_time s"
    "timer_fd t = timer_fd s" "timer_heap t = timer_heap s" "timers t = timers s"
    "reactor.more t = reactor.more s"
  using assms by (cases s; cases t; simp add: same_but_poller_def upto_index_def)+

lemma same_but_poller_chan:
  "same_but_poller s t \<Longrightarrow> chans s a = Some x \<Longrightarrow> \<exists>i. chans t a = Some (x\<lparr>ch_index := i\<rparr>)"
  using upto_index_Some [of s "t\<lparr>loop_poller := loop_poller s\<rparr>" a x]
  by (auto simp: same_but_poller_def upto_index_def)

lemma assert_put_chan:
  "assert_in_loop_thread il (put_chan a x s) = put_chan a x (assert_in_loop_thread il s)"
  by (simp add: assert_in_loop_thread_def log_to_def put_chan_def)

lemma assert_in_loop_thread_reactor [simp]:
  "loop_poller (assert_in_loop_thread il s) = loop_poller s"
  "thread_id (assert_in_loop_thread il s) = thread_id s"
  by (simp_all add: assert_in_loop_thread_def log_to_def)

lemma put_chan_reactor [simp]:
  "loop_poller (put_chan a x s) = loop_poller s" "thread_id (put_chan a x s) = thread_id s"
  "pending_functors (put_chan a x s) = pending_functors s"
  by (simp_all add: put_chan_def)

lemma upto_index_same_but_poller:
  assumes "upto_index h (put_chan a x (assert_in_loop_thread il s))"
  shows "same_but_poller (put_chan a x s) (h\<lparr>loop_poller := p\<rparr>)"
proof -
  have "loop_poller h = loop_poller s"
    using assms by (cases h; cases s; simp add: upto_index_def put_chan_def assert_in_loop_thread_def log_to_def split: if_splits)
  with assms show ?thesis
    by (cases h; cases s)
       (auto simp: same_but_poller_def upto_index_def put_chan_def assert_in_loop_thread_def log_to_def split: if_splits)
qed

lemma channel_change_ok:
  assumes inv: "loop_inv s" and ch: "chans s a = Some ch" and ok: "changeable c a ch s"
  shows "\<exists>s'. channel_change os me c a s = Inr s' \<and> loop_inv s' \<and>
    registered s' = (registered s)(ch_fd ch \<mapsto> a) \<and>
    same_but_poller (put_chan a (ch\<lparr>ch_events := change_events c (ch_events ch)\<rparr>) s) s'"
proof -
  let ?e = "change_events c (ch_events ch)" and ?il = "is_in_loop_thread me s" and ?ctl = "os_epoll_ctl os"
  let ?x = "ch\<lparr>ch_events := ?e\<rparr>" and ?s = "assert_in_loop_thread (is_in_loop_thread me s) s"
  have s: "impl_inv (loop_poller s) ?s" "chans ?s a = Some ch"
    using inv ch impl_inv_cong [of s ?s] by (simp_all add: loop_inv_def)
  have "\<exists>p h. poller_update_channel ?ctl ?il a (loop_poller s, put_chan a ?x ?s) = Inr (p, h) \<and> impl_inv p h \<and>
      impl_reg p = (impl_reg (loop_poller s))(ch_fd ch \<mapsto> a) \<and> upto_index h (put_chan a ?x ?s)"
    using ok looppoll.upd_known [OF s, of ?ctl ?il ?e] looppoll.upd_new [OF s, of ?e ?ctl ?il]
    by (auto simp: changeable_def registered_def fun_upd_idem)
  then obtain p h where h: "poller_update_channel ?ctl ?il a (loop_poller s, put_chan a ?x ?s) = Inr (p, h)"
    "impl_inv p h" "impl_reg p = (impl_reg (loop_poller s))(ch_fd ch \<mapsto> a)" "upto_index h (put_chan a ?x ?s)"
    by blast
  have "channel_change os me c a s = Inr (h\<lparr>loop_poller := p\<rparr>)"
    using ch ok h(1)
    by (simp add: channel_change_def loop_update_channel_def heap_simps changeable_def Let_def
        is_in_loop_thread_def assert_put_chan)
  moreover have "loop_inv (h\<lparr>loop_poller := p\<rparr>)"
    using h(2) impl_inv_cong [of "h\<lparr>loop_poller := p\<rparr>" h] by (simp add: loop_inv_def)
  ultimately show ?thesis
    using h(3) upto_index_same_but_poller [OF h(4), of p] by (simp add: registered_def)
qed

lemma loop_remove_channel_ok:
  assumes inv: "loop_inv s" and ch: "chans s a = Some ch" and own: "owner_loop ch = this_loop"
    and reg: "registered s (ch_fd ch) = Some a" and none: "is_none_event ch"
  shows "\<exists>s'. loop_remove_channel os me a s = Inr s' \<and> loop_inv s' \<and>
    registered s' = (registered s)(ch_fd ch := None) \<and> same_but_poller s s'"
proof -
  let ?il = "is_in_loop_thread me s" and ?ctl = "os_epoll_ctl os" and ?s = "assert_in_loop_thread (is_in_loop_thread me s) s"
  have s: "impl_inv (loop_poller s) ?s" "chans ?s a = Some ch"
    using inv ch impl_inv_cong [of s ?s] by (simp_all add: loop_inv_def)
  from looppoll.rem [OF s _ none, of ?ctl ?il] reg obtain p h where
    h: "poller_remove_channel ?ctl ?il a (loop_poller s, ?s) = Inr (p, h)" "impl_inv p h"
      "impl_reg p = (impl_reg (loop_poller s))(ch_fd ch := None)" "upto_index h ?s"
    by (auto simp: registered_def)
  have "loop_remove_channel os me a s = Inr (h\<lparr>loop_poller := p\<rparr>)"
    using ch own h(1) by (simp add: loop_remove_channel_def heap_simps Let_def)
  moreover have "loop_inv (h\<lparr>loop_poller := p\<rparr>)"
    using h(2) impl_inv_cong [of "h\<lparr>loop_poller := p\<rparr>" h] by (simp add: loop_inv_def)
  moreover have "same_but_poller s (h\<lparr>loop_poller := p\<rparr>)"
    using upto_index_same_but_poller [of h a ch ?il s p] h(4) ch s(2) by (simp add: put_chan_idem)
  ultimately show ?thesis using h(3) by (simp add: registered_def)
qed

text \<open>Only registered channels matter to the invariant.\<close>

lemma impl_inv_agree:
  assumes "impl_inv p s" and "\<And>fd a. impl_reg p fd = Some a \<Longrightarrow> chans t a = chans s a"
  shows "impl_inv p t"
proof (cases p)
  case (Use_poll q)
  then have "poll_inv q s" "\<And>fd a. poll_channels q fd = Some a \<Longrightarrow> chans t a = chans s a"
    using assms by auto
  then have "poll_inv q t" unfolding poll_inv_def by metis
  then show ?thesis using Use_poll by simp
next
  case (Use_epoll q)
  then have "ep_inv q s" "\<And>fd a. ep_channels q fd = Some a \<Longrightarrow> chans t a = chans s a"
    using assms by auto
  then have "ep_inv q t" unfolding ep_inv_def by metis
  then show ?thesis using Use_epoll by simp
qed

lemma loop_inv_agree:
  assumes "loop_inv s" and "loop_poller t = loop_poller s"
    and "\<And>fd a. registered s fd = Some a \<Longrightarrow> chans t a = chans s a"
  shows "loop_inv t"
  using assms impl_inv_agree [of "loop_poller s" s t] by (simp add: loop_inv_def registered_def)

section \<open>Pending functors\<close>

lemma wakeup_simps [simp]:
  "pending_functors (wakeup os s) = pending_functors s"
  "calling_pending_functors (wakeup os s) = calling_pending_functors s"
  "quit_flag (wakeup os s) = quit_flag s" "thread_id (wakeup os s) = thread_id s"
  "wakeup_fd (wakeup os s) = wakeup_fd s" "looping (wakeup os s) = looping s"
  "syscalls (wakeup os s) = syscalls s @ [Sys_read (wakeup_fd s)]"
  "reactor.more (wakeup os s) = reactor.more s" "chans (wakeup os s) = chans s"
  "timers (wakeup os s) = timers s" "timer_heap (wakeup os s) = timer_heap s"
  "loop_poller (wakeup os s) = loop_poller s"
  by (simp_all add: wakeup_def issue_def log_to_def)

lemma handle_read_wakeup: "handle_read = wakeup"
  by (simp add: fun_eq_iff handle_read_def wakeup_def)

lemma queue_in_loop_simps [simp]:
  "pending_functors (queue_in_loop os me cb s) = pending_functors s @ [cb]"
  "calling_pending_functors (queue_in_loop os me cb s) = calling_pending_functors s"
  "quit_flag (queue_in_loop os me cb s) = quit_flag s"
  "thread_id (queue_in_loop os me cb s) = thread_id s"
  "looping (queue_in_loop os me cb s) = looping s"
  "reactor.more (queue_in_loop os me cb s) = reactor.more s"
  "chans (queue_in_loop os me cb s) = chans s"
  "timers (queue_in_loop os me cb s) = timers s" "timer_heap (queue_in_loop os me cb s) = timer_heap s"
  "loop_poller (queue_in_loop os me cb s) = loop_poller s"
  by (simp_all add: queue_in_loop_def Let_def)

text \<open>
  A functor that does its own work and then queues further functors, for following the
  order of execution: \<open>ran\<close> records the functors that were called.
\<close>

record 'u traced = "'u reactor" +
  ran :: "'u closure list"

fun queue_all :: "os \<Rightarrow> nat \<Rightarrow> 'u closure list \<Rightarrow> ('u, 'z) reactor_scheme \<Rightarrow> ('u, 'z) reactor_scheme" where
  "queue_all os me [] s = s"
| "queue_all os me (c # cs) s = queue_all os me cs (queue_in_loop os me c s)"

definition traced_run ::
  "os \<Rightarrow> nat \<Rightarrow> ('u closure \<Rightarrow> 'u closure list) \<Rightarrow> 'u closure \<Rightarrow> ('u, 'z) traced_scheme \<Rightarrow> ('u, 'z) traced_scheme res" where
  "traced_run os me spawn c s = Inr (queue_all os me (spawn c) (s\<lparr>ran := ran s @ [c]\<rparr>))"

lemma queue_all_simps [simp]:
  "pending_functors (queue_all os me cs s) = pending_functors s @ cs"
  "calling_pending_functors (queue_all os me cs s) = calling_pending_functors s"
  "reactor.more (queue_all os me cs s) = reactor.more s"
  by (induction cs arbitrary: s) simp_all

lemma ran_more: "reactor.more s = reactor.more t \<Longrightarrow> ran s = ran t"
  by (cases s; cases t) simp

lemma ran_queue_all [simp]: "ran (queue_all os me cs s) = ran s"
  by (rule ran_more) simp

lemma fold_traced_run:
  "\<exists>t. fold_res (traced_run os me spawn) cs s = Inr t \<and> ran t = ran s @ cs \<and>
       pending_functors t = pending_functors s @ concat (map spawn cs)"
  by (induction cs arbitrary: s) (fastforce simp: traced_run_def)+

section \<open>The event descriptor\<close>

text \<open>
  \<^verbatim>\<open>eventfd(2)\<close>: a write adds to the counter, a read resets it, and the descriptor is readable
  while the counter is positive.  The counter a trace of system calls leads to:
\<close>

definition eventfd_step :: "int \<Rightarrow> syscall \<Rightarrow> nat \<Rightarrow> nat" where
  "eventfd_step fd c n =
     (case c of Sys_write f _ \<Rightarrow> (if f = fd then Suc n else n)
      | Sys_read f \<Rightarrow> (if f = fd then 0 else n)
      | _ \<Rightarrow> n)"

definition eventfd_counter :: "int \<Rightarrow> syscall list \<Rightarrow> nat" where
  "eventfd_counter fd cs = fold (eventfd_step fd) cs 0"

lemma eventfd_counter_snoc_read: "eventfd_counter fd (cs @ [Sys_read fd]) = 0"
  by (simp add: eventfd_counter_def eventfd_step_def)

text \<open>The operations by which any thread makes the loop notice something.\<close>

datatype 'u notification =
    Call_wakeup
  | Call_quit
  | Call_queue "'u closure"
  | Call_handle_read

fun loop_call :: "os \<Rightarrow> nat \<times> 'u notification \<Rightarrow> ('u, 'z) reactor_scheme \<Rightarrow> ('u, 'z) reactor_scheme" where
  "loop_call os (me, Call_wakeup) s = wakeup os s"
| "loop_call os (me, Call_quit) s = quit os me s"
| "loop_call os (me, Call_queue c) s = queue_in_loop os me c s"
| "loop_call os (me, Call_handle_read) s = handle_read os s"

lemma loop_call_no_write:
  "wakeup_fd (loop_call os x s) = wakeup_fd s \<and>
   (syscalls (loop_call os x s) = syscalls s \<or>
    syscalls (loop_call os x s) = syscalls s @ [Sys_read (wakeup_fd s)])"
proof (cases x)
  case (Pair me c)
  then show ?thesis
    by (cases c) (auto simp: handle_read_wakeup quit_def queue_in_loop_def Let_def)
qed

lemma fold_loop_call_no_write:
  "eventfd_counter (wakeup_fd s) (syscalls (fold (loop_call os) xs s)) \<le>
   eventfd_counter (wakeup_fd s) (syscalls s)"
proof (induction xs arbitrary: s)
  case (Cons x xs)
  have "eventfd_counter (wakeup_fd s) (syscalls (loop_call os x s)) \<le> eventfd_counter (wakeup_fd s) (syscalls s)"
    using loop_call_no_write [of os x s] by (auto simp: eventfd_counter_snoc_read)
  with Cons.IH [of "loop_call os x s"] loop_call_no_write [of os x s] show ?case by simp
qed simp

section \<open>Looping\<close>

declare loop_while.simps [simp del]

lemma loop_while_turns:
  assumes "\<And>i. i < n \<Longrightarrow> \<not> quit_flag (st i) \<and> body (st i) = Inr (st (Suc i))"
    and "quit_flag (st n)" and "n \<le> fuel"
  shows "loop_while fuel body (st 0) = Some (Inr (st n))"
  using assms
proof (induction n arbitrary: st fuel)
  case 0
  then show ?case by (simp add: loop_while.simps)
next
  case (Suc n)
  then obtain f where f: "fuel = Suc f" by (cases fuel) auto
  have "loop_while f body (st (Suc 0)) = Some (Inr (st (Suc n)))"
    using Suc.prems f by (intro Suc.IH [of "\<lambda>i. st (Suc i)"]) auto
  with Suc.prems(1) [of 0] f show ?case by (simp add: loop_while.simps [of "Suc f"])
qed

definition loop_start :: "nat \<Rightarrow> ('u, 'z) reactor_scheme \<Rightarrow> ('u, 'z) reactor_scheme" where
  "loop_start me s = (assert_in_loop_thread (is_in_loop_thread me s) s)\<lparr>looping := True, quit_flag := False\<rparr>"

lemma event_loop_eq:
  "\<not> looping s \<Longrightarrow>
   event_loop fuel me body s =
     map_option (map_sum id (\<lambda>t. t\<lparr>looping := False\<rparr>)) (loop_while fuel body (loop_start me s))"
  by (simp add: event_loop_def loop_start_def Let_def)

lemma loop_start_quit: "loop_start me (s\<lparr>quit_flag := q\<rparr>) = loop_start me s"
  by (simp add: loop_start_def assert_in_loop_thread_def is_in_loop_thread_def log_to_def)

section \<open>Properties\<close>

text \<open>
  Enabling or disabling events of a channel of this loop succeeds for both pollers, on
  and off the loop's thread: it passes every assertion of \<^verbatim>\<open>Channel::update\<close>,
  \<^verbatim>\<open>EventLoop::update_channel\<close> and the poller, registers the channel and changes nothing else
  but its event mask and the poller's bookkeeping.
\<close>

lemma channel_change_registers:
  assumes "loop_inv s" and "chans s a = Some ch" and "changeable c a ch s"
  shows "\<exists>s'. channel_change os me c a s = Inr s' \<and> loop_inv s' \<and>
    registered s' = (registered s)(ch_fd ch \<mapsto> a) \<and>
    same_but_poller (put_chan a (ch\<lparr>ch_events := change_events c (ch_events ch)\<rparr>) s) s'"
  by (rule channel_change_ok [OF assms])

text \<open>
  C10.  \<^verbatim>\<open>do_pending_functors\<close> calls exactly the functors that were pending, each once and in
  the order they were queued; what these functors queue themselves is not called in the
  same turn but is pending, in order, afterwards.
\<close>

theorem pending_functors_fifo:
  "\<exists>t. do_pending_functors (traced_run os me spawn) s = Inr t \<and>
       ran t = ran s @ pending_functors s \<and>
       pending_functors t = concat (map spawn (pending_functors s)) \<and>
       \<not> calling_pending_functors t"
proof -
  let ?s = "s\<lparr>calling_pending_functors := True, pending_functors := []\<rparr>"
  obtain t where "fold_res (traced_run os me spawn) (pending_functors s) ?s = Inr t"
    "ran t = ran s @ pending_functors s" "pending_functors t = concat (map spawn (pending_functors s))"
    using fold_traced_run [of os me spawn "pending_functors s" ?s] by auto
  then show ?thesis by (simp add: do_pending_functors_def Let_def)
qed

text \<open>
  C33.  \<^verbatim>\<open>wakeup\<close> never wakes the loop: it reads from the event descriptor where it should
  write.  However many times any threads call \<^verbatim>\<open>wakeup\<close>, \<^verbatim>\<open>quit\<close> and \<^verbatim>\<open>queue_in_loop\<close>, no write
  to the descriptor is issued: its counter never grows, and a descriptor that was not
  readable does not become readable.
\<close>

theorem wakeup_never_signals:
  "eventfd_counter (wakeup_fd s) (syscalls (fold (loop_call os) calls s)) \<le>
   eventfd_counter (wakeup_fd s) (syscalls s)"
  by (rule fold_loop_call_no_write)

text \<open>
  C27.  \<^verbatim>\<open>loop()\<close> returns after the first turn that leaves the quit flag set, with
  \<^verbatim>\<open>looping_\<close> cleared, given one unit of fuel per turn; whether \<^verbatim>\<open>quit()\<close> was called before
  \<^verbatim>\<open>loop()\<close> makes no difference (the \<^verbatim>\<open>FIXME\<close> in the code): that request is lost.
\<close>

theorem loop_returns_after_quit:
  assumes "\<not> looping s" and "st 0 = loop_start me s"
    and "\<And>i. i < n \<Longrightarrow> \<not> quit_flag (st i) \<and> body (st i) = Inr (st (Suc i))"
    and "quit_flag (st n)" and "n \<le> fuel"
  shows "event_loop fuel me body (s\<lparr>quit_flag := q\<rparr>) = Some (Inr ((st n)\<lparr>looping := False\<rparr>))"
  using loop_while_turns [of n st body fuel] assms
  by (simp add: event_loop_eq loop_start_quit)

definition idle_reactor :: "unit reactor" where
  "idle_reactor = \<lparr>logs = [], clock_reads = 0, chans = [10 \<mapsto> Channel_ctor this_loop 5],
     syscalls = [], looping = False, quit_flag = False, calling_pending_functors = False,
     thread_id = 7, loop_poller = Use_epoll \<lparr>epoll_fd = 3, events_size = 16, ep_channels = Map.empty, kernel = Map.empty\<rparr>,
     wakeup_fd = 4, active_channels = [], pending_functors = [], poll_return_time = invalid_timestamp,
     timer_fd = 3, timer_heap = Map.empty, timers = []\<rparr>"

theorem loop_returns_after_quit_witness:
  "event_loop 1 7 (\<lambda>s. Inr (s\<lparr>quit_flag := True\<rparr>)) (idle_reactor\<lparr>quit_flag := True\<rparr>) =
     Some (Inr (idle_reactor\<lparr>quit_flag := True\<rparr>))"
proof -
  let ?st = "\<lambda>i :: nat. (loop_start 7 idle_reactor)\<lparr>quit_flag := 0 < i\<rparr>"
  have start: "loop_start 7 idle_reactor = idle_reactor\<lparr>looping := True\<rparr>"
    by (simp add: loop_start_def idle_reactor_def is_in_loop_thread_def)
  have flags: "\<not> looping idle_reactor" "\<not> quit_flag idle_reactor"
    by (simp_all add: idle_reactor_def)
  have zero: "?st 0 = loop_start 7 idle_reactor" unfolding start by (simp add: idle_reactor_def)
  have "event_loop 1 7 (\<lambda>s. Inr (s\<lparr>quit_flag := True\<rparr>)) (idle_reactor\<lparr>quit_flag := True\<rparr>) =
      Some (Inr ((?st 1)\<lparr>looping := False\<rparr>))"
    by (rule loop_returns_after_quit [where st = ?st and n = 1, OF flags(1) zero]) simp_all
  then show ?thesis unfolding start by (simp add: idle_reactor_def)
qed

lemma channel_change_registers_example:
  "\<exists>s'. channel_change \<lparr>os_clock = (\<lambda>_. 0), os_round = id, os_epoll_ctl = sample_ctl,
                        os_ret = (\<lambda>_. 0), os_errno = (\<lambda>_. 0),
                        os_readv = (\<lambda>_. Readv_error 0), os_addr = (\<lambda>_. zero_sockaddr), os_value = (\<lambda>_. 0)\<rparr> 7 Enable_reading 10 idle_reactor = Inr s' \<and>
        loop_inv s' \<and> registered s' = [5 \<mapsto> 10]"
proof -
  have "loop_inv idle_reactor" by (simp add: loop_inv_def idle_reactor_def ep_inv_def)
  moreover have "chans idle_reactor 10 = Some (Channel_ctor this_loop 5)" by (simp add: idle_reactor_def)
  moreover have "changeable Enable_reading 10 (Channel_ctor this_loop 5) idle_reactor"
    by (simp add: changeable_def registered_def idle_reactor_def Channel_ctor_def event_masks poll_masks)
  ultimately show ?thesis
    using channel_change_registers [of idle_reactor 10 "Channel_ctor this_loop 5" Enable_reading
        "\<lparr>os_clock = (\<lambda>_. 0), os_round = id, os_epoll_ctl = sample_ctl, os_ret = (\<lambda>_. 0), os_errno = (\<lambda>_. 0),
                        os_readv = (\<lambda>_. Readv_error 0), os_addr = (\<lambda>_. zero_sockaddr), os_value = (\<lambda>_. 0)\<rparr>" 7]
    by (auto simp: registered_def idle_reactor_def Channel_ctor_def)
qed

end
