(* ===== verification/Timer_Queue.thy ===== *)
theory Timer_Queue
  imports Event_Loop "HOL-Library.Multiset" "HOL-Library.Signed_Division"
begin

text \<open>
  The timer queue of a loop (\<^verbatim>\<open>time_utils/TimerQueue.hpp\<close>, \<^verbatim>\<open>TimerQueue.cpp\<close>, \<^verbatim>\<open>TimerId\<close>) and the
  operations of \<^verbatim>\<open>EventLoop\<close> that use it.  Its fields are \<open>timer_fd\<close>, \<open>timer_heap\<close> and \<open>timers\<close> of
  the state of the loop.

  Timers are objects that closures, the queue and \<^verbatim>\<open>TimerId\<close>s share, so they live in a
  store.  The store keeps dead timers: an address stands for one timer for ever, and a
  \<^verbatim>\<open>weak_ptr\<close> to a dead timer finds nothing in the queue, as in the code, where the lock of
  such a pointer fails.
\<close>

section \<open>Ordered multimaps\<close>

text \<open>
  \<^verbatim>\<open>std::multimap<TimeStamp, V>\<close> as the list of its entries in iteration order: \<^verbatim>\<open>insert\<close> puts
  an entry behind all that are not greater, \<^verbatim>\<open>lower_bound\<close> is the number of entries before
  the first that is not less, \<^verbatim>\<open>erase(key)\<close> drops every entry with an equivalent key.
\<close>

definition mm_insert :: "timestamp \<Rightarrow> 'v \<Rightarrow> (timestamp \<times> 'v) list \<Rightarrow> (timestamp \<times> 'v) list" where
  "mm_insert k v m = takeWhile (\<lambda>e. \<not> k < fst e) m @ (k, v) # dropWhile (\<lambda>e. \<not> k < fst e) m"

definition mm_lower_bound :: "timestamp \<Rightarrow> (timestamp \<times> 'v) list \<Rightarrow> nat" where
  "mm_lower_bound k m = length (takeWhile (\<lambda>e. fst e < k) m)"

definition mm_erase :: "timestamp \<Rightarrow> (timestamp \<times> 'v) list \<Rightarrow> (timestamp \<times> 'v) list" where
  "mm_erase k m = filter (\<lambda>e. fst e < k \<or> k < fst e) m"

text \<open>Entries with equivalent keys.\<close>

definition same_key :: "timestamp \<Rightarrow> timestamp \<times> 'v \<Rightarrow> bool" where
  "same_key k e \<longleftrightarrow> ts_val (fst e) = ts_val k"

definition key_sorted :: "(timestamp \<times> 'v) list \<Rightarrow> bool" where
  "key_sorted m \<longleftrightarrow> sorted (map (\<lambda>e. ts_val (fst e)) m)"

text \<open>What the timer queue relies on.\<close>

locale ordered_multimap =
  fixes emp :: "'m"
    and ins :: "timestamp \<Rightarrow> 'v \<Rightarrow> 'm \<Rightarrow> 'm"
    and lower :: "timestamp \<Rightarrow> 'm \<Rightarrow> nat"
    and del :: "timestamp \<Rightarrow> 'm \<Rightarrow> 'm"
    and entries :: "'m \<Rightarrow> (timestamp \<times> 'v) list"
    and ok :: "'m \<Rightarrow> bool"
  assumes emp: "ok emp" "entries emp = []"
    and ok_sorted: "ok m \<Longrightarrow> key_sorted (entries m)"
    and ins_ok: "ok m \<Longrightarrow> ok (ins k v m)"
    and ins_mset: "ok m \<Longrightarrow> mset (entries (ins k v m)) = add_mset (k, v) (mset (entries m))"
    and ins_stable: "ok m \<Longrightarrow> filter (same_key j) (entries (ins k v m)) =
      filter (same_key j) (entries m) @ filter (same_key j) [(k, v)]"
    and lower_count: "ok m \<Longrightarrow> lower k m = length (filter (\<lambda>e. fst e < k) (entries m))"
    and del_ok: "ok m \<Longrightarrow> ok (del k m)"
    and del_entries: "ok m \<Longrightarrow> entries (del k m) = filter (\<lambda>e. \<not> same_key k e) (entries m)"
begin

lemma sorted_split:
  "key_sorted es \<Longrightarrow> filter (\<lambda>e. fst e < k) es @ filter (\<lambda>e. \<not> fst e < k) es = es"
proof (induction es)
  case (Cons e es)
  then have "filter (\<lambda>e. fst e < k) es = []" if "\<not> fst e < k"
    using that by (fastforce simp: key_sorted_def timestamp_order filter_empty_conv)
  with Cons show ?case by (auto simp: key_sorted_def timestamp_order)
qed simp

text \<open>\<^verbatim>\<open>lower_bound\<close> splits the entries at the key.\<close>

lemma lower_take: "ok m \<Longrightarrow> take (lower k m) (entries m) = filter (\<lambda>e. fst e < k) (entries m)"
  by (metis append_eq_conv_conj lower_count ok_sorted sorted_split)

lemma lower_drop: "ok m \<Longrightarrow> drop (lower k m) (entries m) = filter (\<lambda>e. \<not> fst e < k) (entries m)"
  by (metis append_eq_conv_conj lower_count ok_sorted sorted_split)

text \<open>Inserting a sequence of entries sorts it, entries with equivalent keys in insertion order.\<close>

fun ins_all :: "(timestamp \<times> 'v) list \<Rightarrow> 'm \<Rightarrow> 'm" where
  "ins_all [] m = m"
| "ins_all ((k, v) # es) m = ins_all es (ins k v m)"

lemma ins_all_facts:
  "ok m \<Longrightarrow> ok (ins_all es m) \<and> mset (entries (ins_all es m)) = mset (entries m) + mset es \<and>
   filter (same_key j) (entries (ins_all es m)) = filter (same_key j) (entries m @ es)"
  by (induction es m rule: ins_all.induct) (auto simp: ins_ok ins_mset ins_stable)

lemma ins_all_sort:
  assumes "ok m"
  shows "entries (ins_all es m) = sort_key (\<lambda>e. ts_val (fst e)) (entries m @ es)"
proof (rule properties_for_sort_key [symmetric])
  show "mset (entries (ins_all es m)) = mset (entries m @ es)"
    using ins_all_facts [OF assms] by simp
  show "sorted (map (\<lambda>e. ts_val (fst e)) (entries (ins_all es m)))"
    using ins_all_facts [OF assms] ok_sorted by (simp add: key_sorted_def)
  fix e :: "timestamp \<times> 'v"
  have eq: "same_key (fst e) = (\<lambda>x. ts_val (fst e) = ts_val (fst x))"
    by (auto simp: same_key_def fun_eq_iff)
  from ins_all_facts [OF assms, of es "fst e"] show "filter (\<lambda>x. ts_val (fst e) = ts_val (fst x)) (entries (ins_all es m)) =
      filter (\<lambda>x. ts_val (fst e) = ts_val (fst x)) (entries m @ es)"
    unfolding eq by simp
qed

end

lemma mm_insert_mset: "mset (mm_insert k v m) = add_mset (k, v) (mset m)"
  by (simp add: mm_insert_def flip: mset_append [of "takeWhile _ _" "dropWhile _ _"])

lemma mm_insert_set: "set (mm_insert k v m) = insert (k, v) (set m)"
  by (metis mm_insert_mset set_mset_add_mset_insert set_mset_mset)

lemma mm_insert_sorted: "key_sorted m \<Longrightarrow> key_sorted (mm_insert k v m)"
proof (induction m)
  case (Cons e m)
  then show ?case
    using mm_insert_set [of k v m]
    by (auto simp: key_sorted_def mm_insert_def timestamp_order dest: set_takeWhileD set_dropWhileD)
qed (simp add: mm_insert_def key_sorted_def)

lemma mm_insert_stable:
  "key_sorted m \<Longrightarrow>
   filter (same_key j) (mm_insert k v m) = filter (same_key j) m @ filter (same_key j) [(k, v)]"
proof (induction m)
  case (Cons e m)
  have "filter (same_key j) m = []" if "k < fst e" "ts_val k = ts_val j"
    using that Cons.prems by (fastforce simp: key_sorted_def timestamp_order same_key_def filter_empty_conv)
  with Cons show ?case
    by (auto simp: key_sorted_def mm_insert_def same_key_def [of _ "(k, v)"] same_key_def [of _ e] timestamp_order)
qed (simp add: mm_insert_def)

lemma mm_lower_count:
  "key_sorted m \<Longrightarrow> mm_lower_bound k m = length (filter (\<lambda>e. fst e < k) m)"
  by (induction m) (auto simp: key_sorted_def mm_lower_bound_def timestamp_order filter_empty_conv)

interpretation tl: ordered_multimap "[]" mm_insert mm_lower_bound mm_erase id key_sorted
proof unfold_locales
  show "key_sorted m \<Longrightarrow> key_sorted (mm_erase k m)" for m :: "(timestamp \<times> 'v) list" and k
    by (simp add: key_sorted_def mm_erase_def sorted_filter)
  show "key_sorted m \<Longrightarrow> id (mm_erase k m) = filter (\<lambda>e. \<not> same_key k e) (id m)" for m :: "(timestamp \<times> 'v) list" and k
    by (auto simp: mm_erase_def same_key_def timestamp_order intro!: filter_cong)
qed (simp_all add: key_sorted_def [of "[]"] mm_insert_sorted mm_insert_mset mm_insert_stable mm_lower_count)

section \<open>The timer descriptor\<close>

definition create_timer_fd :: "int \<Rightarrow> ('z) world_scheme \<Rightarrow> int \<times> ('z) world_scheme" where
  "create_timer_fd r s = (r, if r < 0 then log_to LOG_SYSFATAL s else s)"

text \<open>
  The interval is a quotient of signed 64-bit counts that is stored in a \<^verbatim>\<open>uint64_t\<close>; the
  result is \<^verbatim>\<open>tv_sec\<close> and \<^verbatim>\<open>tv_nsec\<close>.
\<close>

definition how_much_time_from_now :: "timestamp \<Rightarrow> int \<Rightarrow> uint64 \<times> uint64" where
  "how_much_time_from_now t now =
     (let us = word_of_int ((ts_val t - now) sdiv 1000) :: uint64;
          us = (if us < 100 then 100 else us)
      in (us div k_micro_seconds_per_second, us mod k_micro_seconds_per_second * 1000))"

definition read_timer_fd :: "os \<Rightarrow> int \<Rightarrow> ('u, 'z) reactor_scheme \<Rightarrow> ('u, 'z) reactor_scheme" where
  "read_timer_fd os fd s =
     (case issue os (Sys_read fd) s of (n, s1) \<Rightarrow> if n \<noteq> 8 then log_to LOG_ERROR s1 else s1)"

definition reset_timer_fd ::
  "os \<Rightarrow> int \<Rightarrow> timestamp \<Rightarrow> ('u, 'z) reactor_scheme \<Rightarrow> ('u, 'z) reactor_scheme" where
  "reset_timer_fd os fd t s =
     (case read_clock (os_clock os) s of (now, s1) \<Rightarrow>
      case how_much_time_from_now t now of (sec, nsec) \<Rightarrow>
      case issue os (Sys_timerfd_settime fd sec nsec) s1 of (ret, s2) \<Rightarrow>
      if ret \<noteq> 0 then log_to LOG_SYSERR s2 else s2)"

section \<open>Operations of the queue\<close>

text \<open>\<^verbatim>\<open>TimerQueue::TimerQueue\<close>: \<open>r\<close> is what \<^verbatim>\<open>timerfd_create\<close> returns, \<open>a\<close> the address of the channel.\<close>

definition TimerQueue_ctor ::
  "os \<Rightarrow> nat \<Rightarrow> int \<Rightarrow> addr \<Rightarrow> ('u, 'z) reactor_scheme \<Rightarrow> ('u, 'z) reactor_scheme res" where
  "TimerQueue_ctor os me r a s =
     (case create_timer_fd r s of (fd, s1) \<Rightarrow>
      channel_change os me Enable_reading a
        (put_chan a (set_read_callback (Some TimerQueue_handle_read) (Channel_ctor this_loop fd))
          (s1\<lparr>timer_fd := fd, timers := []\<rparr>)))"

text \<open>The destructor closes the descriptor; then the member \<^verbatim>\<open>timer_fd_channel_\<close>, at \<open>a\<close>, is destroyed.\<close>

definition TimerQueue_dtor :: "os \<Rightarrow> addr \<Rightarrow> ('u, 'z) reactor_scheme \<Rightarrow> ('u, 'z) reactor_scheme res" where
  "TimerQueue_dtor os a s = destroy_chan a (snd (issue os (Sys_close (timer_fd s)) s))"

definition timer_insert ::
  "addr \<Rightarrow> ('u, 'z) reactor_scheme \<Rightarrow> (bool \<times> ('u, 'z) reactor_scheme) res" where
  "timer_insert a s =
     (case timer_heap s a of
        None \<Rightarrow> Inl Bad_deref
      | Some t \<Rightarrow>
          let w = expiration t; changed = (timers s = [] \<or> w < fst (hd (timers s)))
          in Inr (changed, s\<lparr>timers := mm_insert w a (timers s)\<rparr>))"

definition add_timer_in_loop ::
  "os \<Rightarrow> nat \<Rightarrow> addr \<Rightarrow> ('u, 'z) reactor_scheme \<Rightarrow> ('u, 'z) reactor_scheme res" where
  "add_timer_in_loop os me a s =
     andthen (timer_insert a (assert_in_loop_thread (is_in_loop_thread me s) s)) (\<lambda>(changed, s1).
       Inr (if changed then
              (case timer_heap s1 a of None \<Rightarrow> s1
               | Some t \<Rightarrow> reset_timer_fd os (timer_fd s1) (expiration t) s1)
            else s1))"

text \<open>\<open>a\<close> is where \<^verbatim>\<open>make_shared\<close> puts the timer.\<close>

definition add_timer ::
  "os \<Rightarrow> nat \<Rightarrow> addr \<Rightarrow> 'u closure \<Rightarrow> timestamp \<Rightarrow> real \<Rightarrow>
   ('u, 'z) reactor_scheme \<Rightarrow> (addr option \<times> ('u, 'z) reactor_scheme) res" where
  "add_timer os me a cb t ivl s =
     andthen (run_in_loop os me (add_timer_in_loop os me a) (Add_timer_in_loop a)
        (s\<lparr>timer_heap := (timer_heap s)(a \<mapsto> Timer_ctor cb t ivl)\<rparr>))
      (\<lambda>s1. Inr (Some a, s1))"

definition get_expired ::
  "timestamp \<Rightarrow> ('u, 'z) reactor_scheme \<Rightarrow> ((timestamp \<times> addr) list \<times> ('u, 'z) reactor_scheme) res" where
  "get_expired now s =
     (let n = mm_lower_bound now (timers s); rest = drop n (timers s) in
      cpp_assert (rest = [] \<or> now < fst (hd rest))
        (Inr (take n (timers s), s\<lparr>timers := rest\<rparr>)))"

definition run_timer ::
  "('u closure \<Rightarrow> ('u, 'z) reactor_scheme \<Rightarrow> ('u, 'z) reactor_scheme res) \<Rightarrow>
   timestamp \<times> addr \<Rightarrow> ('u, 'z) reactor_scheme \<Rightarrow> ('u, 'z) reactor_scheme res" where
  "run_timer run e s =
     (case timer_heap s (snd e) of None \<Rightarrow> Inl Bad_deref | Some t \<Rightarrow> run (callback t) s)"

text \<open>One iteration of the first loop of \<^verbatim>\<open>reset\<close>.\<close>

definition reset_entry ::
  "os \<Rightarrow> timestamp \<Rightarrow> timestamp \<times> addr \<Rightarrow> ('u, 'z) reactor_scheme \<Rightarrow> ('u, 'z) reactor_scheme res" where
  "reset_entry os now e s =
     (case timer_heap s (snd e) of None \<Rightarrow> Inl Bad_deref
      | Some t \<Rightarrow>
          if repeat t then
            andthen (restart (os_round os) now t) (\<lambda>t'.
            andthen (timer_insert (snd e) (s\<lparr>timer_heap := (timer_heap s)(snd e \<mapsto> t')\<rparr>)) (\<lambda>(_, s'). Inr s'))
          else Inr s)"

definition reset_timers ::
  "os \<Rightarrow> (timestamp \<times> addr) list \<Rightarrow> timestamp \<Rightarrow> ('u, 'z) reactor_scheme \<Rightarrow> ('u, 'z) reactor_scheme res" where
  "reset_timers os expired now s =
     andthen (fold_res (reset_entry os now) expired s) (\<lambda>s1.
     andthen (case timers s1 of [] \<Rightarrow> Inr invalid_timestamp
              | e # _ \<Rightarrow> (case timer_heap s1 (snd e) of None \<Rightarrow> Inl Bad_deref | Some t \<Rightarrow> Inr (expiration t)))
       (\<lambda>next_expire.
         Inr (if ts_valid next_expire then reset_timer_fd os (timer_fd s1) next_expire s1 else s1)))"

definition timer_handle_read ::
  "os \<Rightarrow> nat \<Rightarrow> ('u closure \<Rightarrow> ('u, 'z) reactor_scheme \<Rightarrow> ('u, 'z) reactor_scheme res) \<Rightarrow>
   ('u, 'z) reactor_scheme \<Rightarrow> ('u, 'z) reactor_scheme res" where
  "timer_handle_read os me run s =
     (case read_clock (os_clock os) (assert_in_loop_thread (is_in_loop_thread me s) s) of (n, s1) \<Rightarrow>
      let now = timestamp_at n; s2 = read_timer_fd os (timer_fd s1) s1 in
      andthen (get_expired now s2) (\<lambda>(expired, s3).
      andthen (fold_res (run_timer run) expired s3) (reset_timers os expired now)))"

text \<open>
  \<^verbatim>\<open>cancel_in_loop\<close>: the search stops at the entry of the timer; then every entry with an
  equivalent key is erased.
\<close>

definition cancel_in_loop :: "addr option \<Rightarrow> ('u, 'z) reactor_scheme \<Rightarrow> ('u, 'z) reactor_scheme" where
  "cancel_in_loop i s =
     (case i of None \<Rightarrow> s
      | Some a \<Rightarrow>
          (case find (\<lambda>e. snd e = a) (timers s) of None \<Rightarrow> s
           | Some e \<Rightarrow> s\<lparr>timers := mm_erase (fst e) (timers s)\<rparr>))"

definition cancel ::
  "os \<Rightarrow> nat \<Rightarrow> addr option \<Rightarrow> ('u, 'z) reactor_scheme \<Rightarrow> ('u, 'z) reactor_scheme res" where
  "cancel os me i s = run_in_loop os me (\<lambda>s. Inr (cancel_in_loop i s)) (Cancel_in_loop i) s"

section \<open>Timers through the loop\<close>

definition run_at where
  "run_at os me a t cb s = add_timer os me a cb t 0 s"

definition run_after where
  "run_after os me a delay cb s =
     (case read_clock (os_clock os) s of (n, s1) \<Rightarrow>
      andthen (add_time (os_round os) (timestamp_at n) delay) (\<lambda>t. run_at os me a t cb s1))"

definition run_every where
  "run_every os me a ivl cb s =
     (case read_clock (os_clock os) s of (n, s1) \<Rightarrow>
      andthen (add_time (os_round os) (timestamp_at n) ivl) (\<lambda>t. add_timer os me a cb t ivl s1))"

definition loop_cancel where
  "loop_cancel os me i s = cancel os me i s"

text \<open>
  What the closures of the loop and of its timer queue do when they are called; \<open>other\<close> stands
  for all other closures, those of the timers among them.
\<close>

definition loop_closure ::
  "os \<Rightarrow> nat \<Rightarrow> ('u closure \<Rightarrow> ('u, 'z) reactor_scheme \<Rightarrow> ('u, 'z) reactor_scheme res) \<Rightarrow>
   'u closure \<Rightarrow> ('u, 'z) reactor_scheme \<Rightarrow> ('u, 'z) reactor_scheme res" where
  "loop_closure os me other cl =
     (case cl of
        Add_timer_in_loop a \<Rightarrow> add_timer_in_loop os me a
      | Cancel_in_loop i \<Rightarrow> (\<lambda>s. Inr (cancel_in_loop i s))
      | _ \<Rightarrow> other cl)"

definition loop_closure_read ::
  "os \<Rightarrow> nat \<Rightarrow> ('u closure \<Rightarrow> ('u, 'z) reactor_scheme \<Rightarrow> ('u, 'z) reactor_scheme res) \<Rightarrow>
   'u closure \<Rightarrow> timestamp \<Rightarrow> ('u, 'z) reactor_scheme \<Rightarrow> ('u, 'z) reactor_scheme res" where
  "loop_closure_read os me other cl t =
     (case cl of
        EventLoop_handle_read \<Rightarrow> (\<lambda>s. Inr (handle_read os s))
      | TimerQueue_handle_read \<Rightarrow> timer_handle_read os me other
      | _ \<Rightarrow> other cl)"

section \<open>Arming the descriptor\<close>

text \<open>The delay in microseconds that a \<^verbatim>\<open>timespec\<close> stands for.\<close>

definition armed_us :: "uint64 \<times> uint64 \<Rightarrow> int" where
  "armed_us p = uint (fst p) * 1000000 + uint (snd p) div 1000"

lemma sdiv_nonneg: "0 \<le> x \<Longrightarrow> x sdiv 1000 = x div (1000 :: int)"
  by (cases "x = 0") (simp_all add: signed_divide_int_def)

lemma sdiv_neg: "x < 0 \<Longrightarrow> x sdiv 1000 = - ((- x) div (1000 :: int))"
  by (simp add: signed_divide_int_def)

lemma armed_us_split:
  fixes u :: uint64
  shows "armed_us (u div 1000000, u mod 1000000 * 1000) = uint u"
    and "uint (u mod 1000000 * 1000) < 1000000000"
proof -
  have m: "uint (u mod 1000000) = uint u mod 1000000" by (simp add: uint_mod)
  have "uint u mod 1000000 < 1000000" "0 \<le> uint u mod 1000000" by simp_all
  then have n: "uint (u mod 1000000 * 1000) = uint u mod 1000000 * 1000"
    by (simp add: uint_word_ariths m take_bit_eq_mod)
  then show "armed_us (u div 1000000, u mod 1000000 * 1000) = uint u"
    by (simp add: armed_us_def uint_div)
  show "uint (u mod 1000000 * 1000) < 1000000000" using n by simp
qed

lemma how_much_time_eq:
  assumes "us = word_of_int ((ts_val t - now) sdiv 1000)"
  shows "armed_us (how_much_time_from_now t now) = max 100 (uint (us :: uint64))"
    and "uint (snd (how_much_time_from_now t now)) < 1000000000"
  using assms armed_us_split
  by (simp_all add: how_much_time_from_now_def k_micro_seconds_per_second_def Let_def
      word_less_alt max_def not_less)

lemma armed_future:
  assumes "now \<le> ts_val t" and "ts_val t - now < 2 ^ 63"
  shows "armed_us (how_much_time_from_now t now) = max 100 ((ts_val t - now) div 1000)"
proof -
  let ?d = "(ts_val t - now) div 1000"
  have "0 \<le> ?d" "?d < 2 ^ 64" using assms by simp_all
  then have "uint (word_of_int ?d :: uint64) = ?d" by (simp add: uint_word_of_int take_bit_eq_mod)
  then show ?thesis using assms(1) by (simp add: how_much_time_eq(1) [OF refl] sdiv_nonneg)
qed

lemma armed_past:
  assumes "1000 \<le> now - ts_val t" and "now - ts_val t < 2 ^ 63"
  shows "armed_us (how_much_time_from_now t now) = 2 ^ 64 - (now - ts_val t) div 1000"
proof -
  let ?p = "(now - ts_val t) div 1000"
  have p: "0 < ?p" "?p < 2 ^ 63" using assms by simp_all
  then have "(- ?p) mod 2 ^ 64 = 2 ^ 64 - ?p" by (simp add: zmod_zminus1_eq_if)
  then have "uint (word_of_int (- ?p) :: uint64) = 2 ^ 64 - ?p"
    by (simp only: uint_word_of_int take_bit_eq_mod len_num1 len_bit0 len_of_numeral_defs) simp
  then show ?thesis using assms p by (simp add: how_much_time_eq(1) [OF refl] sdiv_neg)
qed

lemma reset_timer_fd_frame [simp]:
  "timers (reset_timer_fd os fd t s) = timers s" "timer_heap (reset_timer_fd os fd t s) = timer_heap s"
  "timer_fd (reset_timer_fd os fd t s) = timer_fd s" "reactor.more (reset_timer_fd os fd t s) = reactor.more s"
  "thread_id (reset_timer_fd os fd t s) = thread_id s" "chans (reset_timer_fd os fd t s) = chans s"
  "pending_functors (reset_timer_fd os fd t s) = pending_functors s"
  "loop_poller (reset_timer_fd os fd t s) = loop_poller s"
  "syscalls (reset_timer_fd os fd t s) = syscalls s @
     [Sys_timerfd_settime fd (fst (how_much_time_from_now t (os_clock os (clock_reads s))))
                             (snd (how_much_time_from_now t (os_clock os (clock_reads s))))]"
  by (simp_all add: reset_timer_fd_def read_clock_def issue_def log_to_def split: prod.split)

lemma read_timer_fd_frame [simp]:
  "timers (read_timer_fd os fd s) = timers s" "timer_heap (read_timer_fd os fd s) = timer_heap s"
  "timer_fd (read_timer_fd os fd s) = timer_fd s" "reactor.more (read_timer_fd os fd s) = reactor.more s"
  "thread_id (read_timer_fd os fd s) = thread_id s" "clock_reads (read_timer_fd os fd s) = clock_reads s"
  "pending_functors (read_timer_fd os fd s) = pending_functors s"
  "syscalls (read_timer_fd os fd s) = syscalls s @ [Sys_read fd]"
  by (simp_all add: read_timer_fd_def issue_def log_to_def)

lemma assert_in_loop_frame [simp]:
  "timers (assert_in_loop_thread b s) = timers s" "timer_heap (assert_in_loop_thread b s) = timer_heap s"
  "timer_fd (assert_in_loop_thread b s) = timer_fd s" "syscalls (assert_in_loop_thread b s) = syscalls s"
  "thread_id (assert_in_loop_thread b s) = thread_id s" "reactor.more (assert_in_loop_thread b s) = reactor.more s"
  "clock_reads (assert_in_loop_thread b s) = clock_reads s"
  "pending_functors (assert_in_loop_thread b s) = pending_functors s"
  by (simp_all add: assert_in_loop_thread_def log_to_def)

section \<open>The invariant of the queue\<close>

text \<open>
  The entries are sorted, no timer is queued twice, and the key of an entry is the valid
  expiration of its timer.
\<close>

definition entry_ok :: "(addr \<rightharpoonup> 'c timer) \<Rightarrow> timestamp \<times> addr \<Rightarrow> bool" where
  "entry_ok h e \<longleftrightarrow> ts_valid (fst e) \<and> (\<exists>t. h (snd e) = Some t \<and> expiration t = fst e)"

definition timers_inv :: "('u, 'z) reactor_scheme \<Rightarrow> bool" where
  "timers_inv s \<longleftrightarrow> key_sorted (timers s) \<and> distinct (map snd (timers s)) \<and>
     list_all (entry_ok (timer_heap s)) (timers s)"

abbreviation queued :: "('u, 'z) reactor_scheme \<Rightarrow> addr set" where
  "queued s \<equiv> snd ` set (timers s)"

lemma mset_eq_distinct_map: "mset xs = mset ys \<Longrightarrow> distinct (map f xs) = distinct (map f ys)"
  by (metis mset_eq_imp_distinct_iff mset_map)

lemma entries_inserted:
  assumes "key_sorted m" and "distinct (map snd m)" and "list_all (entry_ok h) m"
    and "distinct (map snd es)" and "list_all (entry_ok h') es"
    and "snd ` set es \<inter> snd ` set m = {}" and "\<And>a. a \<in> snd ` set m \<Longrightarrow> h' a = h a"
  shows "key_sorted (tl.ins_all es m) \<and> distinct (map snd (tl.ins_all es m)) \<and>
    list_all (entry_ok h') (tl.ins_all es m)"
proof -
  have facts: "key_sorted (tl.ins_all es m)" "mset (tl.ins_all es m) = mset (m @ es)"
    using tl.ins_all_facts [of m es] assms(1) by auto
  have "distinct (map snd (m @ es))" using assms by auto
  then have "distinct (map snd (tl.ins_all es m))"
    using mset_eq_distinct_map [OF facts(2), of snd] by blast
  moreover have "list_all (entry_ok h') (tl.ins_all es m)"
  proof -
    have "entry_ok h' e" if "e \<in> set m" for e
      using assms(3) assms(7) [of "snd e"] that by (auto simp: list_all_iff entry_ok_def)
    with assms(5) mset_eq_setD [OF facts(2)] show ?thesis by (auto simp: list_all_iff)
  qed
  ultimately show ?thesis using facts(1) by blast
qed

lemma timer_insert_eq:
  "timer_heap s a = Some t \<Longrightarrow>
   timer_insert a s = Inr (timers s = [] \<or> expiration t < fst (hd (timers s)),
     s\<lparr>timers := tl.ins_all [(expiration t, a)] (timers s)\<rparr>)"
  by (simp add: timer_insert_def Let_def)

lemma head_is_least:
  assumes "key_sorted m"
  shows "(m = [] \<or> k < fst (hd m)) \<longleftrightarrow> (\<forall>e \<in> set m. k < fst e)"
  using assms by (cases m) (auto simp: key_sorted_def timestamp_order)

section \<open>A turn of the timers\<close>

text \<open>The entries that the repeating ones among the expired entries are queued again with.\<close>

definition renewals ::
  "os \<Rightarrow> timestamp \<Rightarrow> (addr \<rightharpoonup> 'c timer) \<Rightarrow> (timestamp \<times> addr) list \<Rightarrow> (timestamp \<times> addr) list" where
  "renewals os now h es =
     concat (map (\<lambda>e. case h (snd e) of None \<Rightarrow> []
       | Some t \<Rightarrow> if repeat t then [(projr (add_time (os_round os) now (interval t)), snd e)] else []) es)"

lemma renewals_snd: "snd ` set (renewals os now h es) \<subseteq> snd ` set es"
  by (force simp: renewals_def split: option.splits if_splits)

lemma renewals_distinct: "distinct (map snd es) \<Longrightarrow> distinct (map snd (renewals os now h es))"
proof (induction es)
  case (Cons e es)
  then show ?case using renewals_snd [of os now h es]
    by (auto simp: renewals_def split: option.splits)
qed (simp add: renewals_def)

lemma renewals_cong:
  "(\<And>e. e \<in> set es \<Longrightarrow> h (snd e) = h' (snd e)) \<Longrightarrow> renewals os now h es = renewals os now h' es"
  by (induction es) (auto simp: renewals_def)

text \<open>A timer whose restart does not leave the range of \<^verbatim>\<open>int\<close> microseconds.\<close>

definition renewable :: "os \<Rightarrow> timestamp \<Rightarrow> 'c timer \<Rightarrow> bool" where
  "renewable os now t \<longleftrightarrow> repeat t \<longrightarrow> (\<exists>e. add_time (os_round os) now (interval t) = Inr e)"

lemma add_time_valid: "add_time r now x = Inr e \<Longrightarrow> ts_valid e"
  by (auto simp: add_time_def timestamp_at_def)

lemma fold_reset_entry:
  assumes "distinct (map snd es)"
    and "\<And>e. e \<in> set es \<Longrightarrow> \<exists>t. timer_heap s (snd e) = Some t \<and> renewable os now t"
  shows "\<exists>h. fold_res (reset_entry os now) es s =
      Inr (s\<lparr>timer_heap := h, timers := tl.ins_all (renewals os now (timer_heap s) es) (timers s)\<rparr>) \<and>
    (\<forall>a. a \<notin> snd ` set es \<longrightarrow> h a = timer_heap s a) \<and>
    list_all (entry_ok h) (renewals os now (timer_heap s) es)"
  using assms
proof (induction es arbitrary: s)
  case Nil
  show ?case by (rule exI [of _ "timer_heap s"]) (simp add: renewals_def)
next
  case (Cons e es)
  from Cons.prems(2) [of e] obtain t where t: "timer_heap s (snd e) = Some t" "renewable os now t" by auto
  show ?case
  proof (cases "repeat t")
    case False
    have "reset_entry os now e s = Inr s" using t(1) False by (simp add: reset_entry_def)
    moreover have "renewals os now (timer_heap s) (e # es) = renewals os now (timer_heap s) es"
      using t(1) False by (simp add: renewals_def)
    ultimately show ?thesis using Cons.IH [of s] Cons.prems by auto
  next
    case True
    with t(2) obtain x where x: "add_time (os_round os) now (interval t) = Inr x"
      by (auto simp: renewable_def)
    let ?h = "(timer_heap s)(snd e \<mapsto> t\<lparr>expiration := x\<rparr>)"
    let ?s = "s\<lparr>timer_heap := ?h, timers := tl.ins_all [(x, snd e)] (timers s)\<rparr>"
    have step: "reset_entry os now e s = Inr ?s"
      using t(1) True x by (simp add: reset_entry_def restart_def timer_insert_def Let_def)
    have new: "renewals os now (timer_heap s) (e # es) = (x, snd e) # renewals os now (timer_heap s) es"
      using t(1) True x by (simp add: renewals_def)
    have other: "?h (snd f) = timer_heap s (snd f)" if "f \<in> set es" for f
      using that Cons.prems(1) by (auto simp: image_iff)
    have same: "renewals os now ?h es = renewals os now (timer_heap s) es"
      using other by (rule renewals_cong)
    from Cons.IH [of ?s] Cons.prems other obtain h where
      h: "fold_res (reset_entry os now) es ?s =
          Inr (?s\<lparr>timer_heap := h, timers := tl.ins_all (renewals os now ?h es) (timers ?s)\<rparr>)"
        "\<forall>a. a \<notin> snd ` set es \<longrightarrow> h a = ?h a" "list_all (entry_ok h) (renewals os now ?h es)"
      by fastforce
    have "entry_ok h (x, snd e)"
      using h(2) Cons.prems(1) add_time_valid [OF x] by (auto simp: entry_ok_def)
    with h step new same show ?thesis by (intro exI [of _ h]) simp
  qed
qed

lemma get_expired_eq:
  assumes "key_sorted (timers s)"
  shows "get_expired now s =
    (if \<exists>e \<in> set (timers s). same_key now e then Inl Assert_failed
     else Inr (filter (\<lambda>e. fst e < now) (timers s), s\<lparr>timers := filter (\<lambda>e. \<not> fst e < now) (timers s)\<rparr>))"
proof -
  let ?rest = "filter (\<lambda>e. \<not> fst e < now) (timers s)"
  have "key_sorted ?rest" using assms by (simp add: key_sorted_def sorted_filter)
  from head_is_least [OF this, of now]
  have "(?rest = [] \<or> now < fst (hd ?rest)) \<longleftrightarrow> \<not> (\<exists>e \<in> set (timers s). same_key now e)"
    by (auto simp: same_key_def timestamp_order)
  with tl.lower_take [OF assms, of now] tl.lower_drop [OF assms, of now] show ?thesis
    by (simp add: get_expired_def Let_def cpp_assert_def del: drop_eq_Nil drop_eq_Nil2)
qed

lemma queue_in_loop_timers [simp]:
  "timer_fd (queue_in_loop os me c s) = timer_fd s" "clock_reads (queue_in_loop os me c s) = clock_reads s"
  by (simp_all add: queue_in_loop_def wakeup_def issue_def log_to_def Let_def)

lemma queue_all_timers [simp]:
  "timers (queue_all os me cs s) = timers s" "timer_heap (queue_all os me cs s) = timer_heap s"
  "timer_fd (queue_all os me cs s) = timer_fd s" "clock_reads (queue_all os me cs s) = clock_reads s"
  by (induction cs arbitrary: s) simp_all

lemma fold_run_timer:
  "(\<And>e. e \<in> set es \<Longrightarrow> timer_heap s (snd e) \<noteq> None) \<Longrightarrow>
   \<exists>t. fold_res (run_timer (traced_run os me spawn)) es s = Inr t \<and>
       ran t = ran s @ map (\<lambda>e. callback (the (timer_heap s (snd e)))) es \<and>
       timers t = timers s \<and> timer_heap t = timer_heap s \<and> timer_fd t = timer_fd s \<and>
       clock_reads t = clock_reads s"
proof (induction es arbitrary: s)
  case (Cons e es)
  from Cons.prems [of e] obtain x where x: "timer_heap s (snd e) = Some x" by auto
  let ?s = "queue_all os me (spawn (callback x)) (s\<lparr>ran := ran s @ [callback x]\<rparr>)"
  have step: "run_timer (traced_run os me spawn) e s = Inr ?s"
    by (simp add: run_timer_def traced_run_def x)
  have "timer_heap ?s (snd f) \<noteq> None" if "f \<in> set es" for f
    using that Cons.prems by simp
  from Cons.IH [OF this] obtain t where t: "fold_res (run_timer (traced_run os me spawn)) es ?s = Inr t"
    "ran t = ran ?s @ map (\<lambda>e. callback (the (timer_heap ?s (snd e)))) es" "timers t = timers ?s"
    "timer_heap t = timer_heap ?s" "timer_fd t = timer_fd ?s" "clock_reads t = clock_reads ?s"
    by blast
  show ?case by (rule exI [of _ t]) (simp add: step t x)
qed simp

text \<open>The end of \<^verbatim>\<open>reset\<close>: the descriptor is armed for the first timer.\<close>

definition rearmed :: "os \<Rightarrow> ('u, 'z) reactor_scheme \<Rightarrow> ('u, 'z) reactor_scheme" where
  "rearmed os s = (if timers s = [] then s else reset_timer_fd os (timer_fd s) (fst (hd (timers s))) s)"

lemma rearmed_frame [simp]: "timers (rearmed os s) = timers s" "timer_heap (rearmed os s) = timer_heap s"
  "reactor.more (rearmed os s) = reactor.more s"
  by (simp_all add: rearmed_def)

lemma reset_timers_eq:
  assumes "fold_res (reset_entry os now) es s = Inr t" and "timers_inv t"
  shows "reset_timers os es now s = Inr (rearmed os t)"
proof (cases "timers t")
  case Nil
  then show ?thesis using assms(1) by (simp add: reset_timers_def rearmed_def invalid_timestamp_def)
next
  case (Cons e m)
  with assms(2) have "entry_ok (timer_heap t) e" by (simp add: timers_inv_def)
  with Cons assms(1) show ?thesis by (auto simp: reset_timers_def rearmed_def entry_ok_def)
qed

lemma reset_timers_ok:
  assumes inv: "timers_inv s" and new: "distinct (map snd es)" "snd ` set es \<inter> queued s = {}"
    and heap: "\<And>e. e \<in> set es \<Longrightarrow> \<exists>t. timer_heap s (snd e) = Some t \<and> renewable os now t"
  shows "\<exists>t. reset_timers os es now s = Inr (rearmed os t) \<and> timers_inv t \<and>
    timers t = sort_key (\<lambda>e. ts_val (fst e)) (timers s @ renewals os now (timer_heap s) es) \<and>
    timer_fd t = timer_fd s \<and> clock_reads t = clock_reads s \<and> reactor.more t = reactor.more s"
proof -
  let ?new = "renewals os now (timer_heap s) es"
  from fold_reset_entry [OF new(1) heap] obtain h where
    h: "fold_res (reset_entry os now) es s = Inr (s\<lparr>timer_heap := h, timers := tl.ins_all ?new (timers s)\<rparr>)"
      "\<And>a. a \<notin> snd ` set es \<Longrightarrow> h a = timer_heap s a" "list_all (entry_ok h) ?new"
    by auto
  have "timers_inv (s\<lparr>timer_heap := h, timers := tl.ins_all ?new (timers s)\<rparr>)"
  proof -
    have "snd ` set ?new \<inter> queued s = {}" using renewals_snd [of os now "timer_heap s" es] new(2) by blast
    moreover have "h a = timer_heap s a" if "a \<in> queued s" for a using that new(2) h(2) by blast
    ultimately show ?thesis
      using inv entries_inserted [of "timers s" "timer_heap s" ?new h]
        renewals_distinct [OF new(1), of os now "timer_heap s"] h(3)
      by (simp add: timers_inv_def)
  qed
  note t = this reset_timers_eq [OF h(1) this]
  have "tl.ins_all ?new (timers s) = sort_key (\<lambda>e. ts_val (fst e)) (timers s @ ?new)"
    using tl.ins_all_sort [of "timers s" ?new] inv by (simp add: timers_inv_def)
  with t show ?thesis
    by (intro exI [of _ "s\<lparr>timer_heap := h, timers := tl.ins_all ?new (timers s)\<rparr>"] conjI) simp_all
qed

text \<open>The clock reading \<^verbatim>\<open>handle_read\<close> takes as the current time.\<close>

definition time_now :: "os \<Rightarrow> ('z) world_scheme \<Rightarrow> timestamp" where
  "time_now os s = timestamp_at (os_clock os (clock_reads s))"

lemma timers_inv_filter:
  "timers_inv s \<Longrightarrow> key_sorted (filter P (timers s)) \<and> distinct (map snd (filter P (timers s))) \<and>
   list_all (entry_ok (timer_heap s)) (filter P (timers s))"
  by (simp add: timers_inv_def key_sorted_def sorted_filter distinct_map_filter list_all_iff)

lemma timer_handle_read_ok:
  assumes inv: "timers_inv s" and fresh: "\<not> (\<exists>e \<in> set (timers s). same_key (time_now os s) e)"
    and renew: "\<And>a t. timer_heap s a = Some t \<Longrightarrow> renewable os (time_now os s) t"
    and expired: "expired = filter (\<lambda>e. fst e < time_now os s) (timers s)"
  shows "\<exists>t. timer_handle_read os me (traced_run os me spawn) s = Inr (rearmed os t) \<and> timers_inv t \<and>
    ran t = ran s @ map (\<lambda>e. callback (the (timer_heap s (snd e)))) expired \<and>
    timers t = sort_key (\<lambda>e. ts_val (fst e))
      (filter (\<lambda>e. \<not> fst e < time_now os s) (timers s) @ renewals os (time_now os s) (timer_heap s) expired) \<and>
    timer_fd t = timer_fd s \<and> clock_reads t = Suc (clock_reads s)"
proof -
  let ?now = "time_now os s" and ?rest = "filter (\<lambda>e. \<not> fst e < time_now os s) (timers s)"
  let ?s1 = "snd (read_clock (os_clock os) (assert_in_loop_thread (is_in_loop_thread me s) s))"
  let ?s2 = "read_timer_fd os (timer_fd ?s1) ?s1" and ?s3 = "read_timer_fd os (timer_fd ?s1) ?s1\<lparr>timers := ?rest\<rparr>"
  have s1: "timers ?s1 = timers s" "timer_heap ?s1 = timer_heap s" "timer_fd ?s1 = timer_fd s"
    "clock_reads ?s1 = Suc (clock_reads s)" "ran ?s1 = ran s"
    by (simp_all add: read_clock_def assert_in_loop_thread_def log_to_def)
  have s3: "ran ?s3 = ran s" using s1(5) by (simp add: read_timer_fd_def issue_def log_to_def)
  have get: "get_expired ?now ?s2 = Inr (expired, ?s3)"
    using get_expired_eq [of ?s2 ?now] inv fresh s1(1) expired by (simp add: timers_inv_def)
  have live: "\<exists>t. timer_heap s (snd e) = Some t" if "e \<in> set expired" for e
    using that inv expired by (auto simp: timers_inv_def list_all_iff entry_ok_def)
  obtain s4 where s4: "fold_res (run_timer (traced_run os me spawn)) expired ?s3 = Inr s4"
    "ran s4 = ran s @ map (\<lambda>e. callback (the (timer_heap s (snd e)))) expired" "timers s4 = ?rest"
    "timer_heap s4 = timer_heap s" "timer_fd s4 = timer_fd s" "clock_reads s4 = Suc (clock_reads s)"
    using fold_run_timer [of expired ?s3 os me spawn] live s1 s3 by fastforce
  have inv4: "timers_inv s4" using timers_inv_filter [OF inv] s4 by (simp add: timers_inv_def)
  have disj: "distinct (map snd expired)" "snd ` set expired \<inter> queued s4 = {}"
  proof -
    show "distinct (map snd expired)" using timers_inv_filter [OF inv] expired by simp
    have "inj_on snd (set (timers s))" using inv by (simp add: timers_inv_def distinct_map)
    then show "snd ` set expired \<inter> queued s4 = {}"
      using expired s4(3) by (auto simp: timestamp_order dest: inj_onD)
  qed
  have ren: "\<exists>t. timer_heap s4 (snd e) = Some t \<and> renewable os ?now t" if "e \<in> set expired" for e
    using live [OF that] renew s4(4) by auto
  from reset_timers_ok [OF inv4 disj ren] obtain t where
    t: "reset_timers os expired ?now s4 = Inr (rearmed os t)" "timers_inv t"
      "timers t = sort_key (\<lambda>e. ts_val (fst e)) (timers s4 @ renewals os ?now (timer_heap s4) expired)"
      "timer_fd t = timer_fd s4" "clock_reads t = clock_reads s4" "reactor.more t = reactor.more s4"
    by blast
  have "timer_handle_read os me (traced_run os me spawn) s = Inr (rearmed os t)"
    using get s4(1) t(1) by (simp add: timer_handle_read_def Let_def read_clock_def time_now_def)
  with t s4 ran_more [OF t(6)] show ?thesis by auto
qed

section \<open>Construction of a loop\<close>

definition create_event_fd :: "int \<Rightarrow> ('z) world_scheme \<Rightarrow> (int \<times> ('z) world_scheme) res" where
  "create_event_fd r s = (if r < 0 then Inl Aborted else Inr (r, s))"

definition newDefaultPoller :: "bool \<Rightarrow> int \<Rightarrow> ('z) world_scheme \<Rightarrow> poller_impl \<times> ('z) world_scheme" where
  "newDefaultPoller use_poll epfd s =
     (if use_poll then (Use_poll Poller_ctor, s)
      else (case Epoller_ctor epfd s of (e, s1) \<Rightarrow> (Use_epoll e, s1)))"

text \<open>
  What a constructor finds outside: whether \<^verbatim>\<open>I_USE_POLL\<close> is set, whether the thread already
  has a loop (\<^verbatim>\<open>t_loop_in_this_thread\<close>), the descriptors of \<^verbatim>\<open>epoll_create1\<close>,
  \<^verbatim>\<open>timerfd_create\<close> and \<^verbatim>\<open>eventfd\<close>, and the addresses of the two channels.
\<close>

record environment =
  env_use_poll :: bool
  env_other_loop :: bool
  env_epoll_fd :: int
  env_timer_fd :: int
  env_event_fd :: int
  env_timer_channel :: addr
  env_wakeup_channel :: addr

definition EventLoop_ctor ::
  "os \<Rightarrow> environment \<Rightarrow> nat \<Rightarrow> 'u closure heap \<Rightarrow> 'u reactor res" where
  "EventLoop_ctor os env me h =
     (case newDefaultPoller (env_use_poll env) (env_epoll_fd env) h of (p, h1) \<Rightarrow>
      let s0 = \<lparr>logs = logs h1, clock_reads = clock_reads h1, chans = chans h1,
        syscalls = [], looping = False, quit_flag = False, calling_pending_functors = False,
        thread_id = me, loop_poller = p, wakeup_fd = -1, active_channels = [], pending_functors = [],
        poll_return_time = invalid_timestamp, timer_fd = -1, timer_heap = Map.empty, timers = []\<rparr> in
      andthen (TimerQueue_ctor os me (env_timer_fd env) (env_timer_channel env) s0) (\<lambda>s1.
      andthen (create_event_fd (env_event_fd env) s1) (\<lambda>(fd, s2).
        let s3 = put_chan (env_wakeup_channel env) (Channel_ctor this_loop fd) (s2\<lparr>wakeup_fd := fd\<rparr>);
            s4 = (if env_other_loop env then log_to LOG_FATAL s3 else s3) in
        andthen (modify_chan (env_wakeup_channel env)
                   (set_read_callback (Some EventLoop_handle_read)) s4)
          (channel_change os me Enable_reading (env_wakeup_channel env)))))"

text \<open>
  The destructors, in the order they run: the body, then the members in reverse order of their declaration, that is the wake-up
  channel, the timer queue and the poller.
\<close>

definition Epoller_dtor :: "os \<Rightarrow> epoller \<Rightarrow> ('u, 'z) reactor_scheme \<Rightarrow> ('u, 'z) reactor_scheme" where
  "Epoller_dtor os p s = snd (issue os (Sys_close (epoll_fd p)) s)"

definition poller_dtor :: "os \<Rightarrow> poller_impl \<Rightarrow> ('u, 'z) reactor_scheme \<Rightarrow> ('u, 'z) reactor_scheme" where
  "poller_dtor os p s = (case p of Use_poll q \<Rightarrow> s | Use_epoll q \<Rightarrow> Epoller_dtor os q s)"

definition EventLoop_dtor :: "os \<Rightarrow> environment \<Rightarrow> ('u, 'z) reactor_scheme \<Rightarrow> ('u, 'z) reactor_scheme res" where
  "EventLoop_dtor os env s =
     cpp_assert (\<not> looping s)
       (andthen (destroy_chan (env_wakeup_channel env) (snd (issue os (Sys_close (wakeup_fd s)) s))) (\<lambda>s1.
        andthen (TimerQueue_dtor os (env_timer_channel env) s1) (\<lambda>s2.
        Inr (poller_dtor os (loop_poller s2) s2))))"

text \<open>
  The thread-local \<^verbatim>\<open>t_loop_in_this_thread\<close>, as a map from threads: the constructor stores the new loop \<open>a\<close> unless there is one
  already, the destructor stores null.
\<close>

type_synonym thread_loops = "nat \<rightharpoonup> addr"

definition loop_create ::
  "os \<Rightarrow> environment \<Rightarrow> nat \<Rightarrow> addr \<Rightarrow> thread_loops \<Rightarrow> 'u closure heap \<Rightarrow> ('u reactor \<times> thread_loops) res" where
  "loop_create os env me a loops h =
     map_sum id (\<lambda>s. (s, if loops me \<noteq> None then loops else loops(me \<mapsto> a)))
       (EventLoop_ctor os (env\<lparr>env_other_loop := loops me \<noteq> None\<rparr>) me h)"

definition loop_destroy ::
  "os \<Rightarrow> environment \<Rightarrow> nat \<Rightarrow> ('u, 'z) reactor_scheme \<times> thread_loops \<Rightarrow> (('u, 'z) reactor_scheme \<times> thread_loops) res" where
  "loop_destroy os env me p = map_sum id (\<lambda>s. (s, (snd p)(me := None))) (EventLoop_dtor os env (fst p))"

definition get_event_loop_of_current_thread :: "nat \<Rightarrow> thread_loops \<Rightarrow> addr option" where
  "get_event_loop_of_current_thread me loops = loops me"

definition fresh_env :: "environment \<Rightarrow> bool" where
  "fresh_env env \<longleftrightarrow> 0 \<le> env_timer_fd env \<and> 0 \<le> env_event_fd env \<and>
     env_timer_fd env \<noteq> env_event_fd env \<and> env_timer_channel env \<noteq> env_wakeup_channel env"

lemma read_event_not_none: "k_read_event OR e \<noteq> k_none_event"
proof -
  have "bit (k_read_event OR e) 0" by (simp add: k_read_event_def poll_masks bit_simps)
  moreover have "\<not> bit k_none_event 0" by (simp add: k_none_event_def)
  ultimately show ?thesis by metis
qed

lemma enable_reading_new:
  assumes "loop_inv s" and "chans s a = Some ch" and "owner_loop ch = this_loop"
    and "ch_index ch = -1" and "0 \<le> ch_fd ch" and "registered s (ch_fd ch) = None"
  shows "\<exists>s'. channel_change os me Enable_reading a s = Inr s' \<and> loop_inv s' \<and>
    registered s' = (registered s)(ch_fd ch \<mapsto> a) \<and>
    same_but_poller (put_chan a (ch\<lparr>ch_events := change_events Enable_reading (ch_events ch)\<rparr>) s) s'"
  using assms read_event_not_none [of "ch_events ch"]
  by (intro channel_change_ok) (simp_all add: changeable_def or.commute)

text \<open>A channel that waits for reading and calls \<open>c\<close>.\<close>

definition reads_with :: "'c \<Rightarrow> int \<Rightarrow> 'c channel \<Rightarrow> bool" where
  "reads_with c fd ch \<longleftrightarrow> owner_loop ch = this_loop \<and> ch_fd ch = fd \<and> ch_events ch = k_read_event \<and>
     read_callback ch = Some c \<and> write_callback ch = None \<and> error_callback ch = None \<and> close_callback ch = None \<and>
     \<not> event_handling ch"

lemma reads_with_index [simp]: "reads_with c fd (ch\<lparr>ch_index := i\<rparr>) = reads_with c fd ch"
  by (simp add: reads_with_def)

text \<open>Adding a channel to a loop at an address where no registered channel lives.\<close>

lemma enable_reading_fresh:
  assumes inv: "loop_inv s" and a: "\<And>fd. registered s fd \<noteq> Some a"
    and fd: "0 \<le> fd" "registered s fd = None"
  shows "\<exists>s'. channel_change os me Enable_reading a
      (put_chan a ((Channel_ctor this_loop fd)\<lparr>read_callback := Some c\<rparr>) s) = Inr s' \<and> loop_inv s' \<and>
    registered s' = (registered s)(fd \<mapsto> a) \<and> (\<exists>ch. chans s' a = Some ch \<and> reads_with c fd ch) \<and>
    (\<exists>x. same_but_poller (put_chan a x s) s')"
proof -
  let ?ch = "(Channel_ctor this_loop fd)\<lparr>read_callback := Some c\<rparr>"
  let ?x = "?ch\<lparr>ch_events := change_events Enable_reading (ch_events ?ch)\<rparr>"
  have "loop_inv (put_chan a ?ch s)" using inv a by (intro loop_inv_agree [OF inv]) auto
  from enable_reading_new [OF this, of a ?ch os me] fd obtain s' where
    s': "channel_change os me Enable_reading a (put_chan a ?ch s) = Inr s'" "loop_inv s'"
      "registered s' = (registered s)(fd \<mapsto> a)" "same_but_poller (put_chan a ?x s) s'"
    by (auto simp: Channel_ctor_def registered_def)
  from same_but_poller_chan [OF s'(4), of a ?x] have "\<exists>ch. chans s' a = Some ch \<and> reads_with c fd ch"
    by (auto simp: reads_with_def Channel_ctor_def)
  with s' show ?thesis by blast
qed

lemma same_but_poller_other:
  assumes "same_but_poller (put_chan b x s) s'" and "a \<noteq> b" and "chans s a = Some ch" and "reads_with c fd ch"
  shows "\<exists>ch'. chans s' a = Some ch' \<and> reads_with c fd ch'"
  using same_but_poller_chan [OF assms(1), of a ch] assms(2-) by auto

lemma put_chan_reactor_frame [simp]:
  "timers (put_chan a x s) = timers s" "timer_heap (put_chan a x s) = timer_heap s"
  "timer_fd (put_chan a x s) = timer_fd s" "looping (put_chan a x s) = looping s"
  "quit_flag (put_chan a x s) = quit_flag s" "wakeup_fd (put_chan a x s) = wakeup_fd s"
  "syscalls (put_chan a x s) = syscalls s"
  by (simp_all add: put_chan_def)

text \<open>The descriptor of the poller itself, which no operation changes.\<close>

definition impl_fd :: "poller_impl \<Rightarrow> int option" where
  "impl_fd p = (case p of Use_poll q \<Rightarrow> None | Use_epoll q \<Rightarrow> Some (epoll_fd q))"

lemma impl_fd_simps [simp]: "impl_fd (Use_poll q) = None" "impl_fd (Use_epoll r) = Some (epoll_fd r)"
  by (simp_all add: impl_fd_def)

lemma epoll_update_fd: "epoll_update ctl op a (p, s) = Inr (p', s') \<Longrightarrow> epoll_fd p' = epoll_fd p"
  by (auto simp: epoll_update_def case_prod_beta Let_def)

lemma epoll_update_channel_fd: "epoll_update_channel ctl il a (p, s) = Inr (p', s') \<Longrightarrow> epoll_fd p' = epoll_fd p"
  by (auto simp: epoll_update_channel_def Let_def cpp_assert_def split: if_splits dest!: epoll_update_fd)

lemma channel_change_fd:
  assumes "channel_change os me op a s = Inr s'"
  shows "impl_fd (loop_poller s') = impl_fd (loop_poller s)"
proof -
  from assms obtain x where x: "loop_update_channel os me a (put_chan a x s) = Inr s'"
    by (auto simp: channel_change_def modify_chan_def)
  define u where "u = put_chan a x s"
  have "loop_poller u = loop_poller s" by (simp add: u_def)
  with x [folded u_def] obtain p h where "poller_update_channel (os_epoll_ctl os) (is_in_loop_thread me u) a
      (loop_poller s, assert_in_loop_thread (is_in_loop_thread me u) u) = Inr (p, h)" "s' = h\<lparr>loop_poller := p\<rparr>"
    by (auto simp: loop_update_channel_def Let_def assert_in_loop_thread_def log_to_def split: if_splits)
  then show ?thesis
    by (cases "loop_poller s")
      (auto simp: poller_update_channel_def map_sum_def split: sum.splits, drule epoll_update_channel_fd, simp)
qed

lemma newDefaultPoller_inv:
  "newDefaultPoller u fd h = (p, h1) \<Longrightarrow>
   impl_inv p t \<and> impl_reg p = Map.empty \<and> impl_fd p = (if u then None else Some fd)"
  by (auto simp: newDefaultPoller_def Epoller_ctor_def Poller_ctor_def poll_inv_def ep_inv_def
      split: if_splits prod.splits)

lemma EventLoop_ctor_ok:
  assumes "fresh_env env"
  shows "\<exists>s. EventLoop_ctor os env me h = Inr s \<and> loop_inv s \<and> timers_inv s \<and>
    registered s = [env_timer_fd env \<mapsto> env_timer_channel env, env_event_fd env \<mapsto> env_wakeup_channel env] \<and>
    (\<exists>ch. chans s (env_timer_channel env) = Some ch \<and> reads_with TimerQueue_handle_read (env_timer_fd env) ch) \<and>
    (\<exists>ch. chans s (env_wakeup_channel env) = Some ch \<and> reads_with EventLoop_handle_read (env_event_fd env) ch) \<and>
    thread_id s = me \<and> \<not> looping s \<and> \<not> quit_flag s \<and> pending_functors s = [] \<and>
    timer_fd s = env_timer_fd env \<and> wakeup_fd s = env_event_fd env \<and> syscalls s = [] \<and>
    impl_fd (loop_poller s) = (if env_use_poll env then None else Some (env_epoll_fd env)) \<and> timers s = []"
proof -
  obtain p h1 where p: "newDefaultPoller (env_use_poll env) (env_epoll_fd env) h = (p, h1)" by fastforce
  define s0 :: "'a reactor" where "s0 = \<lparr>logs = logs h1, clock_reads = clock_reads h1, chans = chans h1,
    syscalls = [], looping = False, quit_flag = False, calling_pending_functors = False,
    thread_id = me, loop_poller = p, wakeup_fd = -1, active_channels = [], pending_functors = [],
    poll_return_time = invalid_timestamp, timer_fd = -1, timer_heap = Map.empty, timers = []\<rparr>"
  let ?t = "env_timer_channel env" and ?w = "env_wakeup_channel env"
  let ?tfd = "env_timer_fd env" and ?efd = "env_event_fd env"
  let ?s0 = "s0\<lparr>timer_fd := ?tfd, timers := []\<rparr>"
  have env: "0 \<le> ?tfd" "0 \<le> ?efd" "?tfd \<noteq> ?efd" "?t \<noteq> ?w" using assms by (simp_all add: fresh_env_def)
  have "loop_inv ?s0" "registered ?s0 = Map.empty"
    using newDefaultPoller_inv [OF p, of ?s0] by (simp_all add: loop_inv_def registered_def s0_def)
  from enable_reading_fresh [OF this(1), of ?t ?tfd os me TimerQueue_handle_read] this(2) env
  obtain s1 x where s1: "channel_change os me Enable_reading ?t
      (put_chan ?t ((Channel_ctor this_loop ?tfd)\<lparr>read_callback := Some TimerQueue_handle_read\<rparr>) ?s0) = Inr s1"
      "loop_inv s1" "registered s1 = [?tfd \<mapsto> ?t]" "same_but_poller (put_chan ?t x ?s0) s1"
      "\<exists>ch. chans s1 ?t = Some ch \<and> reads_with TimerQueue_handle_read ?tfd ch"
    by auto
  define s2 where "s2 = (if env_other_loop env then log_to LOG_FATAL (s1\<lparr>wakeup_fd := ?efd\<rparr>) else s1\<lparr>wakeup_fd := ?efd\<rparr>)"
  have s2: "chans s2 = chans s1" "loop_poller s2 = loop_poller s1" "wakeup_fd s2 = ?efd" "timers s2 = timers s1"
    "timer_heap s2 = timer_heap s1" "thread_id s2 = thread_id s1" "looping s2 = looping s1"
    "quit_flag s2 = quit_flag s1" "pending_functors s2 = pending_functors s1" "timer_fd s2 = timer_fd s1"
    "syscalls s2 = syscalls s1"
    by (simp_all add: s2_def log_to_def)
  have inv2: "loop_inv s2" using s2 by (auto intro: loop_inv_agree [OF s1(2)])
  have reg2: "registered s2 = [?tfd \<mapsto> ?t]" using s1(3) s2(2) by (simp add: registered_def)
  then have new: "\<And>fd. registered s2 fd \<noteq> Some ?w" "registered s2 ?efd = None" using env by auto
  from enable_reading_fresh [OF inv2 new(1) env(2) new(2), of os me EventLoop_handle_read]
  obtain s3 y where s3: "channel_change os me Enable_reading ?w
      (put_chan ?w ((Channel_ctor this_loop ?efd)\<lparr>read_callback := Some EventLoop_handle_read\<rparr>) s2) = Inr s3"
      "loop_inv s3" "registered s3 = (registered s2)(?efd \<mapsto> ?w)" "same_but_poller (put_chan ?w y s2) s3"
      "\<exists>ch. chans s3 ?w = Some ch \<and> reads_with EventLoop_handle_read ?efd ch"
    by blast
  have result: "EventLoop_ctor os env me h = Inr s3"
  proof -
    have "modify_chan ?w (set_read_callback (Some EventLoop_handle_read))
        (if env_other_loop env then log_to LOG_FATAL (put_chan ?w (Channel_ctor this_loop ?efd) (s1\<lparr>wakeup_fd := ?efd\<rparr>))
         else put_chan ?w (Channel_ctor this_loop ?efd) (s1\<lparr>wakeup_fd := ?efd\<rparr>)) =
      Inr (put_chan ?w ((Channel_ctor this_loop ?efd)\<lparr>read_callback := Some EventLoop_handle_read\<rparr>) s2)"
      by (simp add: s2_def modify_chan_def deref_def log_to_def put_chan_def)
    moreover have "TimerQueue_ctor os me ?tfd ?t s0 = Inr s1"
      using s1(1) env(1) by (simp add: TimerQueue_ctor_def create_timer_fd_def)
    moreover have "create_event_fd ?efd s1 = Inr (?efd, s1)" using env(2) by (simp add: create_event_fd_def)
    ultimately show ?thesis
      unfolding EventLoop_ctor_def p prod.case Let_def s0_def [symmetric] by (simp only: andthen_simps prod.case s3(1))
  qed
  have timer_chan: "\<exists>ch. chans s3 ?t = Some ch \<and> reads_with TimerQueue_handle_read ?tfd ch"
    using s1(5) same_but_poller_other [OF s3(4) env(4)] s2(1) by auto
  note frames = same_but_pollerD [OF s1(4)] same_but_pollerD [OF s3(4)] s2
  have "timers_inv s3" using frames by (simp add: timers_inv_def key_sorted_def s0_def)
  moreover have "impl_fd (loop_poller s3) = impl_fd (loop_poller s0)"
    using channel_change_fd [OF s1(1)] channel_change_fd [OF s3(1)] s2(2) by (simp add: put_chan_def)
  then have "impl_fd (loop_poller s3) = (if env_use_poll env then None else Some (env_epoll_fd env))"
    using newDefaultPoller_inv [OF p, of s0] by (simp add: s0_def)
  ultimately show ?thesis using result timer_chan s3 reg2 frames by (simp add: s0_def)
qed

section \<open>Cancelling\<close>

lemma find_entry:
  assumes "distinct (map snd m)" and "(k, a) \<in> set m"
  shows "find (\<lambda>e. snd e = a) m = Some (k, a)"
  using assms by (induction m) force+

lemma cancel_in_loop_eq:
  assumes "timers_inv s" and "(k, a) \<in> set (timers s)"
  shows "cancel_in_loop (Some a) s = s\<lparr>timers := filter (\<lambda>e. \<not> same_key k e) (timers s)\<rparr>"
  using assms find_entry [of "timers s" k a] tl.del_entries [of "timers s" k]
  by (simp add: cancel_in_loop_def timers_inv_def)

lemma find_not_queued: "a \<notin> snd ` set m \<Longrightarrow> find (\<lambda>e. snd e = a) m = None"
  by (induction m) auto

lemma cancel_not_queued: "a \<notin> queued s \<Longrightarrow> cancel_in_loop (Some a) s = s"
  by (simp add: cancel_in_loop_def find_not_queued)

lemma add_timer_in_loop_ok:
  assumes "timers_inv s" and "timer_heap s a = Some t" and "ts_valid (expiration t)" and "a \<notin> queued s"
  shows "\<exists>s'. add_timer_in_loop os me a s = Inr s' \<and> timers_inv s' \<and> timer_heap s' = timer_heap s \<and>
    timers s' = sort_key (\<lambda>e. ts_val (fst e)) (timers s @ [(expiration t, a)]) \<and>
    syscalls s' = syscalls s @
      (if \<forall>e \<in> set (timers s). expiration t < fst e
       then [case_prod (Sys_timerfd_settime (timer_fd s))
               (how_much_time_from_now (expiration t) (os_clock os (clock_reads s)))]
       else []) \<and>
    chans s' = chans s \<and> loop_poller s' = loop_poller s \<and> reactor.more s' = reactor.more s \<and>
    pending_functors s' = pending_functors s \<and> thread_id s' = thread_id s"
proof -
  let ?s = "assert_in_loop_thread (is_in_loop_thread me s) s"
  let ?m = "tl.ins_all [(expiration t, a)] (timers s)"
  let ?first = "timers s = [] \<or> expiration t < fst (hd (timers s))"
  have ins: "timer_insert a ?s = Inr (?first, ?s\<lparr>timers := ?m\<rparr>)"
    using timer_insert_eq [of ?s a t] assms(2) by simp
  have sorted: "key_sorted (timers s)" using assms(1) by (simp add: timers_inv_def)
  have "key_sorted ?m \<and> distinct (map snd ?m) \<and> list_all (entry_ok (timer_heap s)) ?m"
    using assms
    by (intro entries_inserted [where h = "timer_heap s"]) (auto simp: timers_inv_def entry_ok_def)
  moreover have "?m = sort_key (\<lambda>e. ts_val (fst e)) (timers s @ [(expiration t, a)])"
    using tl.ins_all_sort [OF sorted, of "[(expiration t, a)]"] by simp
  ultimately show ?thesis
    using assms(2) ins head_is_least [OF sorted, of "expiration t"]
    by (auto simp: add_timer_in_loop_def timers_inv_def case_prod_beta simp del: tl.ins_all.simps)
qed

section \<open>Properties\<close>

text \<open>
  C8.  One expiration of the timer descriptor, with callbacks that do any work on their own
  data and queue functors: exactly the timers due before the current time run, each once,
  by due time and by order of insertion among equals; the one-shot ones among them leave
  the queue, the repeating ones are queued again for the current time plus their
  interval, all others stay; the queue is consistent and the descriptor is armed for its
  first entry.
\<close>

theorem timer_turn_exact:
  assumes "timers_inv s" and "\<not> (\<exists>e \<in> set (timers s). same_key (time_now os s) e)"
    and "\<forall>a t. timer_heap s a = Some t \<longrightarrow> renewable os (time_now os s) t"
    and "expired = filter (\<lambda>e. fst e < time_now os s) (timers s)"
  shows "\<exists>t. timer_handle_read os me (traced_run os me spawn) s = Inr (rearmed os t) \<and> timers_inv t \<and>
    ran t = ran s @ map (\<lambda>e. callback (the (timer_heap s (snd e)))) expired \<and>
    timers t = sort_key (\<lambda>e. ts_val (fst e))
      (filter (\<lambda>e. \<not> fst e < time_now os s) (timers s) @ renewals os (time_now os s) (timer_heap s) expired) \<and>
    timer_fd t = timer_fd s \<and> clock_reads t = Suc (clock_reads s)"
  using assms by (intro timer_handle_read_ok) auto

text \<open>
  \<^verbatim>\<open>add_timer_in_loop\<close> queues the timer behind those due no later and arms the
  descriptor exactly if the timer is due before all that are queued.
\<close>

lemma add_timer_arms_earliest:
  assumes "timers_inv s" and "timer_heap s a = Some t" and "ts_valid (expiration t)" and "a \<notin> queued s"
  shows "\<exists>s'. add_timer_in_loop os me a s = Inr s' \<and> timers_inv s' \<and> timer_heap s' = timer_heap s \<and>
    timers s' = sort_key (\<lambda>e. ts_val (fst e)) (timers s @ [(expiration t, a)]) \<and>
    syscalls s' = syscalls s @
      (if \<forall>e \<in> set (timers s). expiration t < fst e
       then [case_prod (Sys_timerfd_settime (timer_fd s))
               (how_much_time_from_now (expiration t) (os_clock os (clock_reads s)))]
       else [])"
  using add_timer_in_loop_ok [OF assms] by blast

text \<open>
  C28.  A timer due now or later arms the descriptor for the whole microseconds until it is
  due, at least 100, with \<^verbatim>\<open>tv_nsec\<close> in the range the kernel accepts: it fires at most one
  microsecond early.
\<close>

theorem timer_delay_bounds:
  assumes "os_clock os (clock_reads s) \<le> ts_val t" and "ts_val t - os_clock os (clock_reads s) < 2 ^ 63"
  shows "\<exists>sec nsec. syscalls (reset_timer_fd os fd t s) = syscalls s @ [Sys_timerfd_settime fd sec nsec] \<and>
    uint nsec < 1000000000 \<and>
    uint sec * 1000000 + uint nsec div 1000 = max 100 ((ts_val t - os_clock os (clock_reads s)) div 1000)"
  using armed_future [OF assms] how_much_time_eq(2) [OF refl, of t "os_clock os (clock_reads s)"]
  by (auto simp: armed_us_def)

text \<open>
  C34.  A timer that is at least one microsecond overdue when the descriptor is armed is not
  clamped to 100 microseconds: the negative interval wraps around in the \<^verbatim>\<open>uint64_t\<close>, and the
  descriptor is armed for more than 290000 years.
\<close>

theorem overdue_timer_armed_never:
  assumes "1000 \<le> os_clock os (clock_reads s) - ts_val t" and "os_clock os (clock_reads s) - ts_val t < 2 ^ 63"
  shows "\<exists>sec nsec. syscalls (reset_timer_fd os fd t s) = syscalls s @ [Sys_timerfd_settime fd sec nsec] \<and>
    290000 * 365 * 24 * 3600 < uint sec"
proof -
  let ?h = "how_much_time_from_now t (os_clock os (clock_reads s))"
  have "uint (snd ?h) div 1000 < 1000000" using how_much_time_eq(2) [OF refl, of t "os_clock os (clock_reads s)"] by simp
  moreover have "armed_us ?h > 2 ^ 63" using armed_past [OF assms] assms(2) by simp
  ultimately have "290000 * 365 * 24 * 3600 < uint (fst ?h)" by (simp add: armed_us_def)
  then show ?thesis by simp
qed

text \<open>
  C35.  The assertion in \<^verbatim>\<open>get_expired\<close> fails exactly if some timer is due at the very instant
  of the clock reading (the entries are compared by time alone, so \<^verbatim>\<open>lower_bound\<close> stops in front of
  it); otherwise the due timers are taken out in order and the others stay.
\<close>

theorem get_expired_exact:
  assumes "timers_inv s"
  shows "get_expired now s =
    (if \<exists>e \<in> set (timers s). ts_val (fst e) = ts_val now then Inl Assert_failed
     else Inr (filter (\<lambda>e. fst e < now) (timers s), s\<lparr>timers := filter (\<lambda>e. \<not> fst e < now) (timers s)\<rparr>))"
  using get_expired_eq [of s now] assms unfolding same_key_def timers_inv_def by blast

text \<open>
  C36.  Cancelling a queued timer takes it out, but with it every other timer that is due at
  the same instant: \<^verbatim>\<open>erase\<close> is called with the key, not with the iterator.
\<close>

theorem cancel_removes_instant:
  assumes "timers_inv s" and "(k, a) \<in> set (timers s)"
  shows "timers_inv (cancel_in_loop (Some a) s) \<and> a \<notin> queued (cancel_in_loop (Some a) s) \<and>
    (\<forall>j b. (j, b) \<in> set (timers (cancel_in_loop (Some a) s)) \<longleftrightarrow>
       (j, b) \<in> set (timers s) \<and> ts_val j \<noteq> ts_val k)"
proof -
  have "inj_on snd (set (timers s))" using assms(1) by (simp add: timers_inv_def distinct_map)
  with assms(2) have "a \<notin> queued (cancel_in_loop (Some a) s)"
    unfolding cancel_in_loop_eq [OF assms] by (fastforce simp: same_key_def inj_on_def)
  moreover have "timers_inv (cancel_in_loop (Some a) s)"
    using timers_inv_filter [OF assms(1)] by (simp add: cancel_in_loop_eq [OF assms] timers_inv_def)
  ultimately show ?thesis by (auto simp: cancel_in_loop_eq [OF assms] same_key_def)
qed

text \<open>
  C37.  A repeating timer cannot cancel itself from its own callback: while it runs it is not
  in the queue, the cancellation finds nothing, and the timer is queued again.
\<close>

theorem self_cancel_ineffective:
  assumes "timers_inv s" and "timers s = [(k, a)]" and "timer_heap s a = Some t" and "repeat t"
    and "k < time_now os s" and "add_time (os_round os) (time_now os s) (interval t) = Inr e"
    and "\<And>x. run (callback t) x = Inr (cancel_in_loop (Some a) x)"
  shows "\<exists>s'. timer_handle_read os me run s = Inr s' \<and> timers s' = [(e, a)]"
proof -
  let ?s1 = "snd (read_clock (os_clock os) (assert_in_loop_thread (is_in_loop_thread me s) s))"
  let ?s2 = "read_timer_fd os (timer_fd ?s1) ?s1"
  have s2: "timers ?s2 = [(k, a)]" "timer_heap ?s2 = timer_heap s"
    using assms(2) by (simp_all add: read_clock_def)
  have "get_expired (time_now os s) ?s2 = Inr ([(k, a)], ?s2\<lparr>timers := []\<rparr>)"
    using get_expired_eq [of ?s2 "time_now os s"] s2(1) assms(5)
    by (simp add: key_sorted_def same_key_def timestamp_order)
  moreover have "fold_res (run_timer run) [(k, a)] (?s2\<lparr>timers := []\<rparr>) = Inr (?s2\<lparr>timers := []\<rparr>)"
    using assms(3,7) s2(2) by (simp add: run_timer_def cancel_not_queued)
  moreover have "\<exists>s'. reset_timers os [(k, a)] (time_now os s) (?s2\<lparr>timers := []\<rparr>) = Inr s' \<and> timers s' = [(e, a)]"
    using assms(3,4,6) s2(2)
    by (simp add: reset_timers_def reset_entry_def restart_def timer_insert_def Let_def mm_insert_def)
  ultimately show ?thesis
    by (auto simp: timer_handle_read_def Let_def read_clock_def time_now_def)
qed

text \<open>
  C22.  The life of a loop.  Constructing a loop on either poller succeeds and leaves a consistent loop whose
  timer and wake-up channels are registered for reading with the loop's own handlers; the thread's pointer is set unless another
  loop holds it.  Destroying a loop that is not looping passes the assertions of all destructors, frees both channels and closes the
  wake-up, timer and \<^verbatim>\<open>epoll\<close> descriptors, each once.  The thread's pointer is null then, even if it belonged to another loop.
\<close>

theorem event_loop_constructed:
  assumes "fresh_env env"
  shows "\<exists>s loops'. loop_create os env me a loops h = Inr (s, loops') \<and> loop_inv s \<and> timers_inv s \<and>
    registered s = [env_timer_fd env \<mapsto> env_timer_channel env, env_event_fd env \<mapsto> env_wakeup_channel env] \<and>
    (\<exists>ch. chans s (env_timer_channel env) = Some ch \<and> reads_with TimerQueue_handle_read (env_timer_fd env) ch) \<and>
    (\<exists>ch. chans s (env_wakeup_channel env) = Some ch \<and> reads_with EventLoop_handle_read (env_event_fd env) ch) \<and>
    thread_id s = me \<and> \<not> looping s \<and> \<not> quit_flag s \<and> pending_functors s = [] \<and>
    timer_fd s = env_timer_fd env \<and> wakeup_fd s = env_event_fd env \<and>
    get_event_loop_of_current_thread me loops' = Some (case loops me of None \<Rightarrow> a | Some b \<Rightarrow> b) \<and>
    (\<exists>t loops''. loop_destroy os env me (s, loops') = Inr (t, loops'') \<and>
      chans t = (chans s)(env_wakeup_channel env := None, env_timer_channel env := None) \<and>
      syscalls t = [Sys_close (env_event_fd env), Sys_close (env_timer_fd env)] @
        (if env_use_poll env then [] else [Sys_close (env_epoll_fd env)]) \<and>
      get_event_loop_of_current_thread me loops'' = None)"
proof -
  let ?env = "env\<lparr>env_other_loop := loops me \<noteq> None\<rparr>"
  have ne: "fresh_env ?env" "env_timer_channel env \<noteq> env_wakeup_channel env" using assms by (simp_all add: fresh_env_def)
  from EventLoop_ctor_ok [OF ne(1), of os me h] obtain s where s: "EventLoop_ctor os ?env me h = Inr s" "loop_inv s" "timers_inv s"
      "registered s = [env_timer_fd env \<mapsto> env_timer_channel env, env_event_fd env \<mapsto> env_wakeup_channel env]"
      "\<exists>ch. chans s (env_timer_channel env) = Some ch \<and> reads_with TimerQueue_handle_read (env_timer_fd env) ch"
      "\<exists>ch. chans s (env_wakeup_channel env) = Some ch \<and> reads_with EventLoop_handle_read (env_event_fd env) ch"
      "thread_id s = me" "\<not> looping s" "\<not> quit_flag s" "pending_functors s = []"
      "timer_fd s = env_timer_fd env" "wakeup_fd s = env_event_fd env" "syscalls s = []"
      "impl_fd (loop_poller s) = (if env_use_poll env then None else Some (env_epoll_fd env))" by auto
  from s(5,6) obtain x y where xy: "chans s (env_timer_channel env) = Some x" "\<not> event_handling x"
      "chans s (env_wakeup_channel env) = Some y" "\<not> event_handling y" unfolding reads_with_def by blast
  let ?calls = "[Sys_close (env_event_fd env), Sys_close (env_timer_fd env)]"
  have "\<exists>t. EventLoop_dtor os env s = Inr t \<and> chans t = (chans s)(env_wakeup_channel env := None, env_timer_channel env := None) \<and>
      syscalls t = ?calls @ (if env_use_poll env then [] else [Sys_close (env_epoll_fd env)])"
    using s(8,11-14) xy ne(2)
    by (cases "loop_poller s") (auto simp: EventLoop_dtor_def TimerQueue_dtor_def poller_dtor_def Epoller_dtor_def destroy_chan_def
        heap_simps issue_def split: if_splits)
  then show ?thesis using s(1-12)
    by (auto simp: loop_create_def loop_destroy_def get_event_loop_of_current_thread_def split: option.splits)
qed

section \<open>Examples\<close>

definition sample_os :: "int \<Rightarrow> os" where
  "sample_os now = \<lparr>os_clock = (\<lambda>_. now), os_round = id, os_epoll_ctl = sample_ctl,
     os_ret = (\<lambda>_. 0), os_errno = (\<lambda>_. 0),
     os_readv = (\<lambda>_. Readv_error 0), os_addr = (\<lambda>_. zero_sockaddr), os_value = (\<lambda>_. 0)\<rparr>"

text \<open>Timers 20 and 30 are due at 1000 and 2000; timer 30 repeats every second.  Timer 40 is due at 1000 too.\<close>

definition sample_timers :: "(timestamp \<times> addr) list \<Rightarrow> nat traced" where
  "sample_timers q = \<lparr>logs = [], clock_reads = 0, chans = Map.empty,
     syscalls = [], looping = True, quit_flag = False, calling_pending_functors = False,
     thread_id = 7, loop_poller = Use_poll Poller_ctor, wakeup_fd = 4, active_channels = [],
     pending_functors = [], poll_return_time = invalid_timestamp, timer_fd = 3,
     timer_heap = [20 \<mapsto> Timer_ctor (User 2) (timestamp_at 1000) 0, 30 \<mapsto> Timer_ctor (User 3) (timestamp_at 2000) 1,
                   40 \<mapsto> Timer_ctor (User 4) (timestamp_at 1000) 0],
     timers = q, ran = []\<rparr>"

definition empty_heap :: "nat closure heap" where
  "empty_heap = \<lparr>logs = [], clock_reads = 0, chans = Map.empty\<rparr>"

lemmas sample_simps = sample_timers_def sample_os_def time_now_def timestamp_at_def Timer_ctor_def
  timestamp_order same_key_def

lemma sample_timers_inv:
  "timers_inv (sample_timers [(timestamp_at 1000, 20), (timestamp_at 2000, 30)])"
  "timers_inv (sample_timers [(timestamp_at 1000, 20), (timestamp_at 1000, 40)])"
  "timers_inv (sample_timers [(timestamp_at 2000, 30)])"
  by (simp_all add: timers_inv_def sample_simps key_sorted_def entry_ok_def)

lemma one_second: "add_time id (TimeStamp 5000 True) 1 = Inr (TimeStamp 1000005000 True)"
  by (simp add: add_time_def double_to_int_def double_trunc_def Let_def timestamp_at_def)

lemma sample_renewable:
  "\<forall>a t. timer_heap (sample_timers q) a = Some t \<longrightarrow>
     renewable (sample_os 5000) (time_now (sample_os 5000) (sample_timers q)) t"
  by (auto simp: renewable_def sample_simps one_second split: if_splits)

theorem timer_turn_exact_witness:
  "\<exists>t. timer_handle_read (sample_os 5000) 7 (traced_run (sample_os 5000) 7 (\<lambda>_. []))
        (sample_timers [(timestamp_at 1000, 20), (timestamp_at 2000, 30)]) = Inr t \<and>
      ran t = [User 2, User 3] \<and> timers t = [(timestamp_at 1000005000, 30)]"
proof -
  let ?s = "sample_timers [(timestamp_at 1000, 20), (timestamp_at 2000, 30)]" and ?os = "sample_os 5000"
  have "\<not> (\<exists>e \<in> set (timers ?s). same_key (time_now ?os ?s) e)" by (simp add: sample_simps)
  note turn = timer_turn_exact [OF sample_timers_inv(1) this sample_renewable refl, where me = 7 and spawn = "\<lambda>_. []"]
  have queue: "filter (\<lambda>e. fst e < time_now ?os ?s) (timers ?s) = timers ?s"
    "filter (\<lambda>e. \<not> fst e < time_now ?os ?s) (timers ?s) = []" "ran ?s = []"
    "map (\<lambda>e. callback (the (timer_heap ?s (snd e)))) (timers ?s) = [User 2, User 3]"
    by (simp_all add: sample_simps)
  from turn [unfolded queue append_Nil] obtain t where
    t: "timer_handle_read ?os 7 (traced_run ?os 7 (\<lambda>_. [])) ?s = Inr (rearmed ?os t)"
      "ran t = [User 2, User 3]"
      "timers t = sort_key (\<lambda>e. ts_val (fst e)) (renewals ?os (time_now ?os ?s) (timer_heap ?s) (timers ?s))"
    by blast
  have "renewals ?os (time_now ?os ?s) (timer_heap ?s) (timers ?s) = [(timestamp_at 1000005000, 30)]"
    by (simp add: renewals_def sample_simps one_second)
  with t ran_more [of "rearmed ?os t" t] show ?thesis by simp
qed

lemma add_timer_arms_earliest_example:
  "\<exists>s'. add_timer_in_loop (sample_os 0) 7 20 (sample_timers [(timestamp_at 2000, 30)]) = Inr s' \<and>
     timers s' = [(timestamp_at 1000, 20), (timestamp_at 2000, 30)] \<and> syscalls s' \<noteq> []"
proof -
  have "timer_heap (sample_timers [(timestamp_at 2000, 30)]) 20 = Some (Timer_ctor (User 2) (timestamp_at 1000) 0)"
    "ts_valid (expiration (Timer_ctor (User 2 :: nat closure) (timestamp_at 1000) 0))"
    "20 \<notin> queued (sample_timers [(timestamp_at 2000, 30)])"
    by (simp_all add: sample_simps)
  from add_timer_arms_earliest [OF sample_timers_inv(3) this, of "sample_os 0" 7] show ?thesis
    by (auto simp: sample_simps)
qed

theorem timer_delay_bounds_witness:
  "\<exists>sec nsec. syscalls (reset_timer_fd (sample_os 5000) 3 (timestamp_at 2000005000) (sample_timers [])) =
      [Sys_timerfd_settime 3 sec nsec] \<and> uint sec * 1000000 + uint nsec div 1000 = 2000000"
  using timer_delay_bounds [of "sample_os 5000" "sample_timers []" "timestamp_at 2000005000" 3]
  by (auto simp: sample_simps)

theorem overdue_timer_armed_never_witness:
  "\<exists>sec nsec. syscalls (reset_timer_fd (sample_os 5000) 3 (timestamp_at 2000) (sample_timers [])) =
      [Sys_timerfd_settime 3 sec nsec] \<and> 9145440000000 < uint sec"
  using overdue_timer_armed_never [of "sample_os 5000" "sample_timers []" "timestamp_at 2000" 3]
  by (auto simp: sample_simps)

theorem get_expired_exact_witness:
  "get_expired (timestamp_at 2000) (sample_timers [(timestamp_at 1000, 20), (timestamp_at 2000, 30)]) = Inl Assert_failed"
  by (subst get_expired_exact [OF sample_timers_inv(1)]) (simp add: sample_simps)

theorem cancel_removes_instant_witness:
  "timers (cancel_in_loop (Some 20) (sample_timers [(timestamp_at 1000, 20), (timestamp_at 1000, 40)])) = []"
proof -
  let ?s = "sample_timers [(timestamp_at 1000, 20), (timestamp_at 1000, 40)]"
  define c where "c = cancel_in_loop (Some 20) ?s"
  have q: "timers ?s = [(timestamp_at 1000, 20), (timestamp_at 1000, 40)]" by (simp add: sample_timers_def)
  then have "(timestamp_at 1000, 20) \<in> set (timers ?s)" by simp
  from cancel_removes_instant [OF sample_timers_inv(2) this]
  have "\<And>e. e \<notin> set (timers c)" by (auto simp: q simp flip: c_def)
  then have "timers c = []" by (metis list.set_intros(1) neq_Nil_conv)
  then show ?thesis by (simp add: c_def)
qed

theorem self_cancel_ineffective_witness:
  "\<exists>s'. timer_handle_read (sample_os 5000) 7 (\<lambda>c x. Inr (cancel_in_loop (Some 30) x))
        (sample_timers [(timestamp_at 2000, 30)]) = Inr s' \<and> timers s' = [(timestamp_at 1000005000, 30)]"
  by (rule self_cancel_ineffective [OF sample_timers_inv(3), where k = "timestamp_at 2000"
        and t = "Timer_ctor (User 3) (timestamp_at 2000) 1"])
     (simp_all add: sample_simps one_second)

theorem event_loop_constructed_witness:
  "\<exists>s loops' t loops''. loop_create (sample_os 0) \<lparr>env_use_poll = False, env_other_loop = False, env_epoll_fd = 3, env_timer_fd = 4,
        env_event_fd = 5, env_timer_channel = 10, env_wakeup_channel = 20\<rparr> 7 90 [7 \<mapsto> 80] empty_heap = Inr (s, loops') \<and>
      registered s = [4 \<mapsto> 10, 5 \<mapsto> 20] \<and> get_event_loop_of_current_thread 7 loops' = Some 80 \<and>
      loop_destroy (sample_os 0) \<lparr>env_use_poll = False, env_other_loop = False, env_epoll_fd = 3, env_timer_fd = 4,
        env_event_fd = 5, env_timer_channel = 10, env_wakeup_channel = 20\<rparr> 7 (s, loops') = Inr (t, loops'') \<and>
      syscalls t = [Sys_close 5, Sys_close 4, Sys_close 3] \<and> get_event_loop_of_current_thread 7 loops'' = None"
proof -
  let ?env = "\<lparr>env_use_poll = False, env_other_loop = False, env_epoll_fd = 3, env_timer_fd = 4,
    env_event_fd = 5, env_timer_channel = 10, env_wakeup_channel = 20\<rparr>"
  have "fresh_env ?env" by (simp add: fresh_env_def)
  from event_loop_constructed [OF this, of "sample_os 0" 7 90 "[7 \<mapsto> 80]" empty_heap] show ?thesis by auto
qed

end
