(* ===== verification/Sockets.thy ===== *)
theory Sockets
  imports Timer_Queue
begin

text \<open>
  The system calls on sockets (\<^verbatim>\<open>tcp/SocketsOps.cpp\<close>) and the class \<^verbatim>\<open>Socket\<close> (\<^verbatim>\<open>tcp/Socket.cpp\<close>).
  Each call is recorded with its arguments; its result, error number, address and option
  value are those \<open>os\<close> gives for its position.  Writing to a logger leaves \<^verbatim>\<open>errno\<close> alone.
\<close>

section \<open>Error numbers\<close>

definition EPERM :: int where "EPERM = 1"
definition EINTR :: int where "EINTR = 4"
definition EBADF :: int where "EBADF = 9"
definition EAGAIN :: int where "EAGAIN = 11"
definition ENOMEM :: int where "ENOMEM = 12"
definition EACCES :: int where "EACCES = 13"
definition EFAULT :: int where "EFAULT = 14"
definition EINVAL :: int where "EINVAL = 22"
definition ENFILE :: int where "ENFILE = 23"
definition EMFILE :: int where "EMFILE = 24"
definition EPROTO :: int where "EPROTO = 71"
definition ENOTSOCK :: int where "ENOTSOCK = 88"
definition EOPNOTSUPP :: int where "EOPNOTSUPP = 95"
definition EAFNOSUPPORT :: int where "EAFNOSUPPORT = 97"
definition EADDRINUSE :: int where "EADDRINUSE = 98"
definition EADDRNOTAVAIL :: int where "EADDRNOTAVAIL = 99"
definition ENETUNREACH :: int where "ENETUNREACH = 101"
definition ECONNABORTED :: int where "ECONNABORTED = 103"
definition ENOBUFS :: int where "ENOBUFS = 105"
definition EISCONN :: int where "EISCONN = 106"
definition ECONNREFUSED :: int where "ECONNREFUSED = 111"
definition EALREADY :: int where "EALREADY = 114"
definition EINPROGRESS :: int where "EINPROGRESS = 115"

definition EWOULDBLOCK :: int where "EWOULDBLOCK = EAGAIN"

lemmas errno_defs = EPERM_def EINTR_def EBADF_def EAGAIN_def ENOMEM_def EACCES_def EFAULT_def
  EINVAL_def ENFILE_def EMFILE_def EPROTO_def ENOTSOCK_def EOPNOTSUPP_def EAFNOSUPPORT_def
  EADDRINUSE_def EADDRNOTAVAIL_def ENETUNREACH_def ECONNABORTED_def ENOBUFS_def EISCONN_def
  ECONNREFUSED_def EALREADY_def EINPROGRESS_def EWOULDBLOCK_def

text \<open>A call together with the \<^verbatim>\<open>errno\<close> it sets.\<close>

definition issue_errno ::
  "os \<Rightarrow> syscall \<Rightarrow> ('u, 'z) reactor_scheme \<Rightarrow> int \<times> int \<times> ('u, 'z) reactor_scheme" where
  "issue_errno os c s =
     (os_ret os (length (syscalls s)), os_errno os (length (syscalls s)), snd (issue os c s))"

text \<open>
  \<^verbatim>\<open>write(2)\<close> returns at most the number of bytes it was given: \<open>os\<close> says how many the kernel
  would take.
\<close>

definition issue_write ::
  "os \<Rightarrow> int \<Rightarrow> string \<Rightarrow> ('u, 'z) reactor_scheme \<Rightarrow> int \<times> int \<times> ('u, 'z) reactor_scheme" where
  "issue_write os fd bytes s =
     (case issue_errno os (Sys_write fd bytes) s of (n, e, s1) \<Rightarrow> (min n (int (length bytes)), e, s1))"

section \<open>Socket calls\<close>

definition createNonblockingOrDie :: "os \<Rightarrow> ('u, 'z) reactor_scheme \<Rightarrow> int \<times> ('u, 'z) reactor_scheme" where
  "createNonblockingOrDie os s =
     (case issue os Sys_socket s of (fd, s1) \<Rightarrow> (fd, if fd < 0 then log_to LOG_SYSFATAL s1 else s1))"

definition bindOrDie :: "os \<Rightarrow> int \<Rightarrow> sockaddr_in \<Rightarrow> ('u, 'z) reactor_scheme \<Rightarrow> ('u, 'z) reactor_scheme" where
  "bindOrDie os fd addr s =
     (case issue os (Sys_bind fd addr) s of (ret, s1) \<Rightarrow> if ret < 0 then log_to LOG_SYSFATAL s1 else s1)"

definition listenOrDie :: "os \<Rightarrow> int \<Rightarrow> ('u, 'z) reactor_scheme \<Rightarrow> ('u, 'z) reactor_scheme" where
  "listenOrDie os fd s =
     (case issue os (Sys_listen fd) s of (ret, s1) \<Rightarrow> if ret < 0 then log_to LOG_SYSFATAL s1 else s1)"

text \<open>
  \<^verbatim>\<open>sockets::accept\<close>: the descriptor, the \<^verbatim>\<open>errno\<close> left behind, and the peer's address.  The
  expected errors are logged once, every other error also as fatal.
\<close>

definition accept_expected :: "int list" where
  "accept_expected = [EAGAIN, ECONNABORTED, EINTR, EPROTO, EPERM, EMFILE]"

definition sockets_accept ::
  "os \<Rightarrow> int \<Rightarrow> ('u, 'z) reactor_scheme \<Rightarrow> int \<times> int \<times> sockaddr_in \<times> ('u, 'z) reactor_scheme" where
  "sockets_accept os fd s =
     (let addr = os_addr os (length (syscalls s)) in
      case issue_errno os (Sys_accept fd) s of (connfd, e, s1) \<Rightarrow>
      (connfd, e, addr,
       if connfd < 0 then
         (let s2 = log_to LOG_SYSERR s1
          in if e \<in> set accept_expected then s2 else log_to LOG_SYSFATAL s2)
       else s1))"

definition sockets_connect ::
  "os \<Rightarrow> int \<Rightarrow> sockaddr_in \<Rightarrow> ('u, 'z) reactor_scheme \<Rightarrow> int \<times> int \<times> ('u, 'z) reactor_scheme" where
  "sockets_connect os fd addr s = issue_errno os (Sys_connect fd addr) s"

definition sockets_close :: "os \<Rightarrow> int \<Rightarrow> ('u, 'z) reactor_scheme \<Rightarrow> ('u, 'z) reactor_scheme" where
  "sockets_close os fd s =
     (case issue os (Sys_close fd) s of (ret, s1) \<Rightarrow> if ret < 0 then log_to LOG_SYSERR s1 else s1)"

definition getLocalAddr :: "os \<Rightarrow> int \<Rightarrow> ('u, 'z) reactor_scheme \<Rightarrow> sockaddr_in \<times> ('u, 'z) reactor_scheme" where
  "getLocalAddr os fd s =
     (let addr = os_addr os (length (syscalls s)) in
      case issue os (Sys_getsockname fd) s of (ret, s1) \<Rightarrow>
      if ret < 0 then (zero_sockaddr, log_to LOG_SYSERR s1) else (addr, s1))"

definition getPeerAddr :: "os \<Rightarrow> int \<Rightarrow> ('u, 'z) reactor_scheme \<Rightarrow> sockaddr_in \<times> ('u, 'z) reactor_scheme" where
  "getPeerAddr os fd s =
     (let addr = os_addr os (length (syscalls s)) in
      case issue os (Sys_getpeername fd) s of (ret, s1) \<Rightarrow>
      if ret < 0 then (zero_sockaddr, log_to LOG_SYSERR s1) else (addr, s1))"

definition getSocketError :: "os \<Rightarrow> int \<Rightarrow> ('u, 'z) reactor_scheme \<Rightarrow> int \<times> ('u, 'z) reactor_scheme" where
  "getSocketError os fd s =
     (let optval = os_value os (length (syscalls s)) in
      case issue_errno os (Sys_so_error fd) s of (ret, e, s1) \<Rightarrow> (if ret < 0 then e else optval, s1))"

definition shutdownWrite :: "os \<Rightarrow> int \<Rightarrow> ('u, 'z) reactor_scheme \<Rightarrow> ('u, 'z) reactor_scheme" where
  "shutdownWrite os fd s =
     (case issue os (Sys_shutdown fd) s of (ret, s1) \<Rightarrow> if ret < 0 then log_to LOG_SYSERR s1 else s1)"

definition isSelfConnect :: "os \<Rightarrow> int \<Rightarrow> ('u, 'z) reactor_scheme \<Rightarrow> bool \<times> ('u, 'z) reactor_scheme" where
  "isSelfConnect os fd s =
     (case getLocalAddr os fd s of (localaddr, s1) \<Rightarrow>
      case getPeerAddr os fd s1 of (peeraddr, s2) \<Rightarrow>
      (sin_port localaddr = sin_port peeraddr \<and> s_addr localaddr = s_addr peeraddr, s2))"

section \<open>The class Socket\<close>

definition Socket_dtor :: "os \<Rightarrow> int \<Rightarrow> ('u, 'z) reactor_scheme \<Rightarrow> ('u, 'z) reactor_scheme" where
  "Socket_dtor = sockets_close"

definition bind_address :: "os \<Rightarrow> int \<Rightarrow> sockaddr_in \<Rightarrow> ('u, 'z) reactor_scheme \<Rightarrow> ('u, 'z) reactor_scheme" where
  "bind_address = bindOrDie"

definition Socket_listen :: "os \<Rightarrow> int \<Rightarrow> ('u, 'z) reactor_scheme \<Rightarrow> ('u, 'z) reactor_scheme" where
  "Socket_listen = listenOrDie"

text \<open>The peer's address is stored for a descriptor greater than zero.\<close>

definition Socket_accept ::
  "os \<Rightarrow> int \<Rightarrow> sockaddr_in \<Rightarrow> ('u, 'z) reactor_scheme \<Rightarrow> int \<times> int \<times> sockaddr_in \<times> ('u, 'z) reactor_scheme" where
  "Socket_accept os fd peer_addr s =
     (case sockets_accept os fd s of (conn_fd, e, addr, s1) \<Rightarrow>
      (conn_fd, e, if conn_fd > 0 then addr else peer_addr, s1))"

definition set_reuse_addr :: "os \<Rightarrow> int \<Rightarrow> bool \<Rightarrow> ('u, 'z) reactor_scheme \<Rightarrow> ('u, 'z) reactor_scheme" where
  "set_reuse_addr os fd on s = snd (issue os (Sys_reuse_addr fd on) s)"

definition set_no_delay :: "os \<Rightarrow> int \<Rightarrow> bool \<Rightarrow> ('u, 'z) reactor_scheme \<Rightarrow> ('u, 'z) reactor_scheme" where
  "set_no_delay os fd on s = snd (issue os (Sys_no_delay fd on) s)"

definition shutdown_write :: "os \<Rightarrow> int \<Rightarrow> ('u, 'z) reactor_scheme \<Rightarrow> ('u, 'z) reactor_scheme" where
  "shutdown_write = shutdownWrite"

section \<open>What socket calls leave alone\<close>

text \<open>States that differ in the record of system calls and in the log only.\<close>

definition calls_only :: "('u, 'z) reactor_scheme \<Rightarrow> ('u, 'z) reactor_scheme \<Rightarrow> bool" where
  "calls_only s t \<longleftrightarrow> (\<exists>cs ls. t = s\<lparr>syscalls := syscalls s @ cs, logs := logs s @ ls\<rparr>)"

lemma calls_only_refl [simp]: "calls_only s s"
  unfolding calls_only_def by (rule exI [of _ "[]"], rule exI [of _ "[]"]) simp

lemma calls_only_trans: "calls_only s t \<Longrightarrow> calls_only t u \<Longrightarrow> calls_only s u"
  unfolding calls_only_def by (elim exE) (rule exI, rule exI, simp)

lemma calls_only_issue [simp]: "calls_only s (snd (issue os c s))"
  unfolding calls_only_def issue_def by (rule exI [of _ "[c]"], rule exI [of _ "[]"]) simp

lemma calls_only_log [simp]: "calls_only s (log_to l s)"
  unfolding calls_only_def log_to_def by (rule exI [of _ "[]"], rule exI [of _ "[l]"]) simp

lemma calls_only_log_iff: "calls_only s t \<Longrightarrow> calls_only s (log_to l t)"
  by (erule calls_only_trans) (rule calls_only_log)

lemma calls_onlyD:
  assumes "calls_only s t"
  shows "chans t = chans s" "loop_poller t = loop_poller s" "reactor.more t = reactor.more s"
    "pending_functors t = pending_functors s" "thread_id t = thread_id s" "timers t = timers s"
    "timer_heap t = timer_heap s" "timer_fd t = timer_fd s" "looping t = looping s"
    "quit_flag t = quit_flag s" "calling_pending_functors t = calling_pending_functors s"
    "clock_reads t = clock_reads s" "wakeup_fd t = wakeup_fd s"
  using assms by (auto simp: calls_only_def)

lemma calls_only_loop_inv: "calls_only s t \<Longrightarrow> loop_inv s \<Longrightarrow> loop_inv t"
  by (erule loop_inv_agree) (simp_all add: calls_onlyD)

lemma calls_only_registered: "calls_only s t \<Longrightarrow> registered t = registered s"
  by (simp add: registered_def calls_onlyD)

lemma socket_calls_only:
  "calls_only s (sockets_close os fd s)" "calls_only s (shutdownWrite os fd s)"
  "calls_only s (snd (getLocalAddr os fd s))" "calls_only s (snd (getPeerAddr os fd s))"
  "calls_only s (snd (getSocketError os fd s))" "calls_only s (snd (createNonblockingOrDie os s))"
  "calls_only s (bindOrDie os fd addr s)" "calls_only s (listenOrDie os fd s)"
  "calls_only s (snd (snd (snd (sockets_accept os fd s))))"
  using calls_only_issue [of s os]
  by (auto simp: sockets_close_def shutdownWrite_def getLocalAddr_def getPeerAddr_def getSocketError_def
      createNonblockingOrDie_def bindOrDie_def listenOrDie_def sockets_accept_def issue_errno_def Let_def
      case_prod_beta calls_only_log_iff)

end
