(* ===== verification/Tcp_Connection.thy ===== *)
theory Tcp_Connection
  imports Sockets
begin

text \<open>
  Connections (\<^verbatim>\<open>tcp/TcpConnection.hpp\<close>, \<^verbatim>\<open>TcpConnection.cpp\<close>): a socket, its channel, an input
  and an output buffer, the callbacks of the application and the state of the connection.
  Connections are shared objects (\<^verbatim>\<open>shared_ptr\<close>), so they live in a store.  Every connection
  belongs to the loop of the state: starting a pool with further loops never gets that far
  (see \<open>Thread_Pool\<close>).

  What an application does in a callback is a parameter (\<open>app\<close>) of the operations that call it.
\<close>

section \<open>State\<close>

datatype conn_state = Connecting | Connected | Disconnected | Disconnecting

fun conn_state_to_string :: "conn_state \<Rightarrow> string" where
  "conn_state_to_string Connected = ''Connected''"
| "conn_state_to_string Connecting = ''Connecting''"
| "conn_state_to_string Disconnected = ''Disconnected''"
| "conn_state_to_string Disconnecting = ''Disconnecting''"

lemma conn_state_to_string_inj: "conn_state_to_string x = conn_state_to_string y \<longleftrightarrow> x = y"
  by (cases x; cases y) simp_all

text \<open>The close callbacks the library installs.\<close>

datatype close_action =
    Server_remove_connection
  | Client_remove_connection
  | Detail_remove_connection

record 'u conn =
  conn_name :: string
  conn_state :: conn_state
  conn_channel :: addr
  local_addr :: sockaddr_in
  peer_addr :: sockaddr_in
  connect_callback :: "'u option"
  message_callback :: "'u option"
  conn_close_callback :: "close_action option"
  write_complete_callback :: "'u option"
  input_buffer :: buffer
  output_buffer :: buffer

text \<open>The setters of a connection's callbacks.\<close>

definition conn_set_connection_callback :: "'u option \<Rightarrow> 'u conn \<Rightarrow> 'u conn" where
  [simp]: "conn_set_connection_callback cb x = x\<lparr>connect_callback := cb\<rparr>"

definition conn_set_message_callback :: "'u option \<Rightarrow> 'u conn \<Rightarrow> 'u conn" where
  [simp]: "conn_set_message_callback cb x = x\<lparr>message_callback := cb\<rparr>"

definition conn_set_close_callback :: "close_action option \<Rightarrow> 'u conn \<Rightarrow> 'u conn" where
  [simp]: "conn_set_close_callback cb x = x\<lparr>conn_close_callback := cb\<rparr>"

definition conn_set_write_callback :: "'u option \<Rightarrow> 'u conn \<Rightarrow> 'u conn" where
  [simp]: "conn_set_write_callback cb x = x\<lparr>write_complete_callback := cb\<rparr>"

record 'u net = "'u reactor" +
  conns :: "addr \<rightharpoonup> 'u conn"

record ('u, 's) app =
  on_connection :: "'u \<Rightarrow> addr \<Rightarrow> 's \<Rightarrow> 's res"
  on_message :: "'u \<Rightarrow> addr \<Rightarrow> timestamp \<Rightarrow> 's \<Rightarrow> 's res"
  on_write_complete :: "'u \<Rightarrow> addr \<Rightarrow> 's \<Rightarrow> 's res"
  on_close :: "close_action \<Rightarrow> addr \<Rightarrow> 's \<Rightarrow> 's res"

definition conn_of :: "addr \<Rightarrow> ('u, 'z) net_scheme \<Rightarrow> 'u conn res" where
  "conn_of a s = (case conns s a of None \<Rightarrow> Inl Bad_deref | Some c \<Rightarrow> Inr c)"

definition put_conn :: "addr \<Rightarrow> 'u conn \<Rightarrow> ('u, 'z) net_scheme \<Rightarrow> ('u, 'z) net_scheme" where
  "put_conn a c s = s\<lparr>conns := (conns s)(a \<mapsto> c)\<rparr>"

definition modify_conn ::
  "addr \<Rightarrow> ('u conn \<Rightarrow> 'u conn) \<Rightarrow> ('u, 'z) net_scheme \<Rightarrow> ('u, 'z) net_scheme res" where
  "modify_conn a f s = andthen (conn_of a s) (\<lambda>c. Inr (put_conn a (f c) s))"

text \<open>Calling a \<^verbatim>\<open>std::function\<close>: an empty one throws.\<close>

definition invoke :: "'a option \<Rightarrow> ('a \<Rightarrow> 's \<Rightarrow> 's res) \<Rightarrow> 's \<Rightarrow> 's res" where
  "invoke f call s = (case f of None \<Rightarrow> Inl Bad_function_call | Some c \<Rightarrow> call c s)"

section \<open>Operations\<close>

text \<open>The connection of loop \<open>lp\<close> is made at address \<open>a\<close>, its channel at \<open>cha\<close>.\<close>

definition TcpConnection_ctor ::
  "addr \<Rightarrow> addr \<Rightarrow> addr \<Rightarrow> string \<Rightarrow> int \<Rightarrow> sockaddr_in \<Rightarrow> sockaddr_in \<Rightarrow>
   ('u, 'z) net_scheme \<Rightarrow> ('u, 'z) net_scheme res" where
  "TcpConnection_ctor lp a cha name fd loc peer s =
     andthen Buffer_ctor (\<lambda>inb. andthen Buffer_ctor (\<lambda>outb.
       Inr (put_conn a
         \<lparr>conn_name = name, conn_state = Connecting, conn_channel = cha, local_addr = loc, peer_addr = peer,
          connect_callback = None, message_callback = None, conn_close_callback = None,
          write_complete_callback = None, input_buffer = inb, output_buffer = outb\<rparr>
         (put_chan cha
           (set_close_callback (Some (Conn_handle_close a)) (set_error_callback (Some (Conn_handle_error a))
             (set_write_callback (Some (Conn_handle_write a)) (set_read_callback (Some (Conn_handle_read a))
               (Channel_ctor lp fd))))) s))))"

text \<open>
  The destructor, run when the last reference goes away: the members are destroyed in reverse
  order, the channel and then the socket, which closes the descriptor.
\<close>

definition TcpConnection_dtor :: "os \<Rightarrow> addr \<Rightarrow> ('u, 'z) net_scheme \<Rightarrow> ('u, 'z) net_scheme res" where
  "TcpConnection_dtor os a s =
     andthen (conn_of a s) (\<lambda>c.
     andthen (deref (conn_channel c) s) (\<lambda>ch.
     andthen (destroy_chan (conn_channel c) s) (\<lambda>s1.
     let s2 = Socket_dtor os (ch_fd ch) s1 in Inr (s2\<lparr>conns := (conns s2)(a := None)\<rparr>))))"

text \<open>
  \<^verbatim>\<open>send_in_loop\<close>.  \<open>direct_write\<close> is its first part: the number of bytes written and the
  state; nothing is written while earlier bytes wait.
\<close>

definition direct_write ::
  "os \<Rightarrow> nat \<Rightarrow> addr \<Rightarrow> 'u conn \<Rightarrow> 'u closure channel \<Rightarrow> string \<Rightarrow>
   ('u, 'z) net_scheme \<Rightarrow> int \<times> ('u, 'z) net_scheme" where
  "direct_write os me a c ch message s =
     (if \<not> is_writing ch \<and> readable_bytes (output_buffer c) = 0 then
        (case issue_write os (ch_fd ch) message s of (n_wrote, e, s1) \<Rightarrow>
         if n_wrote \<ge> 0 then
           (n_wrote,
            if nat n_wrote < length message then s1
            else if write_complete_callback c \<noteq> None then queue_in_loop os me (Conn_write_complete a) s1
            else s1)
         else (0, if e \<noteq> EWOULDBLOCK then log_to LOG_SYSERR s1 else s1))
      else (0, s))"

definition send_in_loop ::
  "os \<Rightarrow> nat \<Rightarrow> addr \<Rightarrow> string \<Rightarrow> ('u, 'z) net_scheme \<Rightarrow> ('u, 'z) net_scheme res" where
  "send_in_loop os me a message s =
     (let s0 = assert_in_loop_thread (is_in_loop_thread me s) s in
      andthen (conn_of a s0) (\<lambda>c.
      andthen (deref (conn_channel c) s0) (\<lambda>ch.
      case direct_write os me a c ch message s0 of (n_wrote, s1) \<Rightarrow>
      cpp_assert (n_wrote \<ge> 0)
       (if nat n_wrote < length message then
          andthen (append_data (drop (nat n_wrote) message) (word_of_nat (length message - nat n_wrote))
                     (output_buffer c)) (\<lambda>b.
          let s2 = put_conn a (c\<lparr>output_buffer := b\<rparr>) s1
          in if \<not> is_writing ch then channel_change os me Enable_writing (conn_channel c) s2 else Inr s2)
        else Inr s1))))"

definition send ::
  "os \<Rightarrow> nat \<Rightarrow> addr \<Rightarrow> string \<Rightarrow> ('u, 'z) net_scheme \<Rightarrow> ('u, 'z) net_scheme res" where
  "send os me a message s =
     andthen (conn_of a s) (\<lambda>c.
       if conn_state c = Connected then
         if is_in_loop_thread me s then send_in_loop os me a message s
         else run_in_loop os me (send_in_loop os me a message) (Conn_send_in_loop a message) s
       else Inr s)"

definition shutdown_in_loop ::
  "os \<Rightarrow> nat \<Rightarrow> addr \<Rightarrow> ('u, 'z) net_scheme \<Rightarrow> ('u, 'z) net_scheme res" where
  "shutdown_in_loop os me a s =
     (let s0 = assert_in_loop_thread (is_in_loop_thread me s) s in
      andthen (conn_of a s0) (\<lambda>c.
      andthen (deref (conn_channel c) s0) (\<lambda>ch.
      Inr (if \<not> is_writing ch then shutdown_write os (ch_fd ch) s0 else s0))))"

text \<open>
  The \<^verbatim>\<open>while\<close> over \<^verbatim>\<open>compare_exchange_strong\<close> in \<^verbatim>\<open>shutdown\<close>: the exchange succeeds if the
  state equals \<open>expected\<close>.  \<open>None\<close>: the fuel is used up.
\<close>

fun shutdown_while ::
  "nat \<Rightarrow> os \<Rightarrow> nat \<Rightarrow> conn_state \<Rightarrow> addr \<Rightarrow> ('u, 'z) net_scheme \<Rightarrow> ('u, 'z) net_scheme res option" where
  "shutdown_while fuel os me expected a s =
     (case conns s a of
        None \<Rightarrow> Some (Inl Bad_deref)
      | Some c \<Rightarrow>
          if conn_state c = expected then
            (case fuel of 0 \<Rightarrow> None
             | Suc n \<Rightarrow>
                 (case run_in_loop os me (shutdown_in_loop os me a) (Conn_shutdown_in_loop a)
                         (put_conn a (c\<lparr>conn_state := Disconnecting\<rparr>) s) of
                    Inl e \<Rightarrow> Some (Inl e)
                  | Inr s1 \<Rightarrow> shutdown_while n os me expected a s1))
          else Some (Inr s))"

definition shutdown ::
  "nat \<Rightarrow> os \<Rightarrow> nat \<Rightarrow> addr \<Rightarrow> ('u, 'z) net_scheme \<Rightarrow> ('u, 'z) net_scheme res option" where
  "shutdown fuel os me a s = shutdown_while fuel os me Connected a s"

definition connect_established ::
  "('u, ('u, 'z) net_scheme) app \<Rightarrow> os \<Rightarrow> nat \<Rightarrow> addr \<Rightarrow> ('u, 'z) net_scheme \<Rightarrow> ('u, 'z) net_scheme res" where
  "connect_established app os me a s =
     (let s0 = assert_in_loop_thread (is_in_loop_thread me s) s in
      andthen (conn_of a s0) (\<lambda>c.
      cpp_assert (conn_state c = Connecting)
       (andthen (channel_change os me Enable_reading (conn_channel c) (put_conn a (c\<lparr>conn_state := Connected\<rparr>) s0))
          (invoke (connect_callback c) (\<lambda>cb. on_connection app cb a)))))"

definition connect_destroyed ::
  "('u, ('u, 'z) net_scheme) app \<Rightarrow> os \<Rightarrow> nat \<Rightarrow> addr \<Rightarrow> ('u, 'z) net_scheme \<Rightarrow> ('u, 'z) net_scheme res" where
  "connect_destroyed app os me a s =
     (let s0 = assert_in_loop_thread (is_in_loop_thread me s) s in
      andthen (conn_of a s0) (\<lambda>c.
      cpp_assert (conn_state c = Connected \<or> conn_state c = Disconnecting)
       (andthen (channel_change os me Disable_all (conn_channel c) (put_conn a (c\<lparr>conn_state := Disconnected\<rparr>) s0)) (\<lambda>s1.
        andthen (invoke (connect_callback c) (\<lambda>cb. on_connection app cb a) s1)
          (loop_remove_channel os me (conn_channel c))))))"

definition conn_handle_error :: "os \<Rightarrow> addr \<Rightarrow> ('u, 'z) net_scheme \<Rightarrow> ('u, 'z) net_scheme res" where
  "conn_handle_error os a s =
     andthen (conn_of a s) (\<lambda>c.
     andthen (deref (conn_channel c) s) (\<lambda>ch.
     Inr (log_to LOG_ERROR (snd (getSocketError os (ch_fd ch) s)))))"

definition conn_handle_close ::
  "('u, ('u, 'z) net_scheme) app \<Rightarrow> os \<Rightarrow> nat \<Rightarrow> addr \<Rightarrow> ('u, 'z) net_scheme \<Rightarrow> ('u, 'z) net_scheme res" where
  "conn_handle_close app os me a s =
     (let s0 = assert_in_loop_thread (is_in_loop_thread me s) s in
      andthen (conn_of a s0) (\<lambda>c.
      cpp_assert (conn_state c = Connected \<or> conn_state c = Disconnecting)
       (andthen (channel_change os me Disable_all (conn_channel c) s0)
          (invoke (conn_close_callback c) (\<lambda>cb. on_close app cb a)))))"

definition conn_handle_read ::
  "('u, ('u, 'z) net_scheme) app \<Rightarrow> os \<Rightarrow> nat \<Rightarrow> addr \<Rightarrow> timestamp \<Rightarrow> ('u, 'z) net_scheme \<Rightarrow> ('u, 'z) net_scheme res" where
  "conn_handle_read app os me a receive_time s =
     andthen (conn_of a s) (\<lambda>c.
     andthen (deref (conn_channel c) s) (\<lambda>ch.
     andthen (read_fd (os_readv os (length (syscalls s))) (input_buffer c)) (\<lambda>(n, saved_errno, b).
     let s1 = put_conn a (c\<lparr>input_buffer := b\<rparr>) (snd (issue os (Sys_readv (ch_fd ch)) s)) in
     if n > 0 then invoke (message_callback c) (\<lambda>cb. on_message app cb a receive_time) s1
     else if n = 0 then conn_handle_close app os me a s1
     else conn_handle_error os a (log_to LOG_SYSERR s1))))"

text \<open>The part of \<^verbatim>\<open>handle_write\<close> after the last byte was taken.\<close>

definition write_drained ::
  "os \<Rightarrow> nat \<Rightarrow> addr \<Rightarrow> 'u conn \<Rightarrow> ('u, 'z) net_scheme \<Rightarrow> ('u, 'z) net_scheme res" where
  "write_drained os me a c s2 =
     andthen (channel_change os me Disable_writing (conn_channel c) s2) (\<lambda>s3.
     let s4 = (if write_complete_callback c \<noteq> None then queue_in_loop os me (Conn_write_complete a) s3 else s3)
     in if conn_state c = Disconnecting then shutdown_in_loop os me a s4 else Inr s4)"

text \<open>
  \<^verbatim>\<open>handle_write\<close>: what is written is the readable range of the output buffer.
\<close>

definition conn_handle_write ::
  "os \<Rightarrow> nat \<Rightarrow> addr \<Rightarrow> ('u, 'z) net_scheme \<Rightarrow> ('u, 'z) net_scheme res" where
  "conn_handle_write os me a s =
     (let s0 = assert_in_loop_thread (is_in_loop_thread me s) s in
      andthen (conn_of a s0) (\<lambda>c.
      andthen (deref (conn_channel c) s0) (\<lambda>ch.
      if is_writing ch then
        andthen (subrange (buffer_bytes (output_buffer c)) (peek (output_buffer c))
                   (peek (output_buffer c) + unat (readable_bytes (output_buffer c)))) (\<lambda>bytes.
        case issue_write os (ch_fd ch) bytes s0 of (n, _, s1) \<Rightarrow>
        if n > 0 then
          andthen (retrieve (word_of_int n) (output_buffer c)) (\<lambda>b.
          let s2 = put_conn a (c\<lparr>output_buffer := b\<rparr>) s1 in
          if readable_bytes b = 0 then write_drained os me a c s2 else Inr s2)
        else Inr (log_to LOG_SYSERR s1))
      else Inr s0)))"

text \<open>The functor queued when all output is written: it calls the callback set by then.\<close>

definition conn_write_complete ::
  "('u, ('u, 'z) net_scheme) app \<Rightarrow> addr \<Rightarrow> ('u, 'z) net_scheme \<Rightarrow> ('u, 'z) net_scheme res" where
  "conn_write_complete app a s =
     andthen (conn_of a s) (\<lambda>c. invoke (write_complete_callback c) (\<lambda>cb. on_write_complete app cb a) s)"

definition set_tcp_no_delay ::
  "os \<Rightarrow> addr \<Rightarrow> bool \<Rightarrow> ('u, 'z) net_scheme \<Rightarrow> ('u, 'z) net_scheme res" where
  "set_tcp_no_delay os a on s =
     andthen (conn_of a s) (\<lambda>c. andthen (deref (conn_channel c) s) (\<lambda>ch. Inr (set_no_delay os (ch_fd ch) on s)))"

text \<open>
  What the closures of connections do when they are called; \<open>other\<close> stands for all other
  closures.  A read callback also gets the time of the poll.
\<close>

definition conn_call ::
  "('u, ('u, 'z) net_scheme) app \<Rightarrow> os \<Rightarrow> nat \<Rightarrow>
   ('u closure \<Rightarrow> ('u, 'z) net_scheme \<Rightarrow> ('u, 'z) net_scheme res) \<Rightarrow>
   'u closure \<Rightarrow> ('u, 'z) net_scheme \<Rightarrow> ('u, 'z) net_scheme res" where
  "conn_call app os me other cl =
     (case cl of
        Conn_handle_write a \<Rightarrow> conn_handle_write os me a
      | Conn_handle_error a \<Rightarrow> conn_handle_error os a
      | Conn_handle_close a \<Rightarrow> conn_handle_close app os me a
      | Conn_send_in_loop a message \<Rightarrow> send_in_loop os me a message
      | Conn_shutdown_in_loop a \<Rightarrow> shutdown_in_loop os me a
      | Conn_connect_destroyed a \<Rightarrow> connect_destroyed app os me a
      | Conn_write_complete a \<Rightarrow> conn_write_complete app a
      | _ \<Rightarrow> other cl)"

definition conn_call_read ::
  "('u, ('u, 'z) net_scheme) app \<Rightarrow> os \<Rightarrow> nat \<Rightarrow>
   ('u closure \<Rightarrow> timestamp \<Rightarrow> ('u, 'z) net_scheme \<Rightarrow> ('u, 'z) net_scheme res) \<Rightarrow>
   'u closure \<Rightarrow> timestamp \<Rightarrow> ('u, 'z) net_scheme \<Rightarrow> ('u, 'z) net_scheme res" where
  "conn_call_read app os me other cl t =
     (case cl of Conn_handle_read a \<Rightarrow> conn_handle_read app os me a t | _ \<Rightarrow> other cl t)"

section \<open>The store of connections\<close>

named_theorems net_simps \<open>rules for the store of connections\<close>

lemma conn_of_simps [net_simps]:
  "conns s a = Some c \<Longrightarrow> conn_of a s = Inr c" "conns s a = None \<Longrightarrow> conn_of a s = Inl Bad_deref"
  by (simp_all add: conn_of_def)

lemma conns_put_conn [simp]: "conns (put_conn a c s) = (conns s)(a \<mapsto> c)"
  by (simp add: put_conn_def)

lemma put_conn_frame [simp]:
  "chans (put_conn a c s) = chans s" "loop_poller (put_conn a c s) = loop_poller s"
  "syscalls (put_conn a c s) = syscalls s" "thread_id (put_conn a c s) = thread_id s"
  "pending_functors (put_conn a c s) = pending_functors s" "registered (put_conn a c s) = registered s"
  "calling_pending_functors (put_conn a c s) = calling_pending_functors s" "logs (put_conn a c s) = logs s"
  "timers (put_conn a c s) = timers s" "timer_heap (put_conn a c s) = timer_heap s"
  by (simp_all add: put_conn_def registered_def)

lemma loop_inv_put_conn [simp]: "loop_inv (put_conn a c s) = loop_inv s"
  by (simp add: loop_inv_def impl_inv_cong [of "put_conn a c s" s])

lemma is_in_loop_put_conn [simp]: "is_in_loop_thread me (put_conn a c s) = is_in_loop_thread me s"
  by (simp add: is_in_loop_thread_def)

lemma conns_more: "reactor.more s = reactor.more t \<Longrightarrow> conns s = conns t"
  by (cases s; cases t) simp

text \<open>States whose channels, poller and connections agree.\<close>

definition same_net :: "('u, 'z) net_scheme \<Rightarrow> ('u, 'z) net_scheme \<Rightarrow> bool" where
  "same_net s t \<longleftrightarrow> chans t = chans s \<and> loop_poller t = loop_poller s \<and> conns t = conns s"

lemma same_net_refl [simp]: "same_net s s" by (simp add: same_net_def)

lemma same_net_trans: "same_net s t \<Longrightarrow> same_net t u \<Longrightarrow> same_net s u"
  by (simp add: same_net_def)

lemma same_netD:
  "same_net s t \<Longrightarrow> loop_inv t = loop_inv s" "same_net s t \<Longrightarrow> registered t = registered s"
  using impl_inv_cong [of s t "loop_poller s"] by (simp_all add: same_net_def registered_def loop_inv_def)

lemma same_net_calls: "calls_only s t \<Longrightarrow> same_net s t"
  by (simp add: same_net_def calls_onlyD conns_more [OF calls_onlyD(3)])

lemma same_net_assert [simp]: "same_net s (assert_in_loop_thread b s)"
  by (simp add: assert_in_loop_thread_def same_net_calls calls_only_log)

lemma same_net_queue [simp]: "same_net s (queue_in_loop os me cb s)"
  using conns_more [of "queue_in_loop os me cb s" s] by (simp add: same_net_def)

lemma syscalls_assert [simp]: "syscalls (assert_in_loop_thread b s) = syscalls s"
  by (simp add: assert_in_loop_thread_def log_to_def)

section \<open>Live connections\<close>

text \<open>
  A connection whose channel is registered and which waits for writability exactly while
  bytes are queued.
\<close>

definition conn_live ::
  "('u, 'z) net_scheme \<Rightarrow> addr \<Rightarrow> 'u conn \<Rightarrow> 'u closure channel \<Rightarrow> bool" where
  "conn_live s a c ch \<longleftrightarrow>
     loop_inv s \<and> conns s a = Some c \<and> chans s (conn_channel c) = Some ch \<and> owner_loop ch = this_loop \<and>
     registered s (ch_fd ch) = Some (conn_channel c) \<and> buf_inv (output_buffer c) \<and>
     (is_writing ch \<longleftrightarrow> content (output_buffer c) \<noteq> [])"

lemma conn_live_same_net: "same_net s t \<Longrightarrow> conn_live t a c ch = conn_live s a c ch"
  by (simp add: conn_live_def same_netD) (simp add: same_net_def)

lemma channel_change_conn:
  assumes "loop_inv s" "chans s b = Some ch" "owner_loop ch = this_loop" "registered s (ch_fd ch) = Some b"
  shows "\<exists>s' i. channel_change os me op b s = Inr s' \<and> loop_inv s' \<and> registered s' = registered s \<and>
    chans s' b = Some (ch\<lparr>ch_events := change_events op (ch_events ch), ch_index := i\<rparr>) \<and>
    conns s' = conns s \<and> syscalls s' = syscalls s \<and> pending_functors s' = pending_functors s \<and>
    thread_id s' = thread_id s \<and> calling_pending_functors s' = calling_pending_functors s"
proof -
  let ?x = "ch\<lparr>ch_events := change_events op (ch_events ch)\<rparr>"
  have "changeable op b ch s" using assms by (simp add: changeable_def)
  from channel_change_ok [OF assms(1,2) this, of os me] obtain s' where
    s': "channel_change os me op b s = Inr s'" "loop_inv s'" "registered s' = (registered s)(ch_fd ch \<mapsto> b)"
      "same_but_poller (put_chan b ?x s) s'" by blast
  have more: "reactor.more s' = reactor.more s"
    using same_but_pollerD(13) [OF s'(4)] by (simp add: put_chan_def)
  from same_but_poller_chan [OF s'(4), of b ?x] obtain i where
    "chans s' b = Some (?x\<lparr>ch_index := i\<rparr>)" by auto
  with s' assms(4) more same_but_pollerD [OF s'(4)] show ?thesis
    by (auto simp: fun_upd_idem conns_more [OF more] put_chan_def)
qed

section \<open>The byte stream\<close>

text \<open>The bytes the kernel took from the \<^verbatim>\<open>write\<close> calls on a descriptor, in order.\<close>

definition taken :: "os \<Rightarrow> int \<Rightarrow> nat \<times> syscall \<Rightarrow> string" where
  "taken os fd p =
     (case snd p of Sys_write f bytes \<Rightarrow> if f = fd then take (nat (os_ret os (fst p))) bytes else [] | _ \<Rightarrow> [])"

definition accepted :: "os \<Rightarrow> int \<Rightarrow> syscall list \<Rightarrow> string" where
  "accepted os fd cs = concat (map (taken os fd) (List.enumerate 0 cs))"

lemma accepted_snoc: "accepted os fd (cs @ [c]) = accepted os fd cs @ taken os fd (length cs, c)"
  by (simp add: accepted_def enumerate_append_eq)

lemma accepted_queue [simp]:
  "accepted os fd (syscalls (queue_in_loop os me cb s)) = accepted os fd (syscalls s)"
  by (simp add: queue_in_loop_def Let_def accepted_snoc taken_def)

lemma issue_write_eq:
  "issue_write os fd bytes s =
     (min (os_ret os (length (syscalls s))) (int (length bytes)), os_errno os (length (syscalls s)),
      s\<lparr>syscalls := syscalls s @ [Sys_write fd bytes]\<rparr>)"
  by (simp add: issue_write_def issue_errno_def issue_def)

lemma take_min_length: "take (nat (min n (int (length xs)))) xs = take (nat n) xs"
  by (simp add: min_def)

text \<open>The direct write happens only when nothing is queued; what it does not take is left over.\<close>

lemma direct_write_ok:
  assumes live: "conn_live s a c ch" and dw: "direct_write os me a c ch msg s = (n, s1)"
  shows "0 \<le> n" "nat n \<le> length msg" "same_net s s1"
    "accepted os (ch_fd ch) (syscalls s1) = accepted os (ch_fd ch) (syscalls s) @ take (nat n) msg"
    "content (output_buffer c) \<noteq> [] \<Longrightarrow> n = 0"
proof -
  let ?k = "length (syscalls s)"
  let ?s = "s\<lparr>syscalls := syscalls s @ [Sys_write (ch_fd ch) msg]\<rparr>"
  have empty: "readable_bytes (output_buffer c) = 0 \<longleftrightarrow> content (output_buffer c) = []"
    using live dataq.count_0 by (simp add: conn_live_def)
  have w: "is_writing ch \<longleftrightarrow> content (output_buffer c) \<noteq> []" using live by (simp add: conn_live_def)
  have same: "same_net s ?s" by (simp add: same_net_def)
  have acc: "accepted os (ch_fd ch) (syscalls ?s) = accepted os (ch_fd ch) (syscalls s) @ take (nat (os_ret os ?k)) msg"
    by (simp add: accepted_snoc taken_def)
  consider (busy) "content (output_buffer c) \<noteq> []" "n = 0" "s1 = s"
    | (some) "content (output_buffer c) = []" "0 \<le> os_ret os ?k" "n = min (os_ret os ?k) (int (length msg))"
        "s1 = ?s \<or> s1 = queue_in_loop os me (Conn_write_complete a) ?s"
    | (fail) "content (output_buffer c) = []" "os_ret os ?k < 0" "n = 0" "s1 = ?s \<or> s1 = log_to LOG_SYSERR ?s"
    using dw empty w by (fastforce simp: direct_write_def issue_write_eq split: if_splits)
  note cases = this
  have log: "same_net ?s (log_to LOG_SYSERR ?s)" "syscalls (log_to LOG_SYSERR ?s) = syscalls ?s"
    by (simp add: same_net_calls calls_only_log) (simp add: log_to_def)
  show "0 \<le> n" "nat n \<le> length msg" by (cases rule: cases; simp)+
  show "content (output_buffer c) \<noteq> [] \<Longrightarrow> n = 0" by (cases rule: cases) simp_all
  show "same_net s s1" by (cases rule: cases) (auto intro: same same_net_trans [OF same] log(1))
  show "accepted os (ch_fd ch) (syscalls s1) = accepted os (ch_fd ch) (syscalls s) @ take (nat n) msg"
  proof (cases rule: cases)
    case some
    then have "accepted os (ch_fd ch) (syscalls s1) = accepted os (ch_fd ch) (syscalls ?s)" by auto
    with acc some(3) show ?thesis by (simp only: take_min_length)
  next
    case fail
    then have "syscalls s1 = syscalls ?s" using log(2) by auto
    with acc fail show ?thesis by simp
  qed simp
qed

declare change_events.simps [simp del]

lemma writing_conn [simp]:
  "is_writing (ch\<lparr>ch_events := change_events Enable_writing e, ch_index := i\<rparr>)"
  "\<not> is_writing (ch\<lparr>ch_events := change_events Disable_writing e, ch_index := i\<rparr>)"
  by (simp_all add: is_writing_def writing_after_change)

text \<open>What a connection operation keeps of the connection: everything but its buffers.\<close>

definition same_conn :: "'u conn \<Rightarrow> 'u conn \<Rightarrow> bool" where
  "same_conn c c' \<longleftrightarrow>
     c' = c\<lparr>input_buffer := input_buffer c', output_buffer := output_buffer c'\<rparr>"

lemma same_conn_refl [simp]: "same_conn c c" by (simp add: same_conn_def)

lemma same_conn_trans: "same_conn c d \<Longrightarrow> same_conn d e \<Longrightarrow> same_conn c e"
  by (cases c; cases d; cases e) (simp add: same_conn_def)

lemma same_conn_output [simp]: "same_conn c (c\<lparr>output_buffer := b\<rparr>)"
  by (simp add: same_conn_def)

lemma same_connD: "same_conn c c' \<Longrightarrow> conn_state c' = conn_state c \<and> conn_channel c' = conn_channel c"
  by (cases c; cases c') (simp add: same_conn_def)

definition stream :: "os \<Rightarrow> ('u, 'z) net_scheme \<Rightarrow> 'u conn \<Rightarrow> 'u closure channel \<Rightarrow> string" where
  "stream os s c ch = accepted os (ch_fd ch) (syscalls s) @ content (output_buffer c)"

text \<open>Storing bytes in the output buffer and waiting for writability if that is not done yet.\<close>

lemma wait_for_writability:
  assumes live: "conn_live s a c ch" and b: "buf_inv b" "content b \<noteq> []"
  shows "\<exists>s' ch'.
    (if \<not> is_writing ch then channel_change os me Enable_writing (conn_channel c) (put_conn a (c\<lparr>output_buffer := b\<rparr>) s)
     else Inr (put_conn a (c\<lparr>output_buffer := b\<rparr>) s)) = Inr s' \<and>
    conn_live s' a (c\<lparr>output_buffer := b\<rparr>) ch' \<and> ch_fd ch' = ch_fd ch \<and> syscalls s' = syscalls s"
proof (cases "is_writing ch")
  case True
  then show ?thesis
    using live b by (intro exI [of _ "put_conn a (c\<lparr>output_buffer := b\<rparr>) s"] exI [of _ ch]) (simp add: conn_live_def)
next
  case False
  let ?s2 = "put_conn a (c\<lparr>output_buffer := b\<rparr>) s"
  have "loop_inv ?s2" "chans ?s2 (conn_channel c) = Some ch" "owner_loop ch = this_loop"
    "registered ?s2 (ch_fd ch) = Some (conn_channel c)"
    using live by (simp_all add: conn_live_def)
  from channel_change_conn [OF this, of os me Enable_writing] obtain s3 i where
    s3: "channel_change os me Enable_writing (conn_channel c) ?s2 = Inr s3" "loop_inv s3"
      "registered s3 = registered ?s2" "conns s3 = conns ?s2" "syscalls s3 = syscalls ?s2"
      "chans s3 (conn_channel c) = Some (ch\<lparr>ch_events := change_events Enable_writing (ch_events ch), ch_index := i\<rparr>)"
    by blast
  let ?ch = "ch\<lparr>ch_events := change_events Enable_writing (ch_events ch), ch_index := i\<rparr>"
  have "conn_live s3 a (c\<lparr>output_buffer := b\<rparr>) ?ch" using live s3 b by (simp add: conn_live_def)
  with False s3 show ?thesis by (intro exI [of _ s3] exI [of _ ?ch]) simp
qed

lemma send_in_loop_ok:
  assumes live: "conn_live s a c ch" and room: "room (output_buffer c) (length msg)"
  shows "\<exists>s' c' ch'. send_in_loop os me a msg s = Inr s' \<and> conn_live s' a c' ch' \<and> same_conn c c' \<and>
    input_buffer c' = input_buffer c \<and> ch_fd ch' = ch_fd ch \<and> stream os s' c' ch' = stream os s c ch @ msg \<and>
    (\<forall>k. room (output_buffer c) (length msg + k) \<longrightarrow> room (output_buffer c') k)"
proof -
  let ?s0 = "assert_in_loop_thread (is_in_loop_thread me s) s"
  obtain n s1 where dw: "direct_write os me a c ch msg ?s0 = (n, s1)" by fastforce
  have live0: "conn_live ?s0 a c ch" using live conn_live_same_net [OF same_net_assert] by blast
  note d = direct_write_ok [OF live0 dw]
  have live1: "conn_live s1 a c ch" using live0 conn_live_same_net [OF d(3)] by blast
  have c0: "conn_of a ?s0 = Inr c" "deref (conn_channel c) ?s0 = Inr ch"
    using live0 by (auto simp: conn_live_def net_simps)
  show ?thesis
  proof (cases "nat n < length msg")
    case False
    then have n: "nat n = length msg" using d(2) by simp
    have "accepted os (ch_fd ch) (syscalls s1) @ content (output_buffer c) = stream os s c ch @ msg"
      using d(4,5) n by (cases "content (output_buffer c) = []") (auto simp: stream_def)
    moreover have "send_in_loop os me a msg s = Inr s1"
      using c0 dw d(1) n by (simp add: send_in_loop_def Let_def)
    moreover have "room (output_buffer c) k" if "room (output_buffer c) (length msg + k)" for k
      using that by (rule room_mono) simp
    ultimately show ?thesis using live1
      by (intro exI [of _ s1] exI [of _ c] exI [of _ ch]) (simp add: stream_def)
  next
    case True
    let ?rest = "drop (nat n) msg"
    have "room (output_buffer c) (length ?rest)" "buf_inv (output_buffer c)"
      using live room_mono [OF room] by (simp_all add: conn_live_def)
    then obtain b where b: "append_bytes ?rest (output_buffer c) = Inr b" "buf_inv b"
      "content b = content (output_buffer c) @ ?rest"
      "\<forall>k. room (output_buffer c) (length ?rest + k) \<longrightarrow> room b k"
      using dataq.put by blast
    have "content b \<noteq> []" using b(3) True by simp
    from wait_for_writability [OF live1 b(2) this, of os me] obtain s' ch' where
      s': "send_in_loop os me a msg s = Inr s'" "conn_live s' a (c\<lparr>output_buffer := b\<rparr>) ch'"
        "ch_fd ch' = ch_fd ch" "syscalls s' = syscalls s1"
      using c0 dw d(1) True b(1) by (auto simp: send_in_loop_def Let_def append_bytes_def)
    moreover have "accepted os (ch_fd ch) (syscalls s1) @ content b = stream os s c ch @ msg"
      using d(4,5) b(3) by (cases "content (output_buffer c) = []") (simp_all add: stream_def)
    moreover have "room b k" if "room (output_buffer c) (length msg + k)" for k
      using b(4) room_mono [OF that, of "length ?rest + k"] by simp
    ultimately show ?thesis
      by (intro exI [of _ s'] exI [of _ "c\<lparr>output_buffer := b\<rparr>"] exI [of _ ch']) (simp add: stream_def)
  qed
qed

lemma readable_subrange:
  "buf_inv b \<Longrightarrow> subrange (buffer_bytes b) (peek b) (peek b + unat (readable_bytes b)) = Inr (content b)"
  using unat_readable_bytes [of b] by (simp add: subrange_def peek_def content_def buf_inv_def)

lemma retrieve_room: "retrieve n b = Inr b' \<Longrightarrow> room b k \<Longrightarrow> room b' k"
  by (auto simp: retrieve_def room_def)

text \<open>The system calls issued between two states.\<close>

definition new_calls :: "('u, 'z) reactor_scheme \<Rightarrow> ('u, 'z) reactor_scheme \<Rightarrow> syscall list" where
  "new_calls s s' = drop (length (syscalls s)) (syscalls s')"

lemma shutdown_in_loop_ok:
  assumes live: "conn_live s a c ch"
  shows "\<exists>s'. shutdown_in_loop os me a s = Inr s' \<and> same_net s s' \<and>
    syscalls s' = syscalls s @ (if content (output_buffer c) = [] then [Sys_shutdown (ch_fd ch)] else [])"
proof -
  let ?s0 = "assert_in_loop_thread (is_in_loop_thread me s) s"
  have c0: "conn_of a ?s0 = Inr c" "deref (conn_channel c) ?s0 = Inr ch"
    using live conn_live_same_net [OF same_net_assert, of _ s a c ch] by (auto simp: conn_live_def net_simps)
  have "same_net ?s0 (shutdownWrite os (ch_fd ch) ?s0)"
    by (intro same_net_calls socket_calls_only)
  then have "same_net s (shutdownWrite os (ch_fd ch) ?s0)"
    by (rule same_net_trans [OF same_net_assert])
  moreover have "syscalls (shutdownWrite os (ch_fd ch) ?s0) = syscalls s @ [Sys_shutdown (ch_fd ch)]"
    by (simp add: shutdownWrite_def issue_def log_to_def assert_in_loop_thread_def)
  ultimately show ?thesis
    using c0 live by (simp add: shutdown_in_loop_def shutdown_write_def Let_def conn_live_def)
qed

lemma queue_new_calls:
  "\<exists>cs. syscalls (queue_in_loop os me cb s) = syscalls s @ cs \<and> Sys_shutdown fd \<notin> set cs"
  by (simp add: queue_in_loop_def Let_def)

lemma write_drained_ok:
  assumes live: "conn_live s a c ch" and b: "buf_inv b" "content b = []"
  shows "\<exists>s' ch'. write_drained os me a c (put_conn a (c\<lparr>output_buffer := b\<rparr>) s) = Inr s' \<and>
    conn_live s' a (c\<lparr>output_buffer := b\<rparr>) ch' \<and> ch_fd ch' = ch_fd ch \<and>
    accepted os (ch_fd ch) (syscalls s') = accepted os (ch_fd ch) (syscalls s) \<and>
    (\<exists>cs. syscalls s' = syscalls s @ cs \<and> (Sys_shutdown (ch_fd ch) \<in> set cs \<longleftrightarrow> conn_state c = Disconnecting))"
proof -
  let ?c = "c\<lparr>output_buffer := b\<rparr>" and ?fd = "ch_fd ch" and ?s2 = "put_conn a (c\<lparr>output_buffer := b\<rparr>) s"
  let ?ch = "\<lambda>i. ch\<lparr>ch_events := change_events Disable_writing (ch_events ch), ch_index := i\<rparr>"
  have "loop_inv ?s2" "chans ?s2 (conn_channel c) = Some ch" "owner_loop ch = this_loop"
    "registered ?s2 (ch_fd ch) = Some (conn_channel c)"
    using live by (simp_all add: conn_live_def)
  from channel_change_conn [OF this, of os me Disable_writing] obtain s3 i where
    s3: "channel_change os me Disable_writing (conn_channel c) ?s2 = Inr s3" "loop_inv s3"
      "registered s3 = registered s" "chans s3 (conn_channel c) = Some (?ch i)"
      "conns s3 = conns ?s2" "syscalls s3 = syscalls s"
    by auto
  define s4 where "s4 = (if write_complete_callback c \<noteq> None then queue_in_loop os me (Conn_write_complete a) s3 else s3)"
  obtain cs where s4: "same_net s3 s4" "syscalls s4 = syscalls s @ cs" "Sys_shutdown ?fd \<notin> set cs"
    using queue_new_calls [of os me "Conn_write_complete a" s3 ?fd] s3(6)
    by (cases "write_complete_callback c") (auto simp: s4_def)
  have acc4: "accepted os ?fd (syscalls s4) = accepted os ?fd (syscalls s)"
    using s3(6) by (simp add: s4_def)
  have "conn_live s3 a ?c (?ch i)" using live s3 b by (simp add: conn_live_def)
  then have live4: "conn_live s4 a ?c (?ch i)" using conn_live_same_net [OF s4(1)] by blast
  have run: "write_drained os me a c ?s2 =
      (if conn_state c = Disconnecting then shutdown_in_loop os me a s4 else Inr s4)"
    using s3(1) by (simp add: write_drained_def s4_def Let_def)
  show ?thesis
  proof (cases "conn_state c = Disconnecting")
    case False
    with run live4 s4 acc4 show ?thesis
      by (intro exI [of _ s4] exI [of _ "?ch i"]) simp
  next
    case True
    from shutdown_in_loop_ok [OF live4, of os me] b(2) obtain s5 where
      s5: "shutdown_in_loop os me a s4 = Inr s5" "same_net s4 s5" "syscalls s5 = syscalls s4 @ [Sys_shutdown ?fd]"
      by auto
    have "conn_live s5 a ?c (?ch i)" using live4 conn_live_same_net [OF s5(2)] by blast
    moreover have "accepted os ?fd (syscalls s5) = accepted os ?fd (syscalls s)"
      using acc4 by (simp add: s5(3) accepted_snoc taken_def)
    ultimately show ?thesis using True run s4 s5
      by (intro exI [of _ s5] exI [of _ "?ch i"]) simp
  qed
qed

text \<open>
  What a writability event leaves: the same stream, with the connection still live, and the
  write side shut down exactly if the connection is closing and its last byte was taken.
\<close>

definition wrote :: "os \<Rightarrow> addr \<Rightarrow> ('u, 'z) net_scheme \<Rightarrow> 'u conn \<Rightarrow> 'u closure channel \<Rightarrow> ('u, 'z) net_scheme \<Rightarrow> bool" where
  "wrote os a s c ch s' \<longleftrightarrow> (\<exists>c' ch'. conn_live s' a c' ch' \<and> same_conn c c' \<and> input_buffer c' = input_buffer c \<and> ch_fd ch' = ch_fd ch \<and>
     stream os s' c' ch' = stream os s c ch \<and>
     accepted os (ch_fd ch) (syscalls s') = accepted os (ch_fd ch) (syscalls s) @
       take (nat (os_ret os (length (syscalls s)))) (content (output_buffer c)) \<and>
     (\<forall>k. room (output_buffer c) k \<longrightarrow> room (output_buffer c') k) \<and>
     (\<exists>cs. syscalls s' = syscalls s @ cs \<and>
       (Sys_shutdown (ch_fd ch) \<in> set cs \<longleftrightarrow>
          conn_state c = Disconnecting \<and> content (output_buffer c) \<noteq> [] \<and> content (output_buffer c') = [])))"

lemma unat_word_of_int_small: "0 \<le> m \<Longrightarrow> m < 2 ^ 64 \<Longrightarrow> unat (word_of_int m :: size_t) = nat m"
  by (metis nat_less_numeral_power_cancel_iff nat_0_le of_nat_nat unat_of_nat_no_wrap word_of_nat_eq_0_iff
      of_int_of_nat_eq)

lemma content_less: "buf_inv b \<Longrightarrow> length (content b) < 2 ^ 63"
  by (simp add: length_content unat_readable_bytes) (auto simp: buf_inv_def dest: max_size_less)

text \<open>The write itself: \<open>n\<close> bytes of the output buffer were taken.\<close>

lemma write_taken_ok:
  assumes live: "conn_live s a c ch" and n: "0 < n" "n \<le> int (length (content (output_buffer c)))"
    and acc: "accepted os (ch_fd ch) (syscalls s) @ drop (nat n) (content (output_buffer c)) = stream os t c ch"
    and acc1: "accepted os (ch_fd ch) (syscalls s) = accepted os (ch_fd ch) (syscalls t) @
      take (nat (os_ret os (length (syscalls t)))) (content (output_buffer c))"
    and calls: "syscalls s = syscalls t @ cs" "Sys_shutdown (ch_fd ch) \<notin> set cs"
  shows "\<exists>s'. andthen (retrieve (word_of_int n) (output_buffer c)) (\<lambda>b.
      if readable_bytes b = 0 then write_drained os me a c (put_conn a (c\<lparr>output_buffer := b\<rparr>) s)
      else Inr (put_conn a (c\<lparr>output_buffer := b\<rparr>) s)) = Inr s' \<and> wrote os a t c ch s'"
proof -
  have inv: "buf_inv (output_buffer c)" and w: "is_writing ch"
    using live n by (auto simp: conn_live_def)
  have "unat (word_of_int n :: size_t) = nat n"
    using n content_less [OF inv] by (intro unat_word_of_int_small) simp_all
  with dataq.get [OF inv, of "word_of_int n"] n obtain b where
    b: "retrieve (word_of_int n) (output_buffer c) = Inr b" "buf_inv b"
      "content b = drop (nat n) (content (output_buffer c))" by (auto simp: nat_le_iff)
  let ?c = "c\<lparr>output_buffer := b\<rparr>" and ?s = "put_conn a (c\<lparr>output_buffer := b\<rparr>) s"
  have ne: "content (output_buffer c) \<noteq> []" using n by auto
  note room = retrieve_room [OF b(1)]
  show ?thesis
  proof (cases "content b = []")
    case True
    from write_drained_ok [OF live b(2) True, of os me] obtain s' ch' ds where
      s': "write_drained os me a c ?s = Inr s'" "conn_live s' a ?c ch'" "ch_fd ch' = ch_fd ch"
        "accepted os (ch_fd ch) (syscalls s') = accepted os (ch_fd ch) (syscalls s)"
        "syscalls s' = syscalls s @ ds" "Sys_shutdown (ch_fd ch) \<in> set ds \<longleftrightarrow> conn_state c = Disconnecting"
      by blast
    then have "wrote os a t c ch s'" unfolding wrote_def
      using True acc acc1 b(3) calls ne room by (intro exI [of _ ?c] exI [of _ ch']) (auto simp: stream_def)
    with True s'(1) b(1) dataq.count_0 [OF b(2)] show ?thesis by simp
  next
    case False
    then have "conn_live ?s a ?c ch" using live b(2) w by (simp add: conn_live_def)
    then have "wrote os a t c ch ?s" unfolding wrote_def
      using False acc acc1 b(3) calls room by (intro exI [of _ ?c] exI [of _ ch]) (auto simp: stream_def)
    with False b(1) dataq.count_0 [OF b(2)] show ?thesis by simp
  qed
qed

lemma conn_handle_write_ok:
  assumes live: "conn_live s a c ch"
  shows "\<exists>s'. conn_handle_write os me a s = Inr s' \<and> wrote os a s c ch s'"
proof -
  let ?s0 = "assert_in_loop_thread (is_in_loop_thread me s) s" and ?b = "output_buffer c" and ?fd = "ch_fd ch"
  let ?s1 = "?s0\<lparr>syscalls := syscalls ?s0 @ [Sys_write ?fd (content ?b)]\<rparr>"
  define n where "n = min (os_ret os (length (syscalls s))) (int (length (content ?b)))"
  have iw: "issue_write os ?fd (content ?b) ?s0 = (n, os_errno os (length (syscalls s)), ?s1)"
    by (simp add: issue_write_eq n_def)
  have inv: "buf_inv ?b" and w: "is_writing ch \<longleftrightarrow> content ?b \<noteq> []" using live by (simp_all add: conn_live_def)
  have live0: "conn_live ?s0 a c ch" using live conn_live_same_net [OF same_net_assert] by blast
  have "same_net ?s0 ?s1" by (simp add: same_net_def)
  then have live1: "conn_live ?s1 a c ch" using live0 conn_live_same_net by blast
  have c0: "conn_of a ?s0 = Inr c" "deref (conn_channel c) ?s0 = Inr ch"
    using live0 by (auto simp: conn_live_def net_simps)
  have acc: "accepted os ?fd (syscalls ?s1) = accepted os ?fd (syscalls s) @ take (nat n) (content ?b)"
    by (simp add: accepted_snoc taken_def take_min_length n_def)
  then have acc1: "accepted os ?fd (syscalls ?s1) =
      accepted os ?fd (syscalls s) @ take (nat (os_ret os (length (syscalls s)))) (content ?b)"
    by (simp only: n_def take_min_length)
  have n_le: "n \<le> int (length (content ?b))" by (simp add: n_def)
  consider (idle) "content ?b = []" | (fail) "content ?b \<noteq> []" "n \<le> 0" | (some) "content ?b \<noteq> []" "0 < n"
    by linarith
  then show ?thesis
  proof cases
    case idle
    then have "conn_handle_write os me a s = Inr ?s0" using c0 w by (simp add: conn_handle_write_def Let_def)
    moreover have "wrote os a s c ch ?s0" unfolding wrote_def
      using live0 idle by (intro exI [of _ c] exI [of _ ch]) (simp add: stream_def)
    ultimately show ?thesis by blast
  next
    case fail
    then have "conn_handle_write os me a s = Inr (log_to LOG_SYSERR ?s1)"
      using c0 w by (simp add: conn_handle_write_def Let_def iw readable_subrange [OF inv])
    moreover have "conn_live (log_to LOG_SYSERR ?s1) a c ch"
      using live1 conn_live_same_net [OF same_net_calls [OF calls_only_log]] by blast
    moreover have "syscalls (log_to LOG_SYSERR ?s1) = syscalls ?s1" by (simp add: log_to_def)
    ultimately show ?thesis using acc acc1 fail unfolding wrote_def
      by (intro exI [of _ "log_to LOG_SYSERR ?s1"] conjI exI [of _ c] exI [of _ ch]) (simp_all add: stream_def)
  next
    case some
    have "accepted os ?fd (syscalls ?s1) @ drop (nat n) (content ?b) = stream os s c ch"
      using acc by (simp add: stream_def)
    note taken = write_taken_ok [OF live1 some(2) n_le this acc1, of "[Sys_write ?fd (content ?b)]" me]
    have "conn_handle_write os me a s = andthen (retrieve (word_of_int n) ?b) (\<lambda>b.
        if readable_bytes b = 0 then write_drained os me a c (put_conn a (c\<lparr>output_buffer := b\<rparr>) ?s1)
        else Inr (put_conn a (c\<lparr>output_buffer := b\<rparr>) ?s1))"
      using c0 w some by (simp add: conn_handle_write_def Let_def iw readable_subrange [OF inv] heap_simps cong: if_cong)
    then show ?thesis using taken by (simp del: andthen_eq_Inr)
  qed
qed

section \<open>What every operation keeps\<close>

text \<open>Whatever a poller does, it changes its own state and the channels only.\<close>

lemma heap_more_assert [simp]:
  "heap.more (assert_in_loop_thread b s) = heap.more s" "clock_reads (assert_in_loop_thread b s) = clock_reads s"
  by (simp_all add: assert_in_loop_thread_def log_to_def)

lemma clock_reads_poller [simp]:
  "clock_reads (ctl_report opn r s) = clock_reads s" "clock_reads (put_chan a x s) = clock_reads s"
  by (cases opn; simp add: ctl_report_def) (simp add: put_chan_def)

lemma modify_chan_more: "modify_chan a f s = Inr s' \<Longrightarrow> heap.more s' = heap.more s \<and> clock_reads s' = clock_reads s"
  by (auto simp: modify_chan_def put_chan_def)

lemma poll_update_more: "poll_update_channel il a (p, s) = Inr (p', s') \<Longrightarrow> heap.more s' = heap.more s \<and> clock_reads s' = clock_reads s"
  by (auto simp: poll_update_channel_def Let_def split: if_splits)

lemma poll_remove_more: "poll_remove_channel il a (p, s) = Inr (p', s') \<Longrightarrow> heap.more s' = heap.more s \<and> clock_reads s' = clock_reads s"
  by (auto simp: poll_remove_channel_def Let_def dest: modify_chan_more split: if_splits option.splits)

lemma epoll_update_more': "epoll_update ctl opn a (p, s) = Inr (p', s') \<Longrightarrow> heap.more s' = heap.more s \<and> clock_reads s' = clock_reads s"
  by (auto simp: epoll_update_def case_prod_beta Let_def)

lemma epoll_update_more: "epoll_update_channel ctl il a (p, s) = Inr (p', s') \<Longrightarrow> heap.more s' = heap.more s \<and> clock_reads s' = clock_reads s"
  by (auto simp: epoll_update_channel_def Let_def dest!: modify_chan_more epoll_update_more' split: if_splits)

lemma epoll_remove_more: "epoll_remove_channel ctl il a (p, s) = Inr (p', s') \<Longrightarrow> heap.more s' = heap.more s \<and> clock_reads s' = clock_reads s"
  by (auto simp: epoll_remove_channel_def Let_def dest!: modify_chan_more epoll_update_more' split: if_splits)

lemma map_sum_eq_Inr: "map_sum f g x = Inr y \<longleftrightarrow> (\<exists>z. x = Inr z \<and> y = g z)"
  by (cases x) auto

lemma poller_update_more: "poller_update_channel ctl il a (p, s) = Inr (p', s') \<Longrightarrow> heap.more s' = heap.more s \<and> clock_reads s' = clock_reads s"
  by (cases p) (auto simp: poller_update_channel_def map_sum_eq_Inr dest: poll_update_more epoll_update_more)

lemma poller_remove_more: "poller_remove_channel ctl il a (p, s) = Inr (p', s') \<Longrightarrow> heap.more s' = heap.more s \<and> clock_reads s' = clock_reads s"
  by (cases p) (auto simp: poller_remove_channel_def map_sum_eq_Inr dest: poll_remove_more epoll_remove_more)

text \<open>A channel operation changes nothing of the loop but its poller.\<close>

definition same_loop :: "('u, 'z) reactor_scheme \<Rightarrow> ('u, 'z) reactor_scheme \<Rightarrow> bool" where
  "same_loop s t \<longleftrightarrow> (\<exists>p h. heap.more h = heap.more s \<and> clock_reads h = clock_reads s \<and> t = h\<lparr>loop_poller := p\<rparr>)"

lemma same_loopD:
  assumes "same_loop s t"
  shows "reactor.more t = reactor.more s" "thread_id t = thread_id s" "pending_functors t = pending_functors s"
    "syscalls t = syscalls s" "calling_pending_functors t = calling_pending_functors s"
    "timers t = timers s" "timer_heap t = timer_heap s" "timer_fd t = timer_fd s" "wakeup_fd t = wakeup_fd s"
    "clock_reads t = clock_reads s"
  using assms unfolding same_loop_def by (cases s; auto; case_tac h; simp)+

lemma loop_update_channel_same: "loop_update_channel os me a s = Inr s' \<Longrightarrow> same_loop s s'"
proof -
  assume "loop_update_channel os me a s = Inr s'"
  then obtain p h where "poller_update_channel (os_epoll_ctl os) (is_in_loop_thread me s) a
      (loop_poller s, assert_in_loop_thread (is_in_loop_thread me s) s) = Inr (p, h)" "s' = h\<lparr>loop_poller := p\<rparr>"
    by (auto simp: loop_update_channel_def Let_def)
  with poller_update_more [OF this(1)] show ?thesis
    by (auto simp: same_loop_def)
qed

lemma loop_remove_channel_same: "loop_remove_channel os me a s = Inr s' \<Longrightarrow> same_loop s s'"
proof -
  assume "loop_remove_channel os me a s = Inr s'"
  then obtain p h where "poller_remove_channel (os_epoll_ctl os) (is_in_loop_thread me s) a
      (loop_poller s, assert_in_loop_thread (is_in_loop_thread me s) s) = Inr (p, h)" "s' = h\<lparr>loop_poller := p\<rparr>"
    by (auto simp: loop_remove_channel_def Let_def)
  with poller_remove_more [OF this(1)] show ?thesis
    by (auto simp: same_loop_def)
qed

lemma channel_change_same: "channel_change os me c a s = Inr s' \<Longrightarrow> same_loop s s'"
  by (auto simp: channel_change_def modify_chan_def put_chan_def same_loop_def dest!: loop_update_channel_same)

lemmas loop_remove_channel_more = same_loopD(1) [OF loop_remove_channel_same]
lemmas channel_change_more = same_loopD(1) [OF channel_change_same]

lemmas loop_remove_channel_conns = conns_more [OF loop_remove_channel_more]
lemmas channel_change_conns = conns_more [OF channel_change_more]

section \<open>States of a connection\<close>

fun conn_rank :: "conn_state \<Rightarrow> nat" where
  "conn_rank Connecting = 0"
| "conn_rank Connected = 1"
| "conn_rank Disconnecting = 2"
| "conn_rank Disconnected = 3"

lemma conn_rank_top [simp]: "3 \<le> conn_rank x \<longleftrightarrow> x = Disconnected"
  by (cases x) simp_all

definition forward :: "addr \<Rightarrow> ('u, 'z) net_scheme \<Rightarrow> ('u, 'z) net_scheme \<Rightarrow> bool" where
  "forward a s s' \<longleftrightarrow> (\<forall>c. conns s a = Some c \<longrightarrow>
     (\<exists>c'. conns s' a = Some c' \<and> conn_rank (conn_state c) \<le> conn_rank (conn_state c')))"

lemma forward_trans: "forward a s t \<Longrightarrow> forward a t u \<Longrightarrow> forward a s u"
  unfolding forward_def by (meson le_trans)

lemma forward_eq [intro]: "conns t = conns s \<Longrightarrow> forward a s t"
  by (simp add: forward_def)

lemma forward_put [intro]:
  "conns s a = Some c \<Longrightarrow> conns t = (conns s)(a \<mapsto> c') \<Longrightarrow> conn_rank (conn_state c) \<le> conn_rank (conn_state c') \<Longrightarrow>
   forward a s t"
  by (simp add: forward_def)

text \<open>Application code that does not move a connection backwards.\<close>

definition app_forward :: "('u, ('u, 'z) net_scheme) app \<Rightarrow> addr \<Rightarrow> bool" where
  "app_forward app a \<longleftrightarrow>
     (\<forall>cb b s s'. on_connection app cb b s = Inr s' \<longrightarrow> forward a s s') \<and>
     (\<forall>cb b t s s'. on_message app cb b t s = Inr s' \<longrightarrow> forward a s s') \<and>
     (\<forall>cb b s s'. on_close app cb b s = Inr s' \<longrightarrow> forward a s s')"

lemma invoke_Inr: "invoke f call s = Inr s' \<longleftrightarrow> (\<exists>c. f = Some c \<and> call c s = Inr s')"
  by (cases f) (simp_all add: invoke_def)

lemma conn_of_Inr [simp]: "conn_of a s = Inr c \<longleftrightarrow> conns s a = Some c"
  by (simp add: conn_of_def split: option.split)

lemma conns_assert [simp]: "conns (assert_in_loop_thread b s) = conns s"
  using same_net_assert [of s b] by (simp add: same_net_def)

lemma conns_log [simp]: "conns (log_to l s) = conns s"
  by (simp add: log_to_def)

lemma conns_queue [simp]: "conns (queue_in_loop os me cb s) = conns s"
  using same_net_queue [of s os me cb] by (simp add: same_net_def)

lemma calls_only_conns: "calls_only s t \<Longrightarrow> conns t = conns s"
  using same_net_calls [of s t] by (simp add: same_net_def)

lemma conns_calls [simp]:
  "conns (shutdownWrite os fd s) = conns s" "conns (snd (getSocketError os fd s)) = conns s"
  "conns (snd (issue os c s)) = conns s"
  by (rule calls_only_conns, simp add: socket_calls_only)+

lemma direct_write_conns [simp]: "conns (snd (direct_write os me a c ch msg s)) = conns s"
  by (simp add: direct_write_def issue_write_eq)

lemma send_in_loop_forward: "send_in_loop os me a msg s = Inr s' \<Longrightarrow> forward a s s'"
  by (auto simp: send_in_loop_def Let_def case_prod_beta split: if_splits
      dest!: channel_change_conns intro!: forward_put)

lemma send_forward: "send os me a msg s = Inr s' \<Longrightarrow> forward a s s'"
  by (auto simp: send_def run_in_loop_def send_in_loop_forward split: if_splits)

lemma shutdown_in_loop_conns: "shutdown_in_loop os me a s = Inr s' \<Longrightarrow> conns s' = conns s"
  by (auto simp: shutdown_in_loop_def shutdown_write_def Let_def split: if_splits)

lemma write_drained_conns: "write_drained os me a c s = Inr s' \<Longrightarrow> conns s' = conns s"
  by (auto simp: write_drained_def Let_def dest!: channel_change_conns shutdown_in_loop_conns split: if_splits)

lemma conn_handle_write_forward: "conn_handle_write os me a s = Inr s' \<Longrightarrow> forward a s s'"
  by (auto simp: conn_handle_write_def Let_def issue_write_eq split: if_splits dest!: write_drained_conns
      intro!: forward_put)

lemma conn_handle_error_conns: "conn_handle_error os a s = Inr s' \<Longrightarrow> conns s' = conns s"
  by (auto simp: conn_handle_error_def)

lemma app_forward_connection:
  "app_forward app a \<Longrightarrow> on_connection app cb b t = Inr u \<Longrightarrow> forward a s t \<Longrightarrow> forward a s u"
  unfolding app_forward_def by (blast intro: forward_trans)

lemma app_forward_close:
  "app_forward app a \<Longrightarrow> on_close app cb b t = Inr u \<Longrightarrow> forward a s t \<Longrightarrow> forward a s u"
  unfolding app_forward_def by (blast intro: forward_trans)

lemma conn_handle_close_forward:
  "app_forward app a \<Longrightarrow> conn_handle_close app os me a s = Inr s' \<Longrightarrow> forward a s s'"
  by (auto simp: conn_handle_close_def Let_def invoke_Inr dest!: channel_change_conns
      elim!: app_forward_close)

lemma connect_established_forward:
  "app_forward app a \<Longrightarrow> connect_established app os me a s = Inr s' \<Longrightarrow> forward a s s'"
  by (auto simp: connect_established_def Let_def invoke_Inr dest!: channel_change_conns
      elim!: app_forward_connection intro!: forward_put)

lemma connect_destroyed_forward:
  assumes "app_forward app a" and "connect_destroyed app os me a s = Inr s'"
  shows "forward a s s' \<and> (\<exists>c'. conns s' a = Some c' \<and> conn_state c' = Disconnected)"
proof -
  let ?s0 = "assert_in_loop_thread (is_in_loop_thread me s) s"
  from assms(2) obtain c s1 s2 where
    c: "conns s a = Some c" "conn_rank (conn_state c) \<le> 3"
      "channel_change os me Disable_all (conn_channel c) (put_conn a (c\<lparr>conn_state := Disconnected\<rparr>) ?s0) = Inr s1"
      "invoke (connect_callback c) (\<lambda>cb. on_connection app cb a) s1 = Inr s2"
      "loop_remove_channel os me (conn_channel c) s2 = Inr s'"
    by (auto simp: connect_destroyed_def Let_def)
  have s1: "conns s1 = (conns s)(a \<mapsto> c\<lparr>conn_state := Disconnected\<rparr>)" using channel_change_conns [OF c(3)] by simp
  then have "forward a s s1" using c(1,2) by (auto intro: forward_put)
  moreover have "forward a s1 s2" using c(4) assms(1) by (auto simp: invoke_Inr app_forward_def)
  moreover have "conns s' = conns s2" using loop_remove_channel_conns [OF c(5)] .
  ultimately show ?thesis using s1 forward_trans [of a s s1 s2] by (auto simp: forward_def)
qed

lemma conn_handle_read_forward:
  assumes app: "app_forward app a" and run: "conn_handle_read app os me a t s = Inr s'"
  shows "forward a s s'"
proof -
  from run obtain c ch n e b where c: "conns s a = Some c" "chans s (conn_channel c) = Some ch"
    "read_fd (os_readv os (length (syscalls s))) (input_buffer c) = Inr (n, e, b)"
    unfolding conn_handle_read_def andthen_eq_Inr conn_of_Inr deref_eq_Inr by (metis prod_cases3)
  let ?s1 = "put_conn a (c\<lparr>input_buffer := b\<rparr>) (snd (issue os (Sys_readv (ch_fd ch)) s))"
  have s1: "forward a s ?s1" using c(1) by (auto intro: forward_put)
  have "(if n > 0 then invoke (message_callback c) (\<lambda>cb. on_message app cb a t) ?s1
      else if n = 0 then conn_handle_close app os me a ?s1
      else conn_handle_error os a (log_to LOG_SYSERR ?s1)) = Inr s'"
    using run c by (simp add: conn_handle_read_def Let_def)
  then have "forward a ?s1 s'"
    using app
    by (auto simp: invoke_Inr app_forward_def conn_handle_close_forward [OF app]
        dest!: conn_handle_error_conns split: if_splits)
  with s1 show ?thesis by (rule forward_trans)
qed

declare shutdown_while.simps [simp del]

text \<open>Each round of the loop in \<^verbatim>\<open>shutdown\<close> leaves the state \<open>Disconnecting\<close>: one round is enough.\<close>

lemma run_shutdown_conns:
  "run_in_loop os me (shutdown_in_loop os me a) cb s = Inr s' \<Longrightarrow> conns s' = conns s"
  by (auto simp: run_in_loop_def dest!: shutdown_in_loop_conns split: if_splits)

lemma shutdown_eq:
  "shutdown (Suc fuel) os me a s =
     Some (case conns s a of None \<Rightarrow> Inl Bad_deref
       | Some c \<Rightarrow>
           if conn_state c = Connected then
             run_in_loop os me (shutdown_in_loop os me a) (Conn_shutdown_in_loop a)
               (put_conn a (c\<lparr>conn_state := Disconnecting\<rparr>) s)
           else Inr s)"
proof (cases "conns s a")
  case (Some c)
  let ?s1 = "put_conn a (c\<lparr>conn_state := Disconnecting\<rparr>) s"
  let ?r = "run_in_loop os me (shutdown_in_loop os me a) (Conn_shutdown_in_loop a) ?s1"
  have "shutdown_while fuel os me Connected a s2 = Some (Inr s2)" if "?r = Inr s2" for s2
    using run_shutdown_conns [OF that] by (simp add: shutdown_while.simps)
  with Some show ?thesis
    by (cases ?r) (simp_all add: shutdown_def shutdown_while.simps [of "Suc fuel"])
qed (simp add: shutdown_def shutdown_while.simps)

lemma shutdown_forward: "shutdown (Suc fuel) os me a s = Some (Inr s') \<Longrightarrow> forward a s s'"
  by (auto simp: shutdown_eq dest!: run_shutdown_conns split: option.splits if_splits intro!: forward_put)

text \<open>The calls a connection can get, and any sequence of them.\<close>

datatype conn_op =
    Op_established
  | Op_send string
  | Op_shutdown
  | Op_readable timestamp
  | Op_writable
  | Op_hangup
  | Op_error
  | Op_destroyed

definition total_shutdown :: "os \<Rightarrow> nat \<Rightarrow> addr \<Rightarrow> ('u, 'z) net_scheme \<Rightarrow> ('u, 'z) net_scheme res" where
  "total_shutdown os me a s = (case shutdown 1 os me a s of Some r \<Rightarrow> r | None \<Rightarrow> Inr s)"

fun conn_exec ::
  "('u, ('u, 'z) net_scheme) app \<Rightarrow> os \<Rightarrow> addr \<Rightarrow> nat \<times> conn_op \<Rightarrow> ('u, 'z) net_scheme \<Rightarrow> ('u, 'z) net_scheme res" where
  "conn_exec app os a (me, Op_established) s = connect_established app os me a s"
| "conn_exec app os a (me, Op_send msg) s = send os me a msg s"
| "conn_exec app os a (me, Op_shutdown) s = total_shutdown os me a s"
| "conn_exec app os a (me, Op_readable t) s = conn_handle_read app os me a t s"
| "conn_exec app os a (me, Op_writable) s = conn_handle_write os me a s"
| "conn_exec app os a (me, Op_hangup) s = conn_handle_close app os me a s"
| "conn_exec app os a (me, Op_error) s = conn_handle_error os a s"
| "conn_exec app os a (me, Op_destroyed) s = connect_destroyed app os me a s"

inductive conn_reaches ::
  "('u, ('u, 'z) net_scheme) app \<Rightarrow> os \<Rightarrow> addr \<Rightarrow> ('u, 'z) net_scheme \<Rightarrow> ('u, 'z) net_scheme \<Rightarrow> bool"
  for app os a s where
  start: "conn_reaches app os a s s"
| step: "conn_reaches app os a s t \<Longrightarrow> conn_exec app os a x t = Inr u \<Longrightarrow> conn_reaches app os a s u"

lemma total_shutdown_forward: "total_shutdown os me a s = Inr s' \<Longrightarrow> forward a s s'"
  using shutdown_forward [of 0 os me a s s'] by (simp add: total_shutdown_def shutdown_eq [of 0, simplified])

lemma conn_exec_forward:
  assumes "app_forward app a" and "conn_exec app os a x s = Inr s'"
  shows "forward a s s'"
proof (cases x)
  case (Pair me op)
  with assms show ?thesis
    using connect_destroyed_forward [OF assms(1)] conn_handle_error_conns [of os a s s']
    by (cases op) (auto intro: connect_established_forward send_forward total_shutdown_forward
        conn_handle_read_forward conn_handle_write_forward conn_handle_close_forward)
qed

lemma conn_reaches_forward:
  assumes "conn_reaches app os a s t" and "app_forward app a"
  shows "forward a s t"
  using assms
proof (induction rule: conn_reaches.induct)
  case (step t x u)
  then show ?case using conn_exec_forward forward_trans by blast
qed (simp add: forward_def)

section \<open>Sequences of output events\<close>

text \<open>
  What happens to a connection on the way out, on the thread of its loop: the application calls \<^verbatim>\<open>send\<close> and \<^verbatim>\<open>shutdown\<close>, the
  socket becomes writable.
\<close>

datatype out_event = Out_send string | Out_writable | Out_shutdown

fun out_exec :: "os \<Rightarrow> addr \<Rightarrow> out_event \<Rightarrow> ('u, 'z) net_scheme \<Rightarrow> ('u, 'z) net_scheme res" where
  "out_exec os a (Out_send msg) s = send os (thread_id s) a msg s"
| "out_exec os a Out_writable s = conn_handle_write os (thread_id s) a s"
| "out_exec os a Out_shutdown s = total_shutdown os (thread_id s) a s"

fun out_bytes :: "out_event \<Rightarrow> string" where
  "out_bytes (Out_send msg) = msg"
| "out_bytes e = []"

text \<open>The messages a connection takes: those sent before the first shutdown, and none once it is not connected.\<close>

definition bytes_sent :: "conn_state \<Rightarrow> out_event list \<Rightarrow> string" where
  "bytes_sent st xs = (if st = Connected then concat (map out_bytes (takeWhile (\<lambda>x. x \<noteq> Out_shutdown) xs)) else [])"

definition state_after :: "conn_state \<Rightarrow> out_event list \<Rightarrow> conn_state" where
  "state_after st xs = (if st = Connected \<and> Out_shutdown \<in> set xs then Disconnecting else st)"

text \<open>The connection is the same but for its buffers and its state.\<close>

abbreviation moved_conn :: "'u conn \<Rightarrow> conn_state \<Rightarrow> 'u conn \<Rightarrow> bool" where
  "moved_conn c st c' \<equiv> same_conn (c\<lparr>conn_state := st\<rparr>) c'"

lemma moved_conn_trans: "moved_conn c st d \<Longrightarrow> moved_conn d st' e \<Longrightarrow> moved_conn c st' e"
  by (cases c; cases d; cases e) (simp add: same_conn_def)

lemma same_conn_moved: "same_conn c c' \<Longrightarrow> moved_conn c (conn_state c) c'"
  by simp

lemma total_shutdown_eq:
  "conns s a = Some c \<Longrightarrow> total_shutdown os (thread_id s) a s =
     (if conn_state c = Connected then shutdown_in_loop os (thread_id s) a (put_conn a (c\<lparr>conn_state := Disconnecting\<rparr>) s) else Inr s)"
  by (simp add: total_shutdown_def shutdown_eq [of 0, simplified] run_in_loop_def is_in_loop_thread_def)

lemma out_shutdown_ok:
  assumes live: "conn_live s a c ch"
  shows "\<exists>s' c'. total_shutdown os (thread_id s) a s = Inr s' \<and> conn_live s' a c' ch \<and>
    c' = c\<lparr>conn_state := if conn_state c = Connected then Disconnecting else conn_state c\<rparr> \<and> stream os s' c' ch = stream os s c ch"
proof (cases "conn_state c = Connected")
  case True
  let ?c = "c\<lparr>conn_state := Disconnecting\<rparr>" and ?s = "put_conn a (c\<lparr>conn_state := Disconnecting\<rparr>) s"
  have live': "conn_live ?s a ?c ch" using live by (simp add: conn_live_def)
  from shutdown_in_loop_ok [OF live', of os "thread_id s"] obtain s' where
    s': "shutdown_in_loop os (thread_id s) a ?s = Inr s'" "same_net ?s s'"
      "syscalls s' = syscalls s @ (if content (output_buffer c) = [] then [Sys_shutdown (ch_fd ch)] else [])" by auto
  moreover have "stream os s' ?c ch = stream os s c ch" using s'(3) by (simp add: stream_def accepted_snoc taken_def)
  moreover have "conn_live s' a ?c ch" using live' conn_live_same_net [OF s'(2)] by blast
  ultimately show ?thesis using True live total_shutdown_eq [of s a c os] by (simp add: conn_live_def)
next
  case False
  then show ?thesis using live total_shutdown_eq [of s a c os] by (simp add: conn_live_def)
qed

lemma out_exec_ok:
  assumes live: "conn_live s a c ch" and room: "room (output_buffer c) (length (bytes_sent (conn_state c) [x]) + k)"
  shows "\<exists>s' c' ch'. out_exec os a x s = Inr s' \<and> conn_live s' a c' ch' \<and> moved_conn c (state_after (conn_state c) [x]) c' \<and>
    ch_fd ch' = ch_fd ch \<and> stream os s' c' ch' = stream os s c ch @ bytes_sent (conn_state c) [x] \<and> room (output_buffer c') k"
proof (cases x)
  case (Out_send msg)
  have c: "conns s a = Some c" using live by (simp add: conn_live_def)
  show ?thesis
  proof (cases "conn_state c = Connected")
    case True
    then have run: "out_exec os a x s = send_in_loop os (thread_id s) a msg s"
      using c Out_send by (simp add: send_def conn_of_def is_in_loop_thread_def)
    have r: "room (output_buffer c) (length msg + k)" using room True Out_send by (simp add: bytes_sent_def)
    have "room (output_buffer c) (length msg)" by (rule room_mono [OF r]) simp
    from send_in_loop_ok [OF live this, of os "thread_id s"] obtain s' c' ch' where
      "send_in_loop os (thread_id s) a msg s = Inr s'" "conn_live s' a c' ch'" "same_conn c c'" "ch_fd ch' = ch_fd ch"
      "stream os s' c' ch' = stream os s c ch @ msg" "room (output_buffer c') k" using r by auto
    then show ?thesis using run True Out_send same_conn_moved [of c c']
      by (auto simp: bytes_sent_def state_after_def intro!: exI [of _ c'] exI [of _ ch'])
  next
    case False
    then have "out_exec os a x s = Inr s" using c Out_send by (simp add: send_def conn_of_def)
    then show ?thesis using live room False by (auto simp: bytes_sent_def state_after_def intro!: exI [of _ c] exI [of _ ch])
  qed
next
  case Out_writable
  from conn_handle_write_ok [OF live, of os "thread_id s"] obtain s' c' ch' where
    "conn_handle_write os (thread_id s) a s = Inr s'" "conn_live s' a c' ch'" "same_conn c c'" "ch_fd ch' = ch_fd ch"
    "stream os s' c' ch' = stream os s c ch" "\<forall>k. room (output_buffer c) k \<longrightarrow> room (output_buffer c') k"
    unfolding wrote_def by blast
  moreover have "room (output_buffer c) k" by (rule room_mono [OF room]) simp
  ultimately show ?thesis using Out_writable same_conn_moved [of c c'] by (auto simp: bytes_sent_def state_after_def intro!: exI [of _ c'] exI [of _ ch'])
next
  case Out_shutdown
  let ?c = "c\<lparr>conn_state := if conn_state c = Connected then Disconnecting else conn_state c\<rparr>"
  from out_shutdown_ok [OF live, of os] obtain s' where
    "total_shutdown os (thread_id s) a s = Inr s'" "conn_live s' a ?c ch" "stream os s' ?c ch = stream os s c ch" by blast
  moreover have "room (output_buffer c) k" by (rule room_mono [OF room]) simp
  ultimately show ?thesis using Out_shutdown
    by (intro exI [of _ s'] exI [of _ ?c] exI [of _ ch]) (simp add: bytes_sent_def state_after_def)
qed

lemma bytes_sent_Cons: "bytes_sent st (x # xs) = bytes_sent st [x] @ bytes_sent (state_after st [x]) xs"
  "state_after st (x # xs) = state_after (state_after st [x]) xs"
  by (cases x; simp add: bytes_sent_def state_after_def)+

lemma out_execs_ok:
  assumes "conn_live s a c ch" and "room (output_buffer c) (length (bytes_sent (conn_state c) xs))"
  shows "\<exists>s' c' ch'. fold_res (out_exec os a) xs s = Inr s' \<and> conn_live s' a c' ch' \<and>
    moved_conn c (state_after (conn_state c) xs) c' \<and> ch_fd ch' = ch_fd ch \<and>
    stream os s' c' ch' = stream os s c ch @ bytes_sent (conn_state c) xs"
  using assms
proof (induction xs arbitrary: s c ch)
  case Nil
  then show ?case by (auto simp: bytes_sent_def state_after_def intro!: exI [of _ c] exI [of _ ch])
next
  case (Cons x xs)
  from out_exec_ok [OF Cons.prems(1), of x "length (bytes_sent (state_after (conn_state c) [x]) xs)" os] Cons.prems(2)
  obtain s1 c1 ch1 where 1: "out_exec os a x s = Inr s1" "conn_live s1 a c1 ch1" "moved_conn c (state_after (conn_state c) [x]) c1"
    "ch_fd ch1 = ch_fd ch" "stream os s1 c1 ch1 = stream os s c ch @ bytes_sent (conn_state c) [x]"
    "room (output_buffer c1) (length (bytes_sent (state_after (conn_state c) [x]) xs))"
    by (auto simp: bytes_sent_Cons [of _ x xs])
  have st: "conn_state c1 = state_after (conn_state c) [x]" using same_connD [OF 1(3)] by simp
  from Cons.IH [OF 1(2)] 1(6) obtain s' c' ch' where
    "fold_res (out_exec os a) xs s1 = Inr s'" "conn_live s' a c' ch'" "moved_conn c1 (state_after (conn_state c1) xs) c'"
    "ch_fd ch' = ch_fd ch1" "stream os s' c' ch' = stream os s1 c1 ch1 @ bytes_sent (conn_state c1) xs" using st by auto
  then show ?case using 1(1,4,5) moved_conn_trans [OF 1(3)] st
    by (auto simp: bytes_sent_Cons [of _ x xs] intro!: exI [of _ c'] exI [of _ ch'])
qed

text \<open>A kernel that takes at least a byte each time drains the buffer.\<close>

lemma writes_drain:
  assumes "conn_live s a c ch" and "length (content (output_buffer c)) \<le> n" and "\<And>k. 1 \<le> os_ret os k"
  shows "\<exists>s' c' ch'. fold_res (conn_handle_write os me) (replicate n a) s = Inr s' \<and> conn_live s' a c' ch' \<and>
    content (output_buffer c') = [] \<and> accepted os (ch_fd ch) (syscalls s') = stream os s c ch"
  using assms(1,2)
proof (induction n arbitrary: s c ch)
  case 0
  then show ?case by (auto simp: stream_def)
next
  case (Suc n)
  from conn_handle_write_ok [OF Suc.prems(1), of os me] obtain s1 c1 ch1 where
    1: "conn_handle_write os me a s = Inr s1" "conn_live s1 a c1 ch1" "ch_fd ch1 = ch_fd ch"
      "stream os s1 c1 ch1 = stream os s c ch"
      "accepted os (ch_fd ch) (syscalls s1) = accepted os (ch_fd ch) (syscalls s) @
         take (nat (os_ret os (length (syscalls s)))) (content (output_buffer c))"
    by (auto simp: wrote_def)
  let ?m = "nat (os_ret os (length (syscalls s)))"
  have "take ?m (content (output_buffer c)) @ content (output_buffer c1) = content (output_buffer c)"
    using 1(3,4,5) by (simp add: stream_def)
  then have "content (output_buffer c1) = drop ?m (content (output_buffer c))"
    by (metis append_take_drop_id same_append_eq)
  moreover have "1 \<le> ?m" using assms(3) [of "length (syscalls s)"] by simp
  ultimately have "length (content (output_buffer c1)) \<le> n" using Suc.prems(2) by simp
  from Suc.IH [OF 1(2) this] 1 show ?case by auto
qed

section \<open>The life of a connection\<close>

text \<open>A connection callback that leaves channels, poller and connections alone.\<close>

definition callback_ok :: "('u, ('u, 'z) net_scheme) app \<Rightarrow> 'u \<Rightarrow> addr \<Rightarrow> bool" where
  "callback_ok app cb a \<longleftrightarrow> (\<forall>s. \<exists>s'. on_connection app cb a s = Inr s' \<and> same_net s s')"

text \<open>A connection as the constructor leaves it, with its callback set.\<close>

definition conn_new :: "('u, 'z) net_scheme \<Rightarrow> addr \<Rightarrow> 'u conn \<Rightarrow> 'u closure channel \<Rightarrow> bool" where
  "conn_new s a c ch \<longleftrightarrow>
     conns s a = Some c \<and> conn_state c = Connecting \<and> chans s (conn_channel c) = Some ch \<and>
     owner_loop ch = this_loop \<and> ch_index ch = -1 \<and> ch_events ch = 0 \<and>
     buf_inv (output_buffer c) \<and> content (output_buffer c) = []"

lemma not_writing_reading: "ch_events ch = 0 \<Longrightarrow> \<not> is_writing (ch\<lparr>ch_events := change_events Enable_reading 0, ch_index := i\<rparr>)"
  by (simp add: is_writing_def change_events.simps has_event_def event_masks poll_masks)

text \<open>
  Operations on a channel keep the descriptor, the loop and the callbacks of every channel; a
  channel is bound to a descriptor while it is registered for it.
\<close>

definition same_chan :: "'c channel \<Rightarrow> 'c channel \<Rightarrow> bool" where
  "same_chan x y \<longleftrightarrow>
     ch_fd y = ch_fd x \<and> owner_loop y = owner_loop x \<and> event_handling y = event_handling x \<and> same_dispatch x y"

lemma same_chan_refl [simp]: "same_chan x x"
  by (simp add: same_chan_def same_dispatch_def)

lemma same_chan_trans: "same_chan x y \<Longrightarrow> same_chan y z \<Longrightarrow> same_chan x z"
  by (simp add: same_chan_def same_dispatch_def)

lemma same_chan_upd [simp]: "same_chan x (x\<lparr>ch_events := e\<rparr>)" "same_chan x (y\<lparr>ch_index := i\<rparr>) = same_chan x y"
  by (simp_all add: same_chan_def same_dispatch_def)

text \<open>The callbacks the constructor puts into the channel of the connection at \<open>a\<close>.\<close>

definition conn_callbacks :: "addr \<Rightarrow> 'u closure channel \<Rightarrow> bool" where
  "conn_callbacks a ch \<longleftrightarrow>
     read_callback ch = Some (Conn_handle_read a) \<and> write_callback ch = Some (Conn_handle_write a) \<and>
     error_callback ch = Some (Conn_handle_error a) \<and> close_callback ch = Some (Conn_handle_close a)"

lemma conn_callbacks_same: "same_chan x y \<Longrightarrow> conn_callbacks a y = conn_callbacks a x"
  by (auto simp: same_chan_def same_dispatch_def conn_callbacks_def)

definition same_chans :: "('u, 'z) reactor_scheme \<Rightarrow> ('u, 'z) reactor_scheme \<Rightarrow> bool" where
  "same_chans s t \<longleftrightarrow> (\<forall>b ch. chans s b = Some ch \<longrightarrow>
     (\<exists>ch'. chans t b = Some ch' \<and> same_chan ch ch'))"

definition bound :: "('u, 'z) reactor_scheme \<Rightarrow> addr \<Rightarrow> int \<Rightarrow> bool" where
  "bound s b fd \<longleftrightarrow> (\<exists>ch. chans s b = Some ch \<and> ch_fd ch = fd \<and> owner_loop ch = this_loop) \<and> registered s fd = Some b"

lemma same_chansD: "same_chans s t \<Longrightarrow> chans s b = Some ch \<Longrightarrow> \<exists>ch'. chans t b = Some ch' \<and> same_chan ch ch'"
  by (simp add: same_chans_def)

lemma same_chans_eq: "chans t = chans s \<Longrightarrow> same_chans s t"
  by (simp add: same_chans_def)

lemma same_chans_trans: "same_chans s t \<Longrightarrow> same_chans t u \<Longrightarrow> same_chans s u"
  unfolding same_chans_def by (metis same_chan_trans)

lemma bound_frame: "bound s b fd \<Longrightarrow> same_chans s t \<Longrightarrow> registered t fd = Some b \<Longrightarrow> bound t b fd"
  unfolding bound_def same_chans_def same_chan_def by metis

lemma conn_live_bound: "conn_live s a c ch \<Longrightarrow> bound s (conn_channel c) (ch_fd ch)"
  by (auto simp: conn_live_def bound_def)

lemma same_but_poller_chans:
  assumes "same_but_poller (put_chan b x s) t" "chans s b = Some ch" "same_chan ch x"
  shows "same_chans s t"
  unfolding same_chans_def
proof (intro allI impI)
  fix d y assume "chans s d = Some y"
  then have "chans (put_chan b x s) d = Some (if d = b then x else y)" by simp
  from same_but_poller_chan [OF assms(1) this] show "\<exists>ch'. chans t d = Some ch' \<and> same_chan y ch'"
    using assms \<open>chans s d = Some y\<close> by auto
qed

lemma channel_change_bound:
  assumes inv: "loop_inv s" and b: "bound s b fd"
  shows "\<exists>s'. channel_change os me op b s = Inr s' \<and> loop_inv s' \<and> registered s' = registered s \<and>
    same_chans s s' \<and> same_loop s s' \<and> (op = Disable_all \<longrightarrow> (\<forall>ch. chans s' b = Some ch \<longrightarrow> is_none_event ch))"
proof -
  from b obtain ch where ch: "chans s b = Some ch" "ch_fd ch = fd" "owner_loop ch = this_loop" "registered s fd = Some b"
    by (auto simp: bound_def)
  let ?x = "ch\<lparr>ch_events := change_events op (ch_events ch)\<rparr>"
  have "changeable op b ch s" using ch by (simp add: changeable_def)
  from channel_change_ok [OF inv ch(1) this, of os me] obtain s' where
    s': "channel_change os me op b s = Inr s'" "loop_inv s'" "registered s' = (registered s)(fd \<mapsto> b)"
      "same_but_poller (put_chan b ?x s) s'" using ch(2) by blast
  from same_but_poller_chan [OF s'(4), of b ?x] obtain i where "chans s' b = Some (?x\<lparr>ch_index := i\<rparr>)" by auto
  then have "op = Disable_all \<longrightarrow> (\<forall>ch. chans s' b = Some ch \<longrightarrow> is_none_event ch)"
    by (auto simp: is_none_event_def change_events.simps)
  with s' ch same_but_poller_chans [OF s'(4) ch(1)] channel_change_same [OF s'(1)] show ?thesis
    by (auto simp: fun_upd_idem)
qed

lemma loop_remove_channel_bound:
  assumes inv: "loop_inv s" and b: "bound s b fd" and none: "\<forall>ch. chans s b = Some ch \<longrightarrow> is_none_event ch"
  shows "\<exists>s'. loop_remove_channel os me b s = Inr s' \<and> loop_inv s' \<and> registered s' = (registered s)(fd := None) \<and>
    same_chans s s' \<and> same_loop s s'"
proof -
  from b obtain ch where ch: "chans s b = Some ch" "ch_fd ch = fd" "owner_loop ch = this_loop" "registered s fd = Some b"
    by (auto simp: bound_def)
  with loop_remove_channel_ok [OF inv ch(1,3), of os me] none obtain s' where
    s': "loop_remove_channel os me b s = Inr s'" "loop_inv s'" "registered s' = (registered s)(fd := None)"
      "same_but_poller s s'" by auto
  from same_but_poller_chans [of b ch s s'] s'(4) ch(1) have "same_chans s s'" by (simp add: put_chan_idem)
  with s' loop_remove_channel_same [OF s'(1)] show ?thesis by blast
qed

lemma bound_same_net: "same_net s t \<Longrightarrow> bound t b fd = bound s b fd"
  by (simp add: bound_def same_netD) (simp add: same_net_def)

lemma bound_put_conn [simp]: "bound (put_conn a c s) b fd = bound s b fd"
  by (simp add: bound_def)

lemma conn_handle_close_ok:
  assumes inv: "loop_inv s" and c: "conns s a = Some c" "bound s (conn_channel c) fd"
    and st: "conn_state c = Connected \<or> conn_state c = Disconnecting" and cb: "conn_close_callback c = Some cb"
  shows "\<exists>s'. conn_handle_close app os me a s = on_close app cb a s' \<and> loop_inv s' \<and> registered s' = registered s \<and>
    same_chans s s' \<and> same_loop (assert_in_loop_thread (is_in_loop_thread me s) s) s'"
proof -
  let ?s0 = "assert_in_loop_thread (is_in_loop_thread me s) s"
  have s0: "same_net s ?s0" by simp
  have "loop_inv ?s0" "bound ?s0 (conn_channel c) fd"
    using inv c(2) same_netD [OF s0] bound_same_net [OF s0] by auto
  from channel_change_bound [OF this, of os me Disable_all] obtain s1 where
    s1: "channel_change os me Disable_all (conn_channel c) ?s0 = Inr s1" "loop_inv s1" "registered s1 = registered s"
      "same_chans ?s0 s1" "same_loop ?s0 s1" using same_netD [OF s0] by auto
  then show ?thesis using c(1) st cb same_chans_trans [OF same_chans_eq [of ?s0 s] s1(4)] s0
    by (intro exI [of _ s1]) (simp add: conn_handle_close_def Let_def conn_of_def same_net_def invoke_def)
qed

lemma connect_destroyed_ok:
  assumes inv: "loop_inv s" and c: "conns s a = Some c" "bound s (conn_channel c) fd"
    and st: "conn_state c = Connected \<or> conn_state c = Disconnecting"
    and cb: "connect_callback c = Some cb" "callback_ok app cb a"
  shows "\<exists>s' s1 s2. connect_destroyed app os me a s = Inr s' \<and> loop_inv s' \<and>
    conns s' = (conns s)(a \<mapsto> c\<lparr>conn_state := Disconnected\<rparr>) \<and>
    registered s' = (registered s)(fd := None) \<and> same_chans s s' \<and>
    same_loop (put_conn a (c\<lparr>conn_state := Disconnected\<rparr>) (assert_in_loop_thread (is_in_loop_thread me s) s)) s1 \<and>
    on_connection app cb a s1 = Inr s2 \<and> same_loop s2 s'"
proof -
  let ?s0 = "assert_in_loop_thread (is_in_loop_thread me s) s" and ?c = "c\<lparr>conn_state := Disconnected\<rparr>"
  let ?s1 = "put_conn a ?c ?s0"
  have s0: "same_net s ?s0" by simp
  have "loop_inv ?s1" "bound ?s1 (conn_channel c) fd"
    using inv c(2) same_netD [OF s0] bound_same_net [OF s0] by auto
  from channel_change_bound [OF this, of os me Disable_all] obtain s2 where
    s2: "channel_change os me Disable_all (conn_channel c) ?s1 = Inr s2" "loop_inv s2" "registered s2 = registered ?s1"
      "same_chans ?s1 s2" "same_loop ?s1 s2" "\<forall>ch. chans s2 (conn_channel c) = Some ch \<longrightarrow> is_none_event ch" by auto
  from cb(2) obtain s3 where s3: "on_connection app cb a s2 = Inr s3" "same_net s2 s3" by (auto simp: callback_ok_def)
  have reg: "registered s3 = registered s" using s2(3) same_netD [OF s3(2)] same_netD [OF s0] by simp
  have ch: "chans s3 = chans s2" using s3(2) by (simp add: same_net_def)
  have sc: "same_chans s s3" using s2(4) ch by (auto simp: same_chans_def)
  have "loop_inv s3" "bound s3 (conn_channel c) fd" "\<forall>ch. chans s3 (conn_channel c) = Some ch \<longrightarrow> is_none_event ch"
    using s2(2,6) same_netD [OF s3(2)] bound_frame [OF c(2) sc] reg c(2) ch by (auto simp: bound_def)
  from loop_remove_channel_bound [OF this, of os me] obtain s4 where
    s4: "loop_remove_channel os me (conn_channel c) s3 = Inr s4" "loop_inv s4" "registered s4 = (registered s)(fd := None)"
      "same_chans s3 s4" "same_loop s3 s4" using reg by auto
  have "connect_destroyed app os me a s = Inr s4"
    using c(1) st cb(1) s2(1) s3(1) s4(1) by (simp add: connect_destroyed_def conn_of_def Let_def invoke_def)
  moreover have "conns s4 = (conns s)(a \<mapsto> ?c)"
    using loop_remove_channel_conns [OF s4(1)] s3(2) channel_change_conns [OF s2(1)] by (simp add: same_net_def)
  ultimately show ?thesis using s4 s2(5) s3(1) same_chans_trans [OF sc s4(4)] by blast
qed

lemma connect_established_ok:
  assumes inv: "loop_inv s" and new: "conn_new s a c ch" and cb: "connect_callback c = Some cb" "callback_ok app cb a"
    and fd: "0 \<le> ch_fd ch" "registered s (ch_fd ch) = None"
  shows "\<exists>s' s1 ch'. connect_established app os me a s = Inr s' \<and> conn_live s' a (c\<lparr>conn_state := Connected\<rparr>) ch' \<and>
    ch_fd ch' = ch_fd ch \<and> registered s' = (registered s)(ch_fd ch \<mapsto> conn_channel c) \<and> same_chans s s' \<and>
    conns s' = (conns s)(a \<mapsto> c\<lparr>conn_state := Connected\<rparr>) \<and>
    same_loop (put_conn a (c\<lparr>conn_state := Connected\<rparr>) (assert_in_loop_thread (is_in_loop_thread me s) s)) s1 \<and>
    on_connection app cb a s1 = Inr s'"
proof -
  let ?s0 = "assert_in_loop_thread (is_in_loop_thread me s) s" and ?c = "c\<lparr>conn_state := Connected\<rparr>"
  let ?s1 = "put_conn a ?c ?s0"
  let ?x = "ch\<lparr>ch_events := change_events Enable_reading (ch_events ch)\<rparr>"
  have s0: "loop_inv ?s0" "registered ?s0 = registered s" "chans ?s0 = chans s"
    using inv same_netD [OF same_net_assert [of s]] by simp_all
  then have s1: "loop_inv ?s1" "chans ?s1 (conn_channel c) = Some ch" "owner_loop ch = this_loop" "ch_index ch = -1"
    "0 \<le> ch_fd ch" "registered ?s1 (ch_fd ch) = None"
    using new fd by (simp_all add: conn_new_def)
  from enable_reading_new [OF s1, of os me] obtain s2 where
    s2: "channel_change os me Enable_reading (conn_channel c) ?s1 = Inr s2" "loop_inv s2"
      "registered s2 = (registered s)(ch_fd ch \<mapsto> conn_channel c)"
      "same_but_poller (put_chan (conn_channel c) ?x ?s1) s2"
    using s0(2) by auto
  have sc: "same_chans s s2"
    using same_but_poller_chans [OF s2(4) s1(2)] s0(3) by (simp add: same_chans_def)
  from same_but_poller_chan [OF s2(4), of "conn_channel c" ?x] obtain i where
    i: "chans s2 (conn_channel c) = Some (?x\<lparr>ch_index := i\<rparr>)" by auto
  have conns2: "conns s2 = (conns s)(a \<mapsto> ?c)" using channel_change_conns [OF s2(1)] by simp
  from cb(2) obtain s3 where s3: "on_connection app cb a s2 = Inr s3" "same_net s2 s3"
    by (auto simp: callback_ok_def)
  have "connect_established app os me a s = Inr s3"
    using new cb(1) s2(1) s3(1) by (simp add: connect_established_def conn_new_def Let_def invoke_def)
  moreover have "conn_live s2 a ?c (?x\<lparr>ch_index := i\<rparr>)"
    using new s2(2,3) i conns2 not_writing_reading [of ch i] by (simp add: conn_live_def conn_new_def)
  moreover have "same_chans s s3" "conns s3 = (conns s)(a \<mapsto> ?c)"
    using sc s3(2) conns2 by (simp_all add: same_chans_def same_net_def)
  ultimately show ?thesis using conn_live_same_net [OF s3(2)] same_netD(2) [OF s3(2)] s2(3) s3(1) channel_change_same [OF s2(1)]
    by (intro exI [of _ s3] exI [of _ s2] exI [of _ "?x\<lparr>ch_index := i\<rparr>"]) simp
qed

text \<open>
  A destroyed connection can be freed: its channel is no longer registered, so freeing it
  keeps the loop in order, and the descriptor is closed.
\<close>

lemma TcpConnection_dtor_ok:
  assumes inv: "loop_inv s" and c: "conns s a = Some c" "chans s (conn_channel c) = Some ch" "\<not> event_handling ch"
    and unreg: "\<forall>f. registered s f \<noteq> Some (conn_channel c)"
  shows "\<exists>t. TcpConnection_dtor os a s = Inr t \<and> loop_inv t \<and> registered t = registered s \<and>
    conns t = (conns s)(a := None) \<and> chans t = (chans s)(conn_channel c := None) \<and>
    syscalls t = syscalls s @ [Sys_close (ch_fd ch)]"
proof -
  let ?s1 = "s\<lparr>chans := (chans s)(conn_channel c := None)\<rparr>"
  let ?s2 = "Socket_dtor os (ch_fd ch) ?s1"
  have o: "calls_only ?s1 ?s2" unfolding Socket_dtor_def by (rule socket_calls_only)
  have sys: "syscalls ?s2 = syscalls s @ [Sys_close (ch_fd ch)]"
    by (simp add: Socket_dtor_def sockets_close_def issue_def log_to_def)
  let ?t = "?s2\<lparr>conns := (conns ?s2)(a := None)\<rparr>"
  have "TcpConnection_dtor os a s = Inr ?t"
    using c by (simp add: TcpConnection_dtor_def conn_of_def destroy_chan_def heap_simps Let_def)
  moreover have "loop_inv ?t"
    by (rule loop_inv_agree [OF inv]) (use calls_onlyD(1,2) [OF o] unreg in auto)
  ultimately show ?thesis using calls_onlyD(1,2) [OF o] conns_more [OF calls_onlyD(3) [OF o]] sys
    by (simp add: registered_def)
qed

section \<open>Properties\<close>

text \<open>
  C1.  No byte is lost, repeated or reordered on the way out.  On a connected connection, whatever \<^verbatim>\<open>send\<close> and \<^verbatim>\<open>shutdown\<close> are
  called on the loop's thread, however often the socket becomes writable, and whatever the
  kernel takes of each write (nothing, some, all, or an error), every call succeeds and
  the bytes the kernel took followed by those still buffered are exactly the bytes of the messages sent before the
  first \<^verbatim>\<open>shutdown\<close>, in order, behind what was there before; messages sent after it are dropped, as \<^verbatim>\<open>send\<close> does nothing on a
  connection that is not connected.  The state is \<open>Disconnecting\<close> exactly if \<^verbatim>\<open>shutdown\<close> was called, and
  the channel waits for writability exactly while bytes are buffered (\<open>conn_live\<close>).
\<close>

theorem stream_integrity:
  assumes "conn_live s a c ch" and "conn_state c = Connected"
    and "room (output_buffer c) (length (concat (map out_bytes (takeWhile (\<lambda>x. x \<noteq> Out_shutdown) xs))))"
  shows "\<exists>s' c' ch'. fold_res (out_exec os a) xs s = Inr s' \<and> conn_live s' a c' ch' \<and> ch_fd ch' = ch_fd ch \<and>
    conn_state c' = (if Out_shutdown \<in> set xs then Disconnecting else Connected) \<and>
    stream os s' c' ch' = stream os s c ch @ concat (map out_bytes (takeWhile (\<lambda>x. x \<noteq> Out_shutdown) xs))"
proof -
  from out_execs_ok [OF assms(1), of xs os] assms(2,3) obtain s' c' ch' where
    t: "fold_res (out_exec os a) xs s = Inr s'" "conn_live s' a c' ch'" "moved_conn c (state_after Connected xs) c'" "ch_fd ch' = ch_fd ch"
      "stream os s' c' ch' = stream os s c ch @ bytes_sent Connected xs" by (auto simp: bytes_sent_def)
  then show ?thesis using same_connD [OF t(3)]
    by (intro exI [of _ s'] exI [of _ c'] exI [of _ ch']) (simp add: bytes_sent_def state_after_def)
qed

text \<open>
  C19.  Buffered output is delivered: if the kernel takes at least a byte each time, as many
  writability events as bytes are buffered hand all of them over, in order.
\<close>

theorem output_drains:
  assumes "conn_live s a c ch" and "length (content (output_buffer c)) \<le> n" and "\<forall>k. 1 \<le> os_ret os k"
  shows "\<exists>s' c' ch'. fold_res (conn_handle_write os me) (replicate n a) s = Inr s' \<and> conn_live s' a c' ch' \<and>
    content (output_buffer c') = [] \<and> accepted os (ch_fd ch) (syscalls s') = stream os s c ch"
  using assms by (intro writes_drain) auto

text \<open>
  C26.  \<^verbatim>\<open>shutdown\<close> returns after at most one round of its loop.  On a connected connection it moves
  to \<open>Disconnecting\<close> and, on the loop's thread, shuts the write side down at once if nothing is
  buffered and not yet otherwise; from another thread it queues that for the loop once.  In any other
  state it does nothing.
\<close>

theorem shutdown_once:
  assumes "conn_live s a c ch"
  shows "\<exists>s'. shutdown (Suc fuel) os me a s = Some (Inr s') \<and>
    (if conn_state c \<noteq> Connected then s' = s
     else conns s' = (conns s)(a \<mapsto> c\<lparr>conn_state := Disconnecting\<rparr>) \<and>
       (if thread_id s = me
        then syscalls s' = syscalls s @ (if content (output_buffer c) = [] then [Sys_shutdown (ch_fd ch)] else [])
        else pending_functors s' = pending_functors s @ [Conn_shutdown_in_loop a]))"
proof (cases "conn_state c = Connected")
  case False
  then show ?thesis using assms by (simp add: shutdown_eq conn_live_def)
next
  case True
  let ?c = "c\<lparr>conn_state := Disconnecting\<rparr>"
  have "conn_live (put_conn a ?c s) a ?c ch" using assms by (simp add: conn_live_def)
  from shutdown_in_loop_ok [OF this, of os me] True assms show ?thesis
    by (auto simp: shutdown_eq run_in_loop_def is_in_loop_thread_def same_net_def conn_live_def)
qed

text \<open>
  C20.  The write side is shut down after the last byte and never before: a writability event
  issues the shutdown exactly if the connection is disconnecting and this event hands the
  last buffered byte to the kernel.
\<close>

theorem half_close_after_last_byte:
  assumes "conn_live s a c ch"
  shows "\<exists>s' c' cs. conn_handle_write os me a s = Inr s' \<and> conns s' a = Some c' \<and> syscalls s' = syscalls s @ cs \<and>
    (Sys_shutdown (ch_fd ch) \<in> set cs \<longleftrightarrow>
       conn_state c = Disconnecting \<and> content (output_buffer c) \<noteq> [] \<and> content (output_buffer c') = [])"
  using conn_handle_write_ok [OF assms, of os me] by (fastforce simp: wrote_def conn_live_def)

text \<open>
  C12.  A connection is established and destroyed at most once: after \<^verbatim>\<open>connect_destoryed\<close>
  has run, in every state that any further calls lead to, the assertions of
  \<^verbatim>\<open>connect_destoryed\<close>, \<^verbatim>\<open>connect_established\<close> and \<^verbatim>\<open>handle_close\<close> fail and \<^verbatim>\<open>send\<close> does nothing.
\<close>

theorem destroyed_is_final:
  assumes "app_forward app a" and "connect_destroyed app os me a s = Inr t" and "conn_reaches app os a t u"
  shows "connect_destroyed app os me' a u = Inl Assert_failed \<and>
    connect_established app os me' a u = Inl Assert_failed \<and>
    conn_handle_close app os me' a u = Inl Assert_failed \<and> send os me' a msg u = Inr u"
proof -
  have "\<exists>c'. conns u a = Some c' \<and> conn_state c' = Disconnected"
    using connect_destroyed_forward [OF assms(1,2)] conn_reaches_forward [OF assms(3,1)]
    by (auto simp: forward_def)
  then show ?thesis
    by (auto simp: connect_destroyed_def connect_established_def conn_handle_close_def send_def Let_def net_simps)
qed

text \<open>
  The life of a connection passes every assertion on either poller: constructed at
  fresh addresses and established, it is registered with its loop, live, and connected;
  destroyed, it is disconnected and the loop's registrations are those of before.
\<close>

lemma connection_lifecycle:
  assumes "loop_inv s" and "\<forall>f. registered s f \<noteq> Some cha" and "0 \<le> fd" and "registered s fd = None"
    and "callback_ok app cb a"
  shows "\<exists>s1 s2 s3 c ch. andthen (TcpConnection_ctor this_loop a cha name fd l p s) (modify_conn a (\<lambda>c. c\<lparr>connect_callback := Some cb\<rparr>)) = Inr s1 \<and>
    connect_established app os me a s1 = Inr s2 \<and> conn_live s2 a c ch \<and> conn_state c = Connected \<and>
    registered s2 = (registered s)(fd \<mapsto> cha) \<and>
    connect_destroyed app os me a s2 = Inr s3 \<and> loop_inv s3 \<and> registered s3 = registered s \<and>
    conns s3 a = Some (c\<lparr>conn_state := Disconnected\<rparr>)"
proof -
  define c where "c = \<lparr>conn_name = name, conn_state = Connecting, conn_channel = cha, local_addr = l, peer_addr = p,
    connect_callback = Some cb, message_callback = None, conn_close_callback = None,
    write_complete_callback = None, input_buffer = empty_buffer, output_buffer = empty_buffer\<rparr>"
  define ch :: "'a closure channel" where "ch = (Channel_ctor this_loop fd)
    \<lparr>read_callback := Some (Conn_handle_read a), write_callback := Some (Conn_handle_write a),
     error_callback := Some (Conn_handle_error a), close_callback := Some (Conn_handle_close a)\<rparr>"
  let ?s1 = "put_conn a c (put_chan cha ch s)"
  have 1: "andthen (TcpConnection_ctor this_loop a cha name fd l p s) (modify_conn a (\<lambda>c. c\<lparr>connect_callback := Some cb\<rparr>)) = Inr ?s1"
    by (simp add: TcpConnection_ctor_def Buffer_ctor_eq modify_conn_def net_simps c_def ch_def put_conn_def)
  have "loop_inv (put_chan cha ch s)" using assms(2) by (intro loop_inv_agree [OF assms(1)]) auto
  then have inv1: "loop_inv ?s1" by simp
  have new: "conn_new ?s1 a c ch"
    by (simp add: conn_new_def c_def ch_def Channel_ctor_def empty_buffer_inv empty_buffer_content)
  have reg1: "registered ?s1 = registered s" by (simp add: registered_def)
  have fds: "ch_fd ch = fd" "conn_channel c = cha" "connect_callback c = Some cb"
    by (simp_all add: ch_def c_def Channel_ctor_def)
  from connect_established_ok [OF inv1 new fds(3) assms(5), of os me] assms(3,4) reg1 fds obtain s2 ch2 where
    2: "connect_established app os me a ?s1 = Inr s2" "conn_live s2 a (c\<lparr>conn_state := Connected\<rparr>) ch2"
      "ch_fd ch2 = fd" "registered s2 = (registered s)(fd \<mapsto> cha)" by auto
  have live2: "loop_inv s2" "conns s2 a = Some (c\<lparr>conn_state := Connected\<rparr>)" "bound s2 (conn_channel (c\<lparr>conn_state := Connected\<rparr>)) fd"
    using 2(2,3) conn_live_bound [OF 2(2)] by (auto simp: conn_live_def)
  from connect_destroyed_ok [OF live2 _ _ assms(5), of os me] fds obtain s3 where
    3: "connect_destroyed app os me a s2 = Inr s3" "loop_inv s3" "registered s3 = (registered s2)(fd := None)"
      "conns s3 a = Some (c\<lparr>conn_state := Disconnected\<rparr>)" by auto
  show ?thesis using 1 2 3 assms(4)
    by (intro exI [of _ ?s1] exI [of _ s2] exI [of _ s3] exI [of _ "c\<lparr>conn_state := Connected\<rparr>"] exI [of _ ch2])
       (auto simp: fun_upd_idem)
qed

text \<open>
  Incoming bytes reach the application: when the socket is readable, all the bytes
  \<^verbatim>\<open>readv\<close> delivers are appended to the input buffer behind those the application has not
  taken yet, and the message callback is called once on that state with the time of the poll.
\<close>

lemma input_delivered:
  assumes "conns s a = Some c" and "chans s (conn_channel c) = Some ch" and "buf_inv (input_buffer c)"
    and "message_callback c = Some cb" and "os_readv os (length (syscalls s)) = Readv_bytes bytes"
    and "bytes \<noteq> []" and "length bytes \<le> unat (writable_bytes (input_buffer c)) + extra_buff_size"
    and "length (buffer_bytes (input_buffer c)) + extra_buff_size \<le> max_size"
  shows "\<exists>b s1. buf_inv b \<and> content b = content (input_buffer c) @ bytes \<and>
    conns s1 = (conns s)(a \<mapsto> c\<lparr>input_buffer := b\<rparr>) \<and> syscalls s1 = syscalls s @ [Sys_readv (ch_fd ch)] \<and>
    conn_handle_read app os me a t s = on_message app cb a t s1"
proof -
  from read_fd_ok [OF assms(3,7,8)] obtain b where
    b: "read_fd (Readv_bytes bytes) (input_buffer c) = Inr (int (length bytes), None, b)" "buf_inv b"
      "content b = content (input_buffer c) @ bytes" by blast
  let ?s1 = "put_conn a (c\<lparr>input_buffer := b\<rparr>) (snd (issue os (Sys_readv (ch_fd ch)) s))"
  have "conn_handle_read app os me a t s = on_message app cb a t ?s1"
    using assms b(1) by (simp add: conn_handle_read_def net_simps heap_simps Let_def invoke_def del: read_fd.simps)
  then show ?thesis using b
    by (intro exI [of _ b] exI [of _ ?s1]) (simp add: issue_def)
qed

section \<open>Examples\<close>

definition sample_conn :: "conn_state \<Rightarrow> buffer \<Rightarrow> nat conn" where
  "sample_conn st b = \<lparr>conn_name = ''c#1'', conn_state = st, conn_channel = 20, local_addr = zero_sockaddr,
     peer_addr = zero_sockaddr, connect_callback = Some 0, message_callback = Some 0, conn_close_callback = None,
     write_complete_callback = None, input_buffer = empty_buffer, output_buffer = b\<rparr>"

definition sample_channel :: "cint \<Rightarrow> nat closure channel" where
  "sample_channel e = (Channel_ctor this_loop 5)\<lparr>ch_events := e, ch_index := k_added\<rparr>"

definition sample_net :: "conn_state \<Rightarrow> buffer \<Rightarrow> cint \<Rightarrow> nat net" where
  "sample_net st b e = \<lparr>logs = [], clock_reads = 0, chans = [20 \<mapsto> sample_channel e],
     syscalls = [], looping = True, quit_flag = False, calling_pending_functors = False, thread_id = 7,
     loop_poller = Use_epoll \<lparr>epoll_fd = 3, events_size = 16, ep_channels = [5 \<mapsto> 20], kernel = [5 \<mapsto> (e, 20)]\<rparr>,
     wakeup_fd = 4, active_channels = [], pending_functors = [], poll_return_time = invalid_timestamp,
     timer_fd = 3, timer_heap = Map.empty, timers = [], conns = [30 \<mapsto> sample_conn st b]\<rparr>"

definition busy_buffer :: buffer where
  "busy_buffer = written ''abc'' empty_buffer"

lemma busy_buffer: "buf_inv busy_buffer" "content busy_buffer = ''abc''"
proof -
  have "unat (writable_bytes empty_buffer) = 1024" by (simp add: buffer_defs)
  with write_behind [OF empty_buffer_inv, of "''abc''"] show "buf_inv busy_buffer" "content busy_buffer = ''abc''"
    by (simp_all add: busy_buffer_def empty_buffer_content)
qed

lemma sample_live:
  assumes "buf_inv b" and "has_event e POLLOUT \<longleftrightarrow> content b \<noteq> []"
  shows "conn_live (sample_net st b e) 30 (sample_conn st b) (sample_channel e)"
  using assms
  by (simp add: conn_live_def sample_net_def sample_conn_def sample_channel_def loop_inv_def ep_inv_def
      registered_def is_writing_def k_write_event_def Channel_ctor_def)

lemma idle_live: "conn_live (sample_net st empty_buffer POLLIN) 30 (sample_conn st empty_buffer) (sample_channel POLLIN)"
  by (rule sample_live) (simp_all add: empty_buffer_inv empty_buffer_content has_event_def poll_masks)

lemma busy_live: "conn_live (sample_net st busy_buffer POLLOUT) 30 (sample_conn st busy_buffer) (sample_channel POLLOUT)"
  by (rule sample_live) (simp_all add: busy_buffer has_event_def poll_masks)

lemma sample_conn_simps [simp]:
  "conn_state (sample_conn st b) = st" "output_buffer (sample_conn st b) = b" "input_buffer (sample_conn st b) = empty_buffer"
  "message_callback (sample_conn st b) = Some 0" "connect_callback (sample_conn st b) = Some 0"
  "conn_channel (sample_conn st b) = 20"
  "ch_fd (sample_channel e) = 5" "syscalls (sample_net st b e) = []" "thread_id (sample_net st b e) = 7"
  "conns (sample_net st b e) = [30 \<mapsto> sample_conn st b]" "chans (sample_net st b e) = [20 \<mapsto> sample_channel e]"
  by (simp_all add: sample_conn_def sample_channel_def sample_net_def Channel_ctor_def)

lemma sample_stream: "stream os (sample_net st b e) (sample_conn st b) (sample_channel e) = content b"
  by (simp add: stream_def accepted_def)

theorem stream_integrity_witness:
  "\<exists>s' c' ch'. fold_res (out_exec (sample_os 0\<lparr>os_ret := \<lambda>_. 2\<rparr>) 30)
      [Out_send ''hello'', Out_writable, Out_send ''!'', Out_shutdown, Out_send ''?'', Out_writable]
      (sample_net Connected empty_buffer POLLIN) = Inr s' \<and>
    conns s' 30 = Some c' \<and> conn_state c' = Disconnecting \<and> stream (sample_os 0\<lparr>os_ret := \<lambda>_. 2\<rparr>) s' c' ch' = ''hello!''"
proof -
  let ?xs = "[Out_send ''hello'', Out_writable, Out_send ''!'', Out_shutdown, Out_send ''?'', Out_writable]"
  have "room (output_buffer (sample_conn Connected empty_buffer)) (length (concat (map out_bytes (takeWhile (\<lambda>x. x \<noteq> Out_shutdown) ?xs))))"
    "conn_state (sample_conn Connected empty_buffer) = Connected"
    by (simp_all add: room_def max_size_def sample_conn_def)
  from stream_integrity [OF idle_live this(2,1), of "sample_os 0\<lparr>os_ret := \<lambda>_. 2\<rparr>"] show ?thesis
    by (auto simp: sample_stream empty_buffer_content conn_live_def simp del: fold_res.simps)
qed

theorem output_drains_witness:
  "\<exists>s'. fold_res (conn_handle_write (sample_os 0\<lparr>os_ret := \<lambda>_. 1\<rparr>) 7) (replicate 3 30)
      (sample_net Connected busy_buffer POLLOUT) = Inr s' \<and>
    accepted (sample_os 0\<lparr>os_ret := \<lambda>_. 1\<rparr>) 5 (syscalls s') = ''abc''"
proof -
  have "length (content (output_buffer (sample_conn Connected busy_buffer))) \<le> 3" by (simp add: busy_buffer)
  from output_drains [OF busy_live this, of "sample_os 0\<lparr>os_ret := \<lambda>_. 1\<rparr>" 7] show ?thesis
    by (auto simp: sample_stream busy_buffer simp del: fold_res.simps)
qed

theorem shutdown_once_witness:
  "\<exists>s'. shutdown 1 (sample_os 0) 7 30 (sample_net Connected empty_buffer POLLIN) = Some (Inr s') \<and>
     syscalls s' = [Sys_shutdown 5]"
  using shutdown_once [OF idle_live [of Connected], of 0 "sample_os 0" 7] by (auto simp: empty_buffer_content)

theorem half_close_after_last_byte_witness:
  "\<exists>s' c'. conn_handle_write (sample_os 0\<lparr>os_ret := \<lambda>_. 3\<rparr>) 7 30 (sample_net Disconnecting busy_buffer POLLOUT) = Inr s' \<and>
     conns s' 30 = Some c' \<and> (Sys_shutdown 5 \<in> set (syscalls s') \<longleftrightarrow> content (output_buffer c') = [])"
  using half_close_after_last_byte [OF busy_live [of Disconnecting], of "sample_os 0\<lparr>os_ret := \<lambda>_. 3\<rparr>" 7]
  by (auto simp: busy_buffer)

definition quiet_app :: "(nat, nat net) app" where
  "quiet_app = \<lparr>on_connection = (\<lambda>cb b s. Inr s), on_message = (\<lambda>cb b t s. Inr s), on_write_complete = (\<lambda>cb b s. Inr s), on_close = (\<lambda>cb b s. Inr s)\<rparr>"

theorem destroyed_is_final_witness:
  "\<exists>t. connect_destroyed quiet_app (sample_os 0) 7 30 (sample_net Connected empty_buffer POLLIN) = Inr t \<and>
     connect_destroyed quiet_app (sample_os 0) 7 30 t = Inl Assert_failed"
proof -
  have "callback_ok quiet_app 0 30" by (simp add: callback_ok_def quiet_app_def)
  moreover have "loop_inv (sample_net Connected empty_buffer POLLIN)"
    using idle_live [of Connected] by (simp add: conn_live_def)
  ultimately obtain t where
    t: "connect_destroyed quiet_app (sample_os 0) 7 30 (sample_net Connected empty_buffer POLLIN) = Inr t"
    using connect_destroyed_ok [of "sample_net Connected empty_buffer POLLIN" 30 "sample_conn Connected empty_buffer" 5 0 quiet_app "sample_os 0" 7]
      conn_live_bound [OF idle_live, of Connected] by auto
  have "app_forward quiet_app 30" by (auto simp: app_forward_def quiet_app_def forward_def)
  from destroyed_is_final [OF this t conn_reaches.start] t show ?thesis by blast
qed

lemma connection_lifecycle_example:
  "\<exists>s1 s2 s3. andthen (TcpConnection_ctor this_loop 40 50 ''d'' 6 zero_sockaddr zero_sockaddr (sample_net Connected empty_buffer POLLIN))
      (modify_conn 40 (\<lambda>c. c\<lparr>connect_callback := Some 0\<rparr>)) = Inr s1 \<and>
    connect_established quiet_app (sample_os 0) 7 40 s1 = Inr s2 \<and>
    connect_destroyed quiet_app (sample_os 0) 7 40 s2 = Inr s3"
proof -
  let ?s = "sample_net Connected empty_buffer POLLIN"
  have reg: "loop_inv ?s" "\<forall>f. registered ?s f \<noteq> Some 50" "registered ?s 6 = None"
    using idle_live [of Connected] by (simp_all add: conn_live_def) (simp_all add: sample_net_def registered_def)
  have "callback_ok quiet_app 0 40" by (simp add: callback_ok_def quiet_app_def)
  from connection_lifecycle [OF reg(1,2) _ reg(3) this, of "''d''" zero_sockaddr zero_sockaddr "sample_os 0" 7]
  show ?thesis by auto
qed

lemma input_delivered_example:
  "\<exists>b s1. content b = ''hi'' \<and>
    conn_handle_read quiet_app (sample_os 0\<lparr>os_readv := \<lambda>_. Readv_bytes ''hi''\<rparr>) 7 30 invalid_timestamp
      (sample_net Connected empty_buffer POLLIN) = Inr s1 \<and> map_option input_buffer (conns s1 30) = Some b"
proof -
  let ?s = "sample_net Connected empty_buffer POLLIN" and ?c = "sample_conn Connected empty_buffer"
  let ?os = "sample_os 0\<lparr>os_readv := \<lambda>_. Readv_bytes ''hi''\<rparr>"
  have "conns ?s 30 = Some ?c" "chans ?s (conn_channel ?c) = Some (sample_channel POLLIN)" "buf_inv (input_buffer ?c)"
    "message_callback ?c = Some 0" "os_readv ?os (length (syscalls ?s)) = Readv_bytes ''hi''" "''hi'' \<noteq> []"
    "length ''hi'' \<le> unat (writable_bytes (input_buffer ?c)) + extra_buff_size"
    "length (buffer_bytes (input_buffer ?c)) + extra_buff_size \<le> max_size"
    by (simp_all add: empty_buffer_inv extra_buff_size_def max_size_def)
  from input_delivered [OF this, of quiet_app 7 invalid_timestamp] show ?thesis
    by (auto simp: quiet_app_def empty_buffer_content)
qed

end
