(* ===== verification/Acceptor.thy ===== *)
theory Acceptor
  imports Tcp_Connection
begin

text \<open>
  The listening socket of a server (\<^verbatim>\<open>tcp/Acceptor.hpp\<close>, \<^verbatim>\<open>Acceptor.cpp\<close>).  \<open>on_new\<close> is the code of
  \<^verbatim>\<open>new_connection_callback_\<close>; the field says whether one is set.
\<close>

record 'u acceptor = "'u net" +
  accept_fd :: int
  accept_channel :: addr
  new_connection_callback :: bool
  listenning :: bool
  idle_fd :: int

definition Acceptor_ctor ::
  "os \<Rightarrow> addr \<Rightarrow> sockaddr_in \<Rightarrow> ('u, 'z) acceptor_scheme \<Rightarrow> ('u, 'z) acceptor_scheme res" where
  "Acceptor_ctor os cha listen_addr s =
     (case createNonblockingOrDie os s of (fd, s1) \<Rightarrow>
      case issue os Sys_open_null (put_chan cha (Channel_ctor this_loop fd) s1) of (idle, s2) \<Rightarrow>
      let s3 = s2\<lparr>accept_fd := fd, accept_channel := cha, new_connection_callback := False,
                  listenning := False, idle_fd := idle\<rparr> in
      cpp_assert (idle \<ge> 0)
       (modify_chan cha (set_read_callback (Some Acceptor_handle_read_once))
          (bind_address os fd listen_addr (set_reuse_addr os fd True s3))))"

definition set_new_connection_callback :: "('u, 'z) acceptor_scheme \<Rightarrow> ('u, 'z) acceptor_scheme" where
  "set_new_connection_callback s = s\<lparr>new_connection_callback := True\<rparr>"

definition Acceptor_listen :: "os \<Rightarrow> nat \<Rightarrow> ('u, 'z) acceptor_scheme \<Rightarrow> ('u, 'z) acceptor_scheme res" where
  "Acceptor_listen os me s =
     (let s0 = (assert_in_loop_thread (is_in_loop_thread me s) s)\<lparr>listenning := True\<rparr>
      in channel_change os me Enable_reading (accept_channel s0) (Socket_listen os (accept_fd s0) s0))"

text \<open>The tests and the callback on a new descriptor, the same in both \<^verbatim>\<open>handle_read\<close> functions.\<close>

definition dispatch_connection ::
  "os \<Rightarrow> (int \<Rightarrow> sockaddr_in \<Rightarrow> ('u, 'z) acceptor_scheme \<Rightarrow> ('u, 'z) acceptor_scheme res) \<Rightarrow>
   int \<Rightarrow> sockaddr_in \<Rightarrow> ('u, 'z) acceptor_scheme \<Rightarrow> ('u, 'z) acceptor_scheme res" where
  "dispatch_connection os on_new conn_fd peer s =
     (case issue os (Sys_poll_one conn_fd) s of (r, s1) \<Rightarrow>
      if r < 0 then Inr (sockets_close os conn_fd s1)
      else if new_connection_callback s1 then on_new conn_fd peer s1
      else Inr (sockets_close os conn_fd s1))"

text \<open>
  Out of descriptors: the idle descriptor is given up so that the pending connection can be
  accepted and closed, then opened again.
\<close>

definition reject_with_idle_fd :: "os \<Rightarrow> ('u, 'z) acceptor_scheme \<Rightarrow> ('u, 'z) acceptor_scheme" where
  "reject_with_idle_fd os s =
     (let s1 = snd (issue os (Sys_close (idle_fd s)) s) in
      case issue os (Sys_accept (accept_fd s1)) s1 of (fd, s2) \<Rightarrow>
      let s3 = snd (issue os (Sys_close fd) (s2\<lparr>idle_fd := fd\<rparr>)) in
      case issue os Sys_open_null s3 of (fd', s4) \<Rightarrow> s4\<lparr>idle_fd := fd'\<rparr>)"

definition handle_read_once ::
  "os \<Rightarrow> nat \<Rightarrow> (int \<Rightarrow> sockaddr_in \<Rightarrow> ('u, 'z) acceptor_scheme \<Rightarrow> ('u, 'z) acceptor_scheme res) \<Rightarrow>
   ('u, 'z) acceptor_scheme \<Rightarrow> ('u, 'z) acceptor_scheme res" where
  "handle_read_once os me on_new s =
     (let s0 = assert_in_loop_thread (is_in_loop_thread me s) s in
      case Socket_accept os (accept_fd s0) (InetAddress_port 0) s0 of (conn_fd, e, peer, s1) \<Rightarrow>
      if conn_fd \<ge> 0 then dispatch_connection os on_new conn_fd peer s1
      else
        (let s2 = log_to LOG_SYSERR s1
         in Inr (if e = EMFILE then reject_with_idle_fd os s2 else s2)))"

text \<open>
  \<^verbatim>\<open>handle_read_all\<close>, which nothing installs as a callback: accept until an error, or
  descriptor 0.  \<open>None\<close>: the fuel is used up.
\<close>

fun accept_while ::
  "nat \<Rightarrow> os \<Rightarrow> (int \<Rightarrow> sockaddr_in \<Rightarrow> ('u, 'z) acceptor_scheme \<Rightarrow> ('u, 'z) acceptor_scheme res) \<Rightarrow>
   sockaddr_in \<Rightarrow> ('u, 'z) acceptor_scheme \<Rightarrow> ('u, 'z) acceptor_scheme res option" where
  "accept_while 0 os on_new peer s = None"
| "accept_while (Suc fuel) os on_new peer s =
     (case Socket_accept os (accept_fd s) peer s of (conn_fd, e, peer1, s1) \<Rightarrow>
      if conn_fd = 0 then Some (Inr s1)
      else if conn_fd > 0 then
        (case dispatch_connection os on_new conn_fd peer1 s1 of
           Inl err \<Rightarrow> Some (Inl err) | Inr s2 \<Rightarrow> accept_while fuel os on_new peer1 s2)
      else if e = EMFILE then accept_while fuel os on_new peer1 (reject_with_idle_fd os s1)
      else Some (Inr s1))"

definition handle_read_all ::
  "nat \<Rightarrow> os \<Rightarrow> nat \<Rightarrow> (int \<Rightarrow> sockaddr_in \<Rightarrow> ('u, 'z) acceptor_scheme \<Rightarrow> ('u, 'z) acceptor_scheme res) \<Rightarrow>
   ('u, 'z) acceptor_scheme \<Rightarrow> ('u, 'z) acceptor_scheme res option" where
  "handle_read_all fuel os me on_new s =
     accept_while fuel os on_new (InetAddress_port 0) (assert_in_loop_thread (is_in_loop_thread me s) s)"

section \<open>Descriptors\<close>

text \<open>
  The descriptors a run of system calls leaves open: a successful accept or open adds one,
  a close takes one away.
\<close>

definition fd_step :: "os \<Rightarrow> nat \<times> syscall \<Rightarrow> int set \<Rightarrow> int set" where
  "fd_step os p F =
     (case snd p of
        Sys_accept _ \<Rightarrow> if 0 \<le> os_ret os (fst p) then insert (os_ret os (fst p)) F else F
      | Sys_open_null \<Rightarrow> if 0 \<le> os_ret os (fst p) then insert (os_ret os (fst p)) F else F
      | Sys_close fd \<Rightarrow> F - {fd}
      | _ \<Rightarrow> F)"

definition open_fds :: "os \<Rightarrow> syscall list \<Rightarrow> int set" where
  "open_fds os cs = fold (fd_step os) (List.enumerate 0 cs) {}"

lemma open_fds_snoc: "open_fds os (cs @ [c]) = fd_step os (length cs, c) (open_fds os cs)"
  by (simp add: open_fds_def enumerate_append_eq)

lemma more_log: "reactor.more (log_to l s) = reactor.more s"
  by (simp add: log_to_def)

lemma acceptor_more:
  "reactor.more s = reactor.more t \<Longrightarrow>
   accept_fd s = accept_fd t \<and> accept_channel s = accept_channel t \<and> idle_fd s = idle_fd t \<and>
   new_connection_callback s = new_connection_callback t \<and> listenning s = listenning t"
  by (cases s; cases t) simp

lemma reject_with_idle_fd_eq:
  fixes s :: "('u, 'z) acceptor_scheme"
  defines "k \<equiv> length (syscalls s)"
  shows "syscalls (reject_with_idle_fd os s) =
      syscalls s @ [Sys_close (idle_fd s), Sys_accept (accept_fd s), Sys_close (os_ret os (Suc k)), Sys_open_null]"
    and "idle_fd (reject_with_idle_fd os s) = os_ret os (k + 3)"
    and "same_net s (reject_with_idle_fd os s)"
  by (simp_all add: reject_with_idle_fd_def issue_def Let_def k_def same_net_def numeral_3_eq_3)

section \<open>Properties\<close>

text \<open>
  C21.  Running out of descriptors does not wedge the acceptor: when \<^verbatim>\<open>accept\<close> fails with
  \<^verbatim>\<open>EMFILE\<close>, the pending connection is accepted on the reserve descriptor and closed, the callback
  is not called, the reserve is opened again, and the process holds exactly the descriptors
  of before with the reserve renewed.
\<close>

theorem emfile_keeps_reserve:
  assumes "k = length (syscalls s)" and "os_ret os k < 0" and "os_errno os k = EMFILE"
    and "0 \<le> os_ret os (k + 2)" and "os_ret os (k + 2) \<notin> open_fds os (syscalls s) - {idle_fd s}"
    and "0 \<le> os_ret os (k + 4)"
  shows "\<exists>s'. handle_read_once os me on_new s = Inr s' \<and> same_net s s' \<and>
    open_fds os (syscalls s') = insert (os_ret os (k + 4)) (open_fds os (syscalls s) - {idle_fd s}) \<and>
    idle_fd s' = os_ret os (k + 4) \<and> accept_fd s' = accept_fd s"
proof -
  let ?s0 = "assert_in_loop_thread (is_in_loop_thread me s) s"
  define s2 where "s2 = log_to LOG_SYSERR (log_to LOG_SYSERR (snd (issue os (Sys_accept (accept_fd s)) ?s0)))"
  have fields: "accept_fd s2 = accept_fd s" "idle_fd s2 = idle_fd s" "syscalls s2 = syscalls s @ [Sys_accept (accept_fd s)]"
    "same_net s s2"
    by (simp_all add: s2_def issue_def log_to_def assert_in_loop_thread_def same_net_def)
  have "accept_fd ?s0 = accept_fd s" by (simp add: assert_in_loop_thread_def log_to_def)
  then have "handle_read_once os me on_new s = Inr (reject_with_idle_fd os s2)"
    using assms(1,2,3)
    by (simp add: handle_read_once_def Socket_accept_def sockets_accept_def issue_errno_def Let_def
        accept_expected_def s2_def)
  moreover have "same_net s (reject_with_idle_fd os s2)"
    using fields(4) reject_with_idle_fd_eq(3) by (rule same_net_trans)
  moreover have "open_fds os (syscalls (reject_with_idle_fd os s2)) =
      insert (os_ret os (k + 4)) (open_fds os (syscalls s) - {idle_fd s})"
  proof -
    have "syscalls (reject_with_idle_fd os s2) = ((((syscalls s @ [Sys_accept (accept_fd s)]) @ [Sys_close (idle_fd s)]) @
        [Sys_accept (accept_fd s)]) @ [Sys_close (os_ret os (k + 2))]) @ [Sys_open_null]"
      using reject_with_idle_fd_eq(1) [of os s2] fields assms(1) by simp
    then show ?thesis using assms by (simp only: open_fds_snoc) (auto simp: fd_step_def eval_nat_numeral)
  qed
  moreover have "idle_fd (reject_with_idle_fd os s2) = os_ret os (k + 4)"
    using reject_with_idle_fd_eq(2) [of os s2] fields assms(1) by (simp add: add.commute)
  moreover have "accept_fd (reject_with_idle_fd os s2) = accept_fd s"
    using fields(1) by (simp add: reject_with_idle_fd_def issue_def Let_def)
  ultimately show ?thesis by blast
qed

definition sample_acceptor :: "nat acceptor" where
  "sample_acceptor = \<lparr>logs = [], clock_reads = 0, chans = Map.empty,
     syscalls = [Sys_open_null], looping = True, quit_flag = False, calling_pending_functors = False,
     thread_id = 7, loop_poller = Use_poll Poller_ctor, wakeup_fd = 4, active_channels = [],
     pending_functors = [], poll_return_time = invalid_timestamp, timer_fd = 3, timer_heap = Map.empty, timers = [],
     conns = Map.empty, accept_fd = 5, accept_channel = 20, new_connection_callback = True, listenning = True, idle_fd = 6\<rparr>"

theorem emfile_keeps_reserve_witness:
  "\<exists>s'. handle_read_once (sample_os 0\<lparr>os_ret := (!) [6, -1, 0, 6, 0, 6], os_errno := \<lambda>_. 24\<rparr>) 7 (\<lambda>fd peer s. Inl Aborted)
      sample_acceptor = Inr s' \<and> idle_fd s' = 6"
proof -
  let ?os = "sample_os 0\<lparr>os_ret := (!) [6, -1, 0, 6, 0, 6], os_errno := \<lambda>_. 24\<rparr>"
  have "1 = length (syscalls sample_acceptor)" "os_ret ?os 1 < 0" "os_errno ?os 1 = EMFILE" "0 \<le> os_ret ?os (1 + 2)"
    "os_ret ?os (1 + 2) \<notin> open_fds ?os (syscalls sample_acceptor) - {idle_fd sample_acceptor}"
    "0 \<le> os_ret ?os (1 + 4)"
    by (simp_all add: sample_acceptor_def EMFILE_def)
  from emfile_keeps_reserve [OF this, of 7 "\<lambda>fd peer s. Inl Aborted"] show ?thesis by auto
qed

end
