(* ===== verification/Thread_Pool.thy ===== *)
theory Thread_Pool
  imports Poller_Interface
begin

text \<open>
  Loops in other threads: \<^verbatim>\<open>EventLoopThread\<close> (\<^verbatim>\<open>event_loop/EventLoopThread.cpp\<close>) and
  \<^verbatim>\<open>EventLoopThreadPool\<close> (\<^verbatim>\<open>event_loop/EventLoopThreadPool.cpp\<close>).  The two threads that meet in
  \<^verbatim>\<open>start_loop\<close> and \<^verbatim>\<open>thread_func\<close> are a step relation, one step per access to the mutex, the
  condition variable or the shared pointer.
\<close>

section \<open>Starting a loop thread\<close>

text \<open>Where the caller of \<^verbatim>\<open>start_loop\<close> stands, and where the new thread stands in \<^verbatim>\<open>thread_func\<close>.\<close>

datatype caller_pc =
    Spawn
  | Acquire
  | Test
  | Waiting
  | Release
  | Return
  | Returned "addr option"

datatype worker_pc =
    Not_started
  | Construct
  | Lock
  | Publish
  | Notify
  | Unlock
  | Looping

datatype holder = Nobody | Caller | Worker

record loop_thread =
  thread_loop :: "addr option"
  caller :: caller_pc
  worker :: worker_pc
  mutex :: holder

definition EventLoopThread_ctor :: loop_thread where
  "EventLoopThread_ctor = \<lparr>thread_loop = None, caller = Spawn, worker = Not_started, mutex = Nobody\<rparr>"

text \<open>
  The steps.  \<^verbatim>\<open>wait\<close> gives the mutex back while the caller is \<open>Waiting\<close>; a notification or a
  spurious wake-up makes it acquire the mutex again.  \<open>lp\<close> is the loop on the worker's stack.
\<close>

inductive thread_step :: "addr \<Rightarrow> loop_thread \<Rightarrow> loop_thread \<Rightarrow> bool" for lp where
  spawn: "caller s = Spawn \<Longrightarrow> thread_step lp s (s\<lparr>caller := Acquire, worker := Construct\<rparr>)"
| acquire: "caller s = Acquire \<Longrightarrow> mutex s = Nobody \<Longrightarrow> thread_step lp s (s\<lparr>caller := Test, mutex := Caller\<rparr>)"
| wait: "caller s = Test \<Longrightarrow> thread_loop s = None \<Longrightarrow> thread_step lp s (s\<lparr>caller := Waiting, mutex := Nobody\<rparr>)"
| spurious: "caller s = Waiting \<Longrightarrow> thread_step lp s (s\<lparr>caller := Acquire\<rparr>)"
| pass: "caller s = Test \<Longrightarrow> thread_loop s \<noteq> None \<Longrightarrow> thread_step lp s (s\<lparr>caller := Release\<rparr>)"
| release: "caller s = Release \<Longrightarrow> thread_step lp s (s\<lparr>caller := Return, mutex := Nobody\<rparr>)"
| return: "caller s = Return \<Longrightarrow> thread_step lp s (s\<lparr>caller := Returned (thread_loop s)\<rparr>)"
| construct: "worker s = Construct \<Longrightarrow> thread_step lp s (s\<lparr>worker := Lock\<rparr>)"
| lock: "worker s = Lock \<Longrightarrow> mutex s = Nobody \<Longrightarrow> thread_step lp s (s\<lparr>worker := Publish, mutex := Worker\<rparr>)"
| publish: "worker s = Publish \<Longrightarrow> thread_step lp s (s\<lparr>worker := Notify, thread_loop := Some lp\<rparr>)"
| notify: "worker s = Notify \<Longrightarrow>
    thread_step lp s (s\<lparr>worker := Unlock, caller := (if caller s = Waiting then Acquire else caller s)\<rparr>)"
| unlock: "worker s = Unlock \<Longrightarrow> thread_step lp s (s\<lparr>worker := Looping, mutex := Nobody\<rparr>)"

inductive_cases thread_stepE: "thread_step lp s t"

inductive thread_reach :: "addr \<Rightarrow> loop_thread \<Rightarrow> bool" for lp where
  init: "thread_reach lp EventLoopThread_ctor"
| step: "thread_reach lp s \<Longrightarrow> thread_step lp s t \<Longrightarrow> thread_reach lp t"

text \<open>
  The mutex has the holder the program counters say, the pointer is set exactly from
  \<open>Notify\<close> on, a caller past its test has seen it set, and once the worker has notified nobody waits.
\<close>

definition thread_inv :: "addr \<Rightarrow> loop_thread \<Rightarrow> bool" where
  "thread_inv lp s \<longleftrightarrow>
     (mutex s = Caller \<longleftrightarrow> caller s \<in> {Test, Release}) \<and>
     (mutex s = Worker \<longleftrightarrow> worker s \<in> {Publish, Notify, Unlock}) \<and>
     thread_loop s = (if worker s \<in> {Notify, Unlock, Looping} then Some lp else None) \<and>
     (caller s \<in> {Release, Return} \<longrightarrow> thread_loop s = Some lp) \<and>
     (\<forall>r. caller s = Returned r \<longrightarrow> r = Some lp \<and> thread_loop s = Some lp) \<and>
     (worker s = Not_started \<longleftrightarrow> caller s = Spawn) \<and>
     (worker s \<in> {Unlock, Looping} \<longrightarrow> caller s \<noteq> Waiting)"

lemma thread_inv_init: "thread_inv lp EventLoopThread_ctor"
  by (simp add: thread_inv_def EventLoopThread_ctor_def)

lemma thread_inv_step: "thread_step lp s t \<Longrightarrow> thread_inv lp s \<Longrightarrow> thread_inv lp t"
  by (erule thread_stepE) (auto simp: thread_inv_def split: if_splits)

lemma thread_reach_inv: "thread_reach lp s \<Longrightarrow> thread_inv lp s"
  by (induction rule: thread_reach.induct) (auto intro: thread_inv_init thread_inv_step)

text \<open>
  How far both threads still have to go, when every step but a spurious wake-up and a wait is
  counted: the caller's way from a wait leads through \<open>Acquire\<close> again.
\<close>

lemma caller_can_move:
  assumes "thread_inv lp s" and "caller s \<noteq> Waiting" and "\<And>r. caller s \<noteq> Returned r" and "mutex s \<noteq> Worker"
  shows "\<exists>t. thread_step lp s t \<and> caller t \<noteq> caller s"
proof (cases "caller s")
  case Spawn
  show ?thesis by (rule exI, rule conjI, rule thread_step.spawn [OF Spawn]) (simp add: Spawn)
next
  case Acquire
  then have "mutex s = Nobody" using assms(1,4) by (cases "mutex s") (auto simp: thread_inv_def)
  then show ?thesis by (intro exI conjI, rule thread_step.acquire [OF Acquire]) (simp_all add: Acquire)
next
  case Test
  show ?thesis
  proof (cases "thread_loop s")
    case None
    show ?thesis by (rule exI, rule conjI, rule thread_step.wait [OF Test None]) (simp add: Test)
  next
    case (Some x)
    then have "thread_loop s \<noteq> None" by simp
    then show ?thesis by (intro exI conjI, rule thread_step.pass [OF Test]) (simp_all add: Test)
  qed
next
  case Release
  show ?thesis by (rule exI, rule conjI, rule thread_step.release [OF Release]) (simp add: Release)
next
  case Return
  show ?thesis by (rule exI, rule conjI, rule thread_step.return [OF Return]) (simp add: Return)
qed (use assms in auto)

lemma worker_can_move:
  assumes "thread_inv lp s" and "worker s \<notin> {Not_started, Looping}" and "mutex s \<noteq> Caller"
  shows "\<exists>t. thread_step lp s t \<and> worker t \<noteq> worker s"
proof (cases "worker s")
  case Construct
  show ?thesis by (rule exI, rule conjI, rule thread_step.construct [OF Construct]) (simp add: Construct)
next
  case Lock
  then have "mutex s = Nobody" using assms(1,3) by (cases "mutex s") (auto simp: thread_inv_def)
  then show ?thesis by (intro exI conjI, rule thread_step.lock [OF Lock]) (simp_all add: Lock)
next
  case Publish
  show ?thesis by (rule exI, rule conjI, rule thread_step.publish [OF Publish]) (simp add: Publish)
next
  case Notify
  show ?thesis by (rule exI, rule conjI, rule thread_step.notify [OF Notify]) (simp add: Notify)
next
  case Unlock
  show ?thesis by (rule exI, rule conjI, rule thread_step.unlock [OF Unlock]) (simp add: Unlock)
qed (use assms in auto)

section \<open>Destroying a loop thread\<close>

text \<open>
  The destructor calls \<^verbatim>\<open>quit()\<close> through \<^verbatim>\<open>loop_\<close>, which is null unless a thread was started, and
  then joins the thread.  The two threads are a step relation again: \<^verbatim>\<open>loop()\<close> clears the
  quit flag when it is entered and reads it before every turn.
\<close>

datatype loop_pc = Enter | Turning | Left

datatype destroyer_pc = Quitting | Joining | Joined

record loop_exit =
  exit_quit :: bool
  loop_at :: loop_pc
  destroyer_at :: destroyer_pc

definition EventLoopThread_dtor :: "loop_thread \<Rightarrow> loop_exit res" where
  "EventLoopThread_dtor s =
     (case thread_loop s of
        None \<Rightarrow> Inl Bad_deref
      | Some lp \<Rightarrow> Inr \<lparr>exit_quit = False, loop_at = Enter, destroyer_at = Quitting\<rparr>)"

inductive exit_step :: "loop_exit \<Rightarrow> loop_exit \<Rightarrow> bool" where
  enter: "loop_at s = Enter \<Longrightarrow> exit_step s (s\<lparr>exit_quit := False, loop_at := Turning\<rparr>)"
| turn: "loop_at s = Turning \<Longrightarrow> \<not> exit_quit s \<Longrightarrow> exit_step s s"
| leave: "loop_at s = Turning \<Longrightarrow> exit_quit s \<Longrightarrow> exit_step s (s\<lparr>loop_at := Left\<rparr>)"
| quit: "destroyer_at s = Quitting \<Longrightarrow> exit_step s (s\<lparr>exit_quit := True, destroyer_at := Joining\<rparr>)"
| join: "destroyer_at s = Joining \<Longrightarrow> loop_at s = Left \<Longrightarrow> exit_step s (s\<lparr>destroyer_at := Joined\<rparr>)"

inductive_cases exit_stepE: "exit_step s t"

abbreviation exit_steps :: "loop_exit \<Rightarrow> loop_exit \<Rightarrow> bool" where
  "exit_steps \<equiv> exit_step\<^sup>*\<^sup>*"

text \<open>The state after a quit that came too early: the flag is cleared and the destructor joins.\<close>

definition hung :: "loop_exit \<Rightarrow> bool" where
  "hung s \<longleftrightarrow> destroyer_at s = Joining \<and> loop_at s = Turning \<and> \<not> exit_quit s"

lemma hung_step: "hung s \<Longrightarrow> exit_step s t \<Longrightarrow> hung t"
  by (erule exit_stepE) (auto simp: hung_def)

lemma hung_forever: "exit_steps s t \<Longrightarrow> hung s \<Longrightarrow> hung t"
  by (induction rule: rtranclp_induct) (auto intro: hung_step)

lemma quit_in_time:
  assumes "loop_at s = Turning" and "destroyer_at s = Quitting"
  shows "\<exists>t. exit_steps s t \<and> destroyer_at t = Joined"
proof -
  let ?q = "s\<lparr>exit_quit := True, destroyer_at := Joining\<rparr>" and ?l = "s\<lparr>exit_quit := True, destroyer_at := Joining, loop_at := Left\<rparr>"
  have "exit_step s ?q" using assms(2) by (rule exit_step.quit)
  moreover have "exit_step ?q ?l" using exit_step.leave [of ?q] assms(1) by simp
  moreover have "exit_step ?l (?l\<lparr>destroyer_at := Joined\<rparr>)" by (rule exit_step.join) simp_all
  ultimately have "exit_steps s (?l\<lparr>destroyer_at := Joined\<rparr>)"
    by (meson rtranclp.rtrancl_into_rtrancl rtranclp.rtrancl_refl)
  then show ?thesis by (intro exI [of _ "?l\<lparr>destroyer_at := Joined\<rparr>"]) simp
qed

section \<open>The pool\<close>

record pool =
  pool_started :: bool
  num_threads :: int
  next_loop :: int
  pool_threads :: "addr option list"
  pool_loops :: "addr list"

definition EventLoopThreadPool_ctor :: pool where
  "EventLoopThreadPool_ctor = \<lparr>pool_started = False, num_threads = 0, next_loop = 0, pool_threads = [], pool_loops = []\<rparr>"

definition set_thread_num :: "int \<Rightarrow> pool \<Rightarrow> pool" where
  "set_thread_num n p = p\<lparr>num_threads := n\<rparr>"

definition get_thread_num :: "pool \<Rightarrow> nat" where
  "get_thread_num p = length (pool_threads p)"

text \<open>
  The body of the loop in \<^verbatim>\<open>start\<close>: \<open>t\<close> is the local \<^verbatim>\<open>unique_ptr\<close>, \<open>fresh\<close> the object
  \<^verbatim>\<open>make_unique\<close> makes, \<open>loop_of\<close> what \<^verbatim>\<open>start_loop\<close> returns on an object.  Moving from \<open>t\<close> leaves it null.
\<close>

definition move_ptr :: "'a option \<Rightarrow> 'a option \<times> 'a option" where
  "move_ptr t = (t, None)"

definition start_thread :: "(nat \<Rightarrow> addr) \<Rightarrow> (addr \<Rightarrow> addr) \<Rightarrow> nat \<Rightarrow> pool \<Rightarrow> pool res" where
  "start_thread fresh loop_of i p =
     (let t = Some (fresh i); (moved, t) = move_ptr t; p1 = p\<lparr>pool_threads := pool_threads p @ [moved]\<rparr>
      in case t of None \<Rightarrow> Inl Bad_deref
         | Some x \<Rightarrow> Inr (p1\<lparr>pool_loops := pool_loops p1 @ [loop_of x]\<rparr>))"

definition pool_start ::
  "bool \<Rightarrow> (nat \<Rightarrow> addr) \<Rightarrow> (addr \<Rightarrow> addr) \<Rightarrow> pool \<times> ('z) world_scheme \<Rightarrow> (pool \<times> ('z) world_scheme) res" where
  "pool_start il fresh loop_of ps =
     (case ps of (p, s) \<Rightarrow>
      cpp_assert (\<not> pool_started p)
       (let s1 = assert_in_loop_thread il s in
        andthen (fold_res (start_thread fresh loop_of) [0..<nat (num_threads p)] (p\<lparr>pool_started := True\<rparr>))
          (\<lambda>p1. Inr (p1, s1))))"

definition get_next_loop ::
  "bool \<Rightarrow> addr \<Rightarrow> pool \<times> ('z) world_scheme \<Rightarrow> (addr \<times> pool \<times> ('z) world_scheme) res" where
  "get_next_loop il base ps =
     (case ps of (p, s) \<Rightarrow>
      let s1 = assert_in_loop_thread il s in
      if pool_loops p \<noteq> [] then
        (if 0 \<le> next_loop p \<and> nat (next_loop p) < length (pool_loops p) then
           (let n = next_loop p + 1
            in Inr (pool_loops p ! nat (next_loop p),
                    p\<lparr>next_loop := (if nat n \<ge> length (pool_loops p) then 0 else n)\<rparr>, s1))
         else Inl Out_of_range)
      else Inr (base, p, s1))"

text \<open>\<open>n\<close> calls in a row.\<close>

fun next_loops ::
  "nat \<Rightarrow> bool \<Rightarrow> addr \<Rightarrow> pool \<times> ('z) world_scheme \<Rightarrow> (addr list \<times> pool \<times> ('z) world_scheme) res" where
  "next_loops 0 il base ps = Inr ([], ps)"
| "next_loops (Suc n) il base ps =
     andthen (get_next_loop il base ps) (\<lambda>(x, ps1).
     andthen (next_loops n il base ps1) (\<lambda>(xs, ps2). Inr (x # xs, ps2)))"

lemma next_loops_round_robin:
  assumes "pool_loops p \<noteq> []" and "next_loop p = int i" and "i < length (pool_loops p)"
  shows "\<exists>ps. next_loops n il base (p, s) =
    Inr (map (\<lambda>k. pool_loops p ! ((i + k) mod length (pool_loops p))) [0..<n], ps)"
  using assms
proof (induction n arbitrary: p i s)
  case (Suc n)
  let ?l = "pool_loops p" and ?j = "Suc i mod length (pool_loops p)"
  let ?p = "p\<lparr>next_loop := int ?j\<rparr>"
  have wrap: "(if nat (int i + 1) \<ge> length ?l then 0 else int i + 1) = int ?j"
    using Suc.prems(3) by (cases "Suc i = length ?l") auto
  then have step: "get_next_loop il base (p, s) = Inr (?l ! i, ?p, assert_in_loop_thread il s)"
    using Suc.prems by (simp add: get_next_loop_def Let_def)
  have "(?j + k) mod length ?l = (i + Suc k) mod length ?l" for k
    by (simp add: mod_add_left_eq)
  moreover have "\<exists>ps. next_loops n il base (?p, assert_in_loop_thread il s) =
      Inr (map (\<lambda>k. pool_loops ?p ! ((?j + k) mod length (pool_loops ?p))) [0..<n], ps)"
    using Suc.prems by (intro Suc.IH) simp_all
  ultimately obtain ps where ps: "next_loops n il base (?p, assert_in_loop_thread il s) =
      Inr (map (\<lambda>k. ?l ! ((i + Suc k) mod length ?l)) [0..<n], ps)" by auto
  have "map (\<lambda>k. ?l ! ((i + k) mod length ?l)) [0..<Suc n] =
      ?l ! i # map (\<lambda>k. ?l ! ((i + Suc k) mod length ?l)) [0..<n]"
    using Suc.prems(3) by (simp add: map_upt_Suc del: upt_Suc)
  with step ps show ?case by (simp del: upt_Suc)
qed simp

section \<open>Properties\<close>

text \<open>
  C11.  Starting a loop thread: in every interleaving of the two threads, and with any
  spurious wake-ups, \<^verbatim>\<open>start_loop\<close> returns the new loop and never a null pointer, no
  notification is lost (once the worker has notified, the caller does not wait), and until
  the caller has returned some step other than a wake-up out of nothing is possible.
\<close>

theorem start_loop_handshake:
  assumes "thread_reach lp s"
  shows "(\<forall>r. caller s = Returned r \<longrightarrow> r = Some lp) \<and>
    (worker s = Looping \<longrightarrow> caller s \<noteq> Waiting \<and> thread_loop s = Some lp) \<and>
    ((\<exists>r. caller s = Returned r) \<or>
     (\<exists>t. thread_step lp s t \<and> (caller s \<noteq> Waiting \<and> caller t \<noteq> caller s \<or> worker t \<noteq> worker s)))"
proof -
  note inv = thread_reach_inv [OF assms]
  have "\<exists>t. thread_step lp s t \<and> (caller s \<noteq> Waiting \<and> caller t \<noteq> caller s \<or> worker t \<noteq> worker s)"
    if "\<forall>r. caller s \<noteq> Returned r"
  proof (cases "caller s = Waiting \<or> mutex s = Worker")
    case True
    then have "worker s \<notin> {Not_started, Looping}" "mutex s \<noteq> Caller"
      using inv by (cases "worker s"; cases "caller s"; simp add: thread_inv_def)+
    from worker_can_move [OF inv this] show ?thesis by blast
  next
    case False
    with caller_can_move [OF inv] that show ?thesis by blast
  qed
  with inv show ?thesis by (auto simp: thread_inv_def)
qed

text \<open>
  C38.  Destroying a loop thread: before a thread was started the destructor dereferences a
  null pointer.  Afterwards it can hang: if \<^verbatim>\<open>quit()\<close> comes before the new thread has entered
  \<^verbatim>\<open>loop()\<close>, which clears the flag, then whatever happens next the thread never leaves its loop and the
  join never returns.  Once the loop has been entered the destructor can complete.
\<close>

theorem destructor_may_hang:
  "EventLoopThread_dtor EventLoopThread_ctor = Inl Bad_deref \<and>
   (\<forall>s lp. thread_loop s = Some lp \<longrightarrow>
     (\<exists>s0 s1. EventLoopThread_dtor s = Inr s0 \<and> exit_steps s0 s1 \<and> destroyer_at s1 = Joining \<and>
       (\<forall>t. exit_steps s1 t \<longrightarrow> destroyer_at t = Joining \<and> loop_at t = Turning)) \<and>
     (\<exists>s0 t. EventLoopThread_dtor s = Inr s0 \<and> exit_steps s0 t \<and> destroyer_at t = Joined))"
proof -
  let ?s0 = "\<lparr>exit_quit = False, loop_at = Enter, destroyer_at = Quitting\<rparr>"
  let ?q = "\<lparr>exit_quit = True, loop_at = Enter, destroyer_at = Joining\<rparr>"
  let ?h = "\<lparr>exit_quit = False, loop_at = Turning, destroyer_at = Joining\<rparr>"
  let ?e = "\<lparr>exit_quit = False, loop_at = Turning, destroyer_at = Quitting\<rparr>"
  have "exit_step ?s0 ?q" using exit_step.quit [of ?s0] by simp
  moreover have "exit_step ?q ?h" using exit_step.enter [of ?q] by simp
  ultimately have "exit_steps ?s0 ?h" by (meson rtranclp.rtrancl_into_rtrancl rtranclp.rtrancl_refl)
  moreover have "destroyer_at t = Joining \<and> loop_at t = Turning" if "exit_steps ?h t" for t
    using hung_forever [OF that] by (simp add: hung_def)
  moreover have "exit_step ?s0 ?e" using exit_step.enter [of ?s0] by simp
  then have "\<exists>t. exit_steps ?s0 t \<and> destroyer_at t = Joined"
    using quit_in_time [of ?e] by (auto intro: converse_rtranclp_into_rtranclp)
  ultimately show ?thesis
    by (auto simp: EventLoopThread_dtor_def EventLoopThread_ctor_def intro!: exI [of _ ?h])
qed

theorem destructor_may_hang_witness:
  "\<exists>s0 s1. EventLoopThread_dtor (EventLoopThread_ctor\<lparr>thread_loop := Some 9\<rparr>) = Inr s0 \<and> exit_steps s0 s1 \<and>
     (\<forall>t. exit_steps s1 t \<longrightarrow> destroyer_at t = Joining \<and> loop_at t = Turning)"
proof -
  have "thread_loop (EventLoopThread_ctor\<lparr>thread_loop := Some 9\<rparr>) = Some 9" by simp
  with destructor_may_hang show ?thesis by blast
qed

text \<open>
  C39.  \<^verbatim>\<open>EventLoopThreadPool::start\<close> cannot start a thread: with a positive number of threads it
  calls \<^verbatim>\<open>start_loop\<close> through the \<^verbatim>\<open>unique_ptr\<close> it has just moved from; with none it succeeds
  and every later \<^verbatim>\<open>get_next_loop\<close> returns the base loop.
\<close>

theorem pool_start_threads:
  assumes "\<not> pool_started p" and "pool_loops p = []"
  shows "pool_start il fresh loop_of (p, s) =
      (if 0 < num_threads p then Inl Bad_deref
       else Inr (p\<lparr>pool_started := True\<rparr>, assert_in_loop_thread il s)) \<and>
    get_next_loop il base (p, s) = Inr (base, p, assert_in_loop_thread il s)"
proof -
  have "fold_res (start_thread fresh loop_of) [0..<n] q = (if 0 < n then Inl Bad_deref else Inr q)" for n q
    by (cases n) (simp_all add: upt_conv_Cons start_thread_def move_ptr_def Let_def del: upt_Suc)
  with assms show ?thesis by (simp add: pool_start_def get_next_loop_def Let_def)
qed

text \<open>
  \<^verbatim>\<open>get_next_loop\<close> on a pool with loops hands them out in turn, starting at \<^verbatim>\<open>next_\<close>, and
  never indexes outside the vector.
\<close>

lemma get_next_loop_round_robin:
  assumes "next_loop p = int i" and "i < length (pool_loops p)"
  shows "\<exists>ps. next_loops n il base (p, s) =
    Inr (map (\<lambda>k. pool_loops p ! ((i + k) mod length (pool_loops p))) [0..<n], ps)"
  using assms by (intro next_loops_round_robin) auto

theorem start_loop_handshake_witness:
  "thread_reach 9 (EventLoopThread_ctor\<lparr>caller := Acquire, worker := Construct\<rparr>) \<and>
   (\<exists>t. thread_step 9 (EventLoopThread_ctor\<lparr>caller := Acquire, worker := Construct\<rparr>) t)"
proof -
  have "thread_step 9 EventLoopThread_ctor (EventLoopThread_ctor\<lparr>caller := Acquire, worker := Construct\<rparr>)"
    by (rule thread_step.spawn) (simp add: EventLoopThread_ctor_def)
  then have "thread_reach 9 (EventLoopThread_ctor\<lparr>caller := Acquire, worker := Construct\<rparr>)"
    by (rule thread_reach.step [OF thread_reach.init])
  moreover have "caller (EventLoopThread_ctor\<lparr>caller := Acquire, worker := Construct\<rparr>) \<noteq> Returned r" for r by simp
  ultimately show ?thesis using start_loop_handshake by blast
qed

theorem pool_start_threads_witness:
  "pool_start True (\<lambda>i. i) (\<lambda>x. x) (set_thread_num 2 EventLoopThreadPool_ctor, \<lparr>logs = [], clock_reads = 0\<rparr>) = Inl Bad_deref"
  using pool_start_threads [of "set_thread_num 2 EventLoopThreadPool_ctor" True "\<lambda>i. i" "\<lambda>x. x" "\<lparr>logs = [], clock_reads = 0\<rparr>"]
  by (simp add: set_thread_num_def EventLoopThreadPool_ctor_def)

lemma get_next_loop_round_robin_example:
  "\<exists>ps. next_loops 5 True 0 (EventLoopThreadPool_ctor\<lparr>pool_loops := [10, 20, 30]\<rparr>, \<lparr>logs = [], clock_reads = 0\<rparr>) =
     Inr ([10, 20, 30, 10, 20], ps)"
proof -
  have five: "[0..<5] = [0, 1, 2, 3, 4 :: nat]" by (simp add: upt_rec)
  show ?thesis
    using get_next_loop_round_robin [of "EventLoopThreadPool_ctor\<lparr>pool_loops := [10, 20, 30]\<rparr>" 0 5 True 0
        "\<lparr>logs = [], clock_reads = 0\<rparr>", unfolded five]
    by (simp add: EventLoopThreadPool_ctor_def)
qed

end
