(* ===== verification/Tcp_Server.thy ===== *)
theory Tcp_Server
  imports Acceptor Thread_Pool
begin

text \<open>
  The server (\<^verbatim>\<open>tcp/TcpServer.hpp\<close>, \<^verbatim>\<open>TcpServer.cpp\<close>): it owns an acceptor, a pool of loops and
  the map of its connections, makes a connection for every accepted descriptor and drops
  it when the connection closes.
\<close>

record 'u server = "'u acceptor" +
  server_name :: string
  server_pool :: pool
  server_connect_callback :: "'u option"
  server_message_callback :: "'u option"
  server_close_callback :: "'u option"
  server_write_callback :: "'u option"
  server_started :: bool
  next_conn_id :: int
  connections :: "string \<rightharpoonup> addr"

section \<open>Operations\<close>

definition TcpServer_ctor ::
  "os \<Rightarrow> addr \<Rightarrow> sockaddr_in \<Rightarrow> ('u, 'z) server_scheme \<Rightarrow> ('u, 'z) server_scheme res" where
  "TcpServer_ctor os cha listen_addr s =
     andthen (Acceptor_ctor os cha listen_addr s) (\<lambda>s1.
       Inr (set_new_connection_callback
         (s1\<lparr>server_name := to_host_port listen_addr, server_pool := EventLoopThreadPool_ctor,
             server_connect_callback := None, server_message_callback := None,
             server_close_callback := None, server_write_callback := None,
             server_started := False, next_conn_id := 1, connections := Map.empty\<rparr>)))"

definition server_set_connection_callback :: "'u option \<Rightarrow> ('u, 'z) server_scheme \<Rightarrow> ('u, 'z) server_scheme" where
  [simp]: "server_set_connection_callback cb x = x\<lparr>server_connect_callback := cb\<rparr>"

definition server_set_message_callback :: "'u option \<Rightarrow> ('u, 'z) server_scheme \<Rightarrow> ('u, 'z) server_scheme" where
  [simp]: "server_set_message_callback cb x = x\<lparr>server_message_callback := cb\<rparr>"

definition server_set_close_callback :: "'u option \<Rightarrow> ('u, 'z) server_scheme \<Rightarrow> ('u, 'z) server_scheme" where
  [simp]: "server_set_close_callback cb x = x\<lparr>server_close_callback := cb\<rparr>"

definition server_set_write_callback :: "'u option \<Rightarrow> ('u, 'z) server_scheme \<Rightarrow> ('u, 'z) server_scheme" where
  [simp]: "server_set_write_callback cb x = x\<lparr>server_write_callback := cb\<rparr>"

lemmas server_setters = server_set_connection_callback_def server_set_message_callback_def server_set_close_callback_def
  server_set_write_callback_def

definition server_set_thread_num :: "int \<Rightarrow> ('u, 'z) server_scheme \<Rightarrow> ('u, 'z) server_scheme" where
  "server_set_thread_num n s = s\<lparr>server_pool := set_thread_num n (server_pool s)\<rparr>"

text \<open>\<open>fresh\<close> and \<open>loop_of\<close> are the thread objects and loops the pool would make.\<close>

definition server_start ::
  "os \<Rightarrow> nat \<Rightarrow> (nat \<Rightarrow> addr) \<Rightarrow> (addr \<Rightarrow> addr) \<Rightarrow> ('u, 'z) server_scheme \<Rightarrow> ('u, 'z) server_scheme res" where
  "server_start os me fresh loop_of s =
     andthen
       (if \<not> server_started s then
          andthen (pool_start (is_in_loop_thread me s) fresh loop_of (server_pool s, s\<lparr>server_started := True\<rparr>))
            (\<lambda>(p, s1). Inr (s1\<lparr>server_pool := p\<rparr>))
        else Inr s)
       (\<lambda>s1. if \<not> listenning s1 then run_in_loop os me (Acceptor_listen os me) Acceptor_listen_functor s1 else Inr s1)"

text \<open>
  \<^verbatim>\<open>new_connection\<close>: \<open>a\<close> and \<open>cha\<close> are the addresses of the new connection and its channel.
  The name's number goes through a 32-byte buffer.
\<close>

definition conn_suffix :: "int \<Rightarrow> string" where
  "conn_suffix n = snprintf_buf 32 (''#'' @ dec_int n)"

definition new_connection ::
  "('u, ('u, 'z) server_scheme) app \<Rightarrow> os \<Rightarrow> nat \<Rightarrow> addr \<Rightarrow> addr \<Rightarrow> int \<Rightarrow> sockaddr_in \<Rightarrow>
   ('u, 'z) server_scheme \<Rightarrow> ('u, 'z) server_scheme res" where
  "new_connection app os me a cha sock_fd peer s =
     (let s0 = assert_in_loop_thread (is_in_loop_thread me s) s;
          conn_name = server_name s0 @ conn_suffix (next_conn_id s0);
          s1 = s0\<lparr>next_conn_id := next_conn_id s0 + 1\<rparr> in
      if next_conn_id s0 = INT_MAX then Inl Signed_overflow else
      case getLocalAddr os sock_fd s1 of (loc, s2) \<Rightarrow>
      andthen (get_next_loop (is_in_loop_thread me s2) this_loop (server_pool s2, s2)) (\<lambda>(io_loop, p, s3).
      andthen (TcpConnection_ctor io_loop a cha conn_name sock_fd loc peer (s3\<lparr>server_pool := p\<rparr>)) (\<lambda>s4.
      let s5 = s4\<lparr>connections := (connections s4)(conn_name \<mapsto> a)\<rparr> in
      andthen (modify_conn a (\<lambda>c.
          conn_set_write_callback (server_write_callback s5)
            (conn_set_close_callback (Some Server_remove_connection)
              (conn_set_message_callback (server_message_callback s5)
                (conn_set_connection_callback (server_connect_callback s5) c)))) s5)
        (connect_established app os me a))))"

definition remove_connection_in_loop ::
  "os \<Rightarrow> nat \<Rightarrow> addr \<Rightarrow> ('u, 'z) server_scheme \<Rightarrow> ('u, 'z) server_scheme res" where
  "remove_connection_in_loop os me a s =
     (let s0 = assert_in_loop_thread (is_in_loop_thread me s) s in
      andthen (conn_of a s0) (\<lambda>c.
      cpp_assert (connections s0 (conn_name c) \<noteq> None)
       (Inr (queue_in_loop os me (Conn_connect_destroyed a)
              (s0\<lparr>connections := (connections s0)(conn_name c := None)\<rparr>)))))"

definition remove_connection ::
  "os \<Rightarrow> nat \<Rightarrow> addr \<Rightarrow> ('u, 'z) server_scheme \<Rightarrow> ('u, 'z) server_scheme res" where
  "remove_connection os me a s =
     run_in_loop os me (remove_connection_in_loop os me a) (Server_remove_connection_in_loop a) s"

text \<open>The callbacks of a connection of this server: the application's, and the server's own on close.\<close>

definition server_app ::
  "os \<Rightarrow> nat \<Rightarrow> ('u, ('u, 'z) server_scheme) app \<Rightarrow> ('u, ('u, 'z) server_scheme) app" where
  "server_app os me user =
     user\<lparr>on_close := (\<lambda>act a s. case act of Server_remove_connection \<Rightarrow> remove_connection os me a s
                                  | _ \<Rightarrow> on_close user act a s)\<rparr>"

text \<open>
  What the closures of a server do when they are called.  \<open>user\<close> stands for the code of the
  application's own timers and functors, \<open>fresh\<close> for the addresses the next connection and its
  channel are put at.
\<close>

definition server_call ::
  "('u, ('u, 'z) server_scheme) app \<Rightarrow> os \<Rightarrow> nat \<Rightarrow>
   ('u closure \<Rightarrow> ('u, 'z) server_scheme \<Rightarrow> ('u, 'z) server_scheme res) \<Rightarrow>
   'u closure \<Rightarrow> ('u, 'z) server_scheme \<Rightarrow> ('u, 'z) server_scheme res" where
  "server_call app os me user =
     conn_call app os me
       (\<lambda>cl. case cl of
          Acceptor_listen_functor \<Rightarrow> Acceptor_listen os me
        | Server_remove_connection_in_loop a \<Rightarrow> remove_connection_in_loop os me a
        | _ \<Rightarrow> loop_closure os me user cl)"

definition server_call_read ::
  "('u, ('u, 'z) server_scheme) app \<Rightarrow> os \<Rightarrow> nat \<Rightarrow>
   ('u closure \<Rightarrow> ('u, 'z) server_scheme \<Rightarrow> ('u, 'z) server_scheme res) \<Rightarrow>
   (('u, 'z) server_scheme \<Rightarrow> addr \<times> addr) \<Rightarrow>
   'u closure \<Rightarrow> timestamp \<Rightarrow> ('u, 'z) server_scheme \<Rightarrow> ('u, 'z) server_scheme res" where
  "server_call_read app os me user fresh =
     conn_call_read app os me
       (\<lambda>cl t. case cl of
          Acceptor_handle_read_once \<Rightarrow>
            handle_read_once os me
              (\<lambda>fd peer s. new_connection app os me (fst (fresh s)) (snd (fresh s)) fd peer s)
        | _ \<Rightarrow> loop_closure_read os me user cl t)"

section \<open>Names\<close>

lemma server_assert [simp]:
  "connections (assert_in_loop_thread il s) = connections s" "server_pool (assert_in_loop_thread il s) = server_pool s"
  "server_name (assert_in_loop_thread il s) = server_name s" "next_conn_id (assert_in_loop_thread il s) = next_conn_id s"
  "server_connect_callback (assert_in_loop_thread il s) = server_connect_callback s"
  "server_message_callback (assert_in_loop_thread il s) = server_message_callback s"
  "server_write_callback (assert_in_loop_thread il s) = server_write_callback s"
  "conns (assert_in_loop_thread il s) = conns s"
  "pending_functors (assert_in_loop_thread il s) = pending_functors s"
  "accept_channel (assert_in_loop_thread il s) = accept_channel s"
  "new_connection_callback (assert_in_loop_thread il s) = new_connection_callback s"
  by (simp_all add: assert_in_loop_thread_def log_to_def)


lemma conn_suffix_inj:
  assumes "0 \<le> j" "j \<le> INT_MAX" "0 \<le> k" "k \<le> INT_MAX" "conn_suffix j = conn_suffix k"
  shows "j = k"
proof -
  have short: "length (dec (nat i)) \<le> 10" if "i \<le> INT_MAX" for i
    using that by (intro length_dec) (simp_all add: INT_MAX_def nat_less_iff)
  from assms short [of j] short [of k] have "dec (nat j) = dec (nat k)"
    by (simp add: conn_suffix_def snprintf_buf_def dec_int_def)
  with assms show ?thesis by (simp add: dec_inj)
qed

section \<open>Connections of a server\<close>

text \<open>The connections whose destruction is queued.\<close>

definition closing :: "('u, 'z) reactor_scheme \<Rightarrow> addr list" where
  "closing s = concat (map (\<lambda>f. case f of Conn_connect_destroyed a \<Rightarrow> [a] | _ \<Rightarrow> []) (pending_functors s))"

lemma closing_simps [simp]:
  "closing (put_conn a c s) = closing s" "closing (put_chan b x s) = closing s"
  "closing (assert_in_loop_thread il s) = closing s"
  by (simp_all add: closing_def put_conn_def put_chan_def assert_in_loop_thread_def log_to_def)

lemma closing_queue [simp]: "closing (queue_in_loop os me (Conn_connect_destroyed a) s) = closing s @ [a]"
  by (simp add: closing_def)

text \<open>
  An open connection of the server: established, with its channel registered and its
  callbacks and the server's set.
\<close>

definition open_conn :: "'u \<Rightarrow> ('u, 'z) net_scheme \<Rightarrow> addr \<Rightarrow> string \<Rightarrow> bool" where
  "open_conn cb s a n \<longleftrightarrow>
     (\<exists>c fd. conns s a = Some c \<and> conn_name c = n \<and> (conn_state c = Connected \<or> conn_state c = Disconnecting) \<and>
        connect_callback c = Some cb \<and> conn_close_callback c = Some Server_remove_connection \<and>
        bound s (conn_channel c) fd \<and> (\<exists>ch. chans s (conn_channel c) = Some ch \<and> conn_callbacks a ch))"

definition channel_of :: "('u, 'z) net_scheme \<Rightarrow> addr \<Rightarrow> addr option" where
  "channel_of s a = map_option conn_channel (conns s a)"

text \<open>
  The connections of a server, \<open>cl\<close> being those on the way out: the map holds open connections
  under their own names, those on the way out are still open and not in the map, no two
  share a channel, and the names in use carry numbers below the next one.
\<close>

definition conns_ok :: "'u \<Rightarrow> addr list \<Rightarrow> ('u, 'z) server_scheme \<Rightarrow> bool" where
  "conns_ok cb cl s \<longleftrightarrow>
     loop_inv s \<and> pool_loops (server_pool s) = [] \<and> server_connect_callback s = Some cb \<and>
     (\<forall>n a. connections s n = Some a \<longrightarrow> open_conn cb s a n \<and> a \<notin> set cl) \<and>
     (\<forall>a \<in> set cl. \<exists>n. open_conn cb s a n) \<and> distinct cl \<and>
     inj_on (channel_of s) (Map.ran (connections s) \<union> set cl) \<and>
     1 \<le> next_conn_id s \<and> next_conn_id s \<le> INT_MAX \<and>
     (\<forall>n \<in> dom (connections s). \<exists>k. 1 \<le> k \<and> k < next_conn_id s \<and> n = server_name s @ conn_suffix k)"

text \<open>The invariant of a server between two turns of its loop.\<close>

definition server_inv :: "'u \<Rightarrow> ('u, 'z) server_scheme \<Rightarrow> bool" where
  "server_inv cb s \<longleftrightarrow> conns_ok cb (closing s) s \<and> pending_functors s = map Conn_connect_destroyed (closing s)"

text \<open>The state of the server itself, without its connections and its loop.\<close>

definition same_server :: "('u, 'z) server_scheme \<Rightarrow> ('u, 'z) server_scheme \<Rightarrow> bool" where
  "same_server s t \<longleftrightarrow>
     connections t = connections s \<and> server_pool t = server_pool s \<and> server_name t = server_name s \<and>
     server_connect_callback t = server_connect_callback s \<and> next_conn_id t = next_conn_id s \<and>
     thread_id t = thread_id s \<and> pending_functors t = pending_functors s"

lemma same_server_trans: "same_server s t \<Longrightarrow> same_server t u \<Longrightarrow> same_server s u"
  by (simp add: same_server_def)

lemma same_server_loop: "same_loop s t \<Longrightarrow> same_server s t"
  using same_loopD [of s t] by (cases s; cases t) (simp add: same_server_def)

lemma same_server_simps [simp]:
  "same_server s (put_conn a c s)" "same_server s (put_chan b x s)" "same_server s (assert_in_loop_thread il s)"
  by (simp_all add: same_server_def put_conn_def put_chan_def assert_in_loop_thread_def log_to_def)

lemma same_server_calls: "calls_only s t \<Longrightarrow> same_server s t"
  by (auto simp: calls_only_def same_server_def)

lemma more_fields:
  fixes s t :: "('u, 'z) server_scheme"
  assumes "net.more t = net.more s"
  shows "connections t = connections s" "next_conn_id t = next_conn_id s" "server_name t = server_name s"
    "server_pool t = server_pool s" "server_connect_callback t = server_connect_callback s"
    "server_message_callback t = server_message_callback s" "accept_channel t = accept_channel s"
    "new_connection_callback t = new_connection_callback s" "server_write_callback t = server_write_callback s"
  using assms by (cases s; cases t; simp)+

text \<open>A connection callback that leaves the library's state alone.\<close>

definition quiet_callback :: "('u, ('u, 'z) server_scheme) app \<Rightarrow> 'u \<Rightarrow> bool" where
  "quiet_callback app cb \<longleftrightarrow>
     (\<forall>a s. \<exists>s'. on_connection app cb a s = Inr s' \<and> same_net s s' \<and> same_server s s')"

lemma quiet_callback_ok: "quiet_callback app cb \<Longrightarrow> callback_ok app cb a"
  unfolding quiet_callback_def callback_ok_def by blast

lemma quiet_callbackD: "quiet_callback app cb \<Longrightarrow> on_connection app cb a s = Inr s' \<Longrightarrow> same_server s s'"
  unfolding quiet_callback_def by (metis sum.inject(2))

section \<open>Operations keep the invariant\<close>

text \<open>What a server relies on in its channels: descriptor, loop and callbacks.\<close>

definition same_targets :: "('u, 'z) reactor_scheme \<Rightarrow> ('u, 'z) reactor_scheme \<Rightarrow> bool" where
  "same_targets s t \<longleftrightarrow>
     (\<forall>b ch. chans s b = Some ch \<longrightarrow>
        (\<exists>ch'. chans t b = Some ch' \<and> ch_fd ch' = ch_fd ch \<and> owner_loop ch' = owner_loop ch \<and>
           (\<forall>a. conn_callbacks a ch' = conn_callbacks a ch)))"

lemma same_targets_chans:
  assumes "same_chans s t"
  shows "same_targets s t"
  unfolding same_targets_def
proof (intro allI impI)
  fix b ch assume "chans s b = Some ch"
  from same_chansD [OF assms this] obtain y where "chans t b = Some y" "same_chan ch y" by blast
  then show "\<exists>ch'. chans t b = Some ch' \<and> ch_fd ch' = ch_fd ch \<and> owner_loop ch' = owner_loop ch \<and>
      (\<forall>a. conn_callbacks a ch' = conn_callbacks a ch)"
    using conn_callbacks_same [of ch y] by (intro exI [of _ y]) (simp add: same_chan_def)
qed

lemma open_conn_frame:
  assumes "open_conn cb s a n" and "conns t a = conns s a" and "same_targets s t"
    and "\<And>fd. registered s fd = channel_of s a \<Longrightarrow> registered t fd = registered s fd"
  shows "open_conn cb t a n"
proof -
  from assms(1) obtain c fd where c: "conns s a = Some c" "conn_name c = n" "conn_state c = Connected \<or> conn_state c = Disconnecting"
      "connect_callback c = Some cb" "conn_close_callback c = Some Server_remove_connection" "bound s (conn_channel c) fd"
    and ch: "\<exists>ch. chans s (conn_channel c) = Some ch \<and> conn_callbacks a ch"
    by (auto simp: open_conn_def)
  then have "registered t fd = Some (conn_channel c)" using assms(4) [of fd] by (auto simp: bound_def channel_of_def)
  moreover have "\<exists>ch. chans t (conn_channel c) = Some ch \<and> conn_callbacks a ch"
    using ch assms(3) unfolding same_targets_def by metis
  moreover have "bound t (conn_channel c) fd"
    using c(6) assms(3) calculation(1) unfolding bound_def same_targets_def by fastforce
  ultimately show ?thesis using c assms(2) by (auto simp: open_conn_def)
qed

text \<open>The state \<open>S\<close> in which \<^verbatim>\<open>new_connection\<close>, called in \<open>s\<close>, establishes the connection it made.\<close>

definition prepared ::
  "('u, 'z) server_scheme \<Rightarrow> addr \<Rightarrow> addr \<Rightarrow> int \<Rightarrow> 'u \<Rightarrow> ('u, 'z) server_scheme \<Rightarrow> 'u conn \<Rightarrow> 'u closure channel \<Rightarrow> bool" where
  "prepared s a cha fd cb S c ch \<longleftrightarrow> (let n = server_name s @ conn_suffix (next_conn_id s) in
    conn_new S a c ch \<and> connect_callback c = Some cb \<and> conn_close_callback c = Some Server_remove_connection \<and>
    conn_name c = n \<and> conn_channel c = cha \<and> ch_fd ch = fd \<and> conn_callbacks a ch \<and>
    conns S = (conns s)(a \<mapsto> c) \<and> loop_poller S = loop_poller s \<and> chans S = (chans s)(cha \<mapsto> ch) \<and>
    same_server (s\<lparr>connections := (connections s)(n \<mapsto> a), next_conn_id := next_conn_id s + 1\<rparr>) S \<and>
    message_callback c = server_message_callback s \<and> buf_inv (input_buffer c) \<and>
    server_message_callback S = server_message_callback s \<and> accept_channel S = accept_channel s \<and>
    new_connection_callback S = new_connection_callback s \<and> timers S = timers s \<and> timer_heap S = timer_heap s \<and>
    \<not> event_handling ch \<and> write_complete_callback c = server_write_callback s \<and> server_write_callback S = server_write_callback s)"

lemma preparedD:
  assumes "prepared s a cha fd cb S c ch"
  shows "conn_new S a c ch" "connect_callback c = Some cb" "conn_close_callback c = Some Server_remove_connection"
    "conn_name c = server_name s @ conn_suffix (next_conn_id s)" "conn_channel c = cha" "ch_fd ch = fd" "conn_callbacks a ch"
    "conns S = (conns s)(a \<mapsto> c)" "loop_poller S = loop_poller s" "chans S = (chans s)(cha \<mapsto> ch)"
    "same_server (s\<lparr>connections := (connections s)(server_name s @ conn_suffix (next_conn_id s) \<mapsto> a), next_conn_id := next_conn_id s + 1\<rparr>) S"
    "message_callback c = server_message_callback s" "buf_inv (input_buffer c)"
    "server_message_callback S = server_message_callback s" "accept_channel S = accept_channel s"
    "new_connection_callback S = new_connection_callback s" "timers S = timers s" "timer_heap S = timer_heap s"
    "\<not> event_handling ch" "write_complete_callback c = server_write_callback s" "server_write_callback S = server_write_callback s"
  using assms by (simp_all add: prepared_def Let_def)

lemma prepared_loop:
  assumes p: "prepared s a cha fd cb S c ch" and inv: "loop_inv s" and fresh: "chans s cha = None"
  shows "loop_inv S" "registered S = registered s" "same_chans s S" "registered s f \<noteq> Some cha"
proof -
  note P = preparedD(9,10) [OF p]
  have unreg: "registered s f \<noteq> Some cha" for f
    using inv fresh looppoll.reg_live [of "loop_poller s" s f cha] by (auto simp: loop_inv_def registered_def)
  then show "registered s f \<noteq> Some cha" .
  show "loop_inv S" using inv unreg P by (intro loop_inv_agree [of s S]) auto
  show "registered S = registered s" using P(1) by (simp add: registered_def)
  show "same_chans s S" using P(2) fresh by (auto simp: same_chans_def)
qed

lemma new_connection_eq:
  fixes s :: "('u, 'z) server_scheme"
  defines "n \<equiv> server_name s @ conn_suffix (next_conn_id s)"
  assumes "pool_loops (server_pool s) = []" and "next_conn_id s < INT_MAX" and "server_connect_callback s = Some cb"
    and "chans s cha = None"
  shows "\<exists>S c ch. new_connection app os me a cha fd peer s = connect_established app os me a S \<and> prepared s a cha fd cb S c ch"
proof -
  let ?s1 = "(assert_in_loop_thread (is_in_loop_thread me s) s)\<lparr>next_conn_id := next_conn_id s + 1\<rparr>"
  obtain loc s2 where s2: "getLocalAddr os fd ?s1 = (loc, s2)" by fastforce
  then have c2: "calls_only ?s1 s2" using socket_calls_only(3) [of ?s1 os fd] by simp
  let ?s3 = "(assert_in_loop_thread (is_in_loop_thread me s2) s2)\<lparr>server_pool := server_pool s\<rparr>"
  define c where "c = \<lparr>conn_name = n, conn_state = Connecting, conn_channel = cha, local_addr = loc, peer_addr = peer,
    connect_callback = Some cb, message_callback = server_message_callback s2, conn_close_callback = Some Server_remove_connection,
    write_complete_callback = server_write_callback s2, input_buffer = empty_buffer, output_buffer = empty_buffer\<rparr>"
  define ch :: "'u closure channel" where "ch = (Channel_ctor this_loop fd)
    \<lparr>read_callback := Some (Conn_handle_read a), write_callback := Some (Conn_handle_write a),
     error_callback := Some (Conn_handle_error a), close_callback := Some (Conn_handle_close a)\<rparr>"
  let ?S = "put_conn a c ((put_chan cha ch ?s3)\<lparr>connections := (connections s)(n \<mapsto> a)\<rparr>)"
  have fields: "server_pool s2 = server_pool s" "connections s2 = connections s" "server_connect_callback s2 = Some cb"
      "conns s2 = conns s" "loop_poller s2 = loop_poller s" "chans s2 = chans s" "next_conn_id s2 = next_conn_id s + 1"
      "server_name s2 = server_name s" "thread_id s2 = thread_id s" "pending_functors s2 = pending_functors s"
      "server_message_callback s2 = server_message_callback s" "accept_channel s2 = accept_channel s"
      "new_connection_callback s2 = new_connection_callback s" "timers s2 = timers s" "timer_heap s2 = timer_heap s"
      "server_write_callback s2 = server_write_callback s"
    using c2 assms(4) by (auto simp: calls_only_def)
  have ctor: "TcpConnection_ctor this_loop a cha n fd loc peer ?s3 = Inr (put_conn a
      (c\<lparr>connect_callback := None, message_callback := None, conn_close_callback := None, write_complete_callback := None\<rparr>)
      (put_chan cha ch ?s3))"
    by (simp add: TcpConnection_ctor_def Buffer_ctor_eq c_def ch_def)
  have "get_next_loop (is_in_loop_thread me s2) this_loop (server_pool s2, s2) =
      Inr (this_loop, server_pool s, assert_in_loop_thread (is_in_loop_thread me s2) s2)"
    using fields assms(2) by (simp add: get_next_loop_def Let_def)
  then have "new_connection app os me a cha fd peer s = connect_established app os me a ?S"
    using s2 assms(3) fields ctor
    by (simp add: new_connection_def Let_def n_def [symmetric] modify_conn_def conn_of_def)
       (simp add: put_conn_def put_chan_def c_def)
  moreover have "conn_new ?S a c ch"
    by (simp add: conn_new_def c_def ch_def Channel_ctor_def empty_buffer_inv empty_buffer_content put_conn_def put_chan_def)
  moreover have "same_server (s\<lparr>connections := (connections s)(n \<mapsto> a), next_conn_id := next_conn_id s + 1\<rparr>) ?S"
    using fields assms(4) by (simp add: same_server_def put_conn_def put_chan_def assert_in_loop_thread_def log_to_def)
  ultimately show ?thesis
    unfolding prepared_def Let_def n_def [symmetric]
    using fields by (intro exI [of _ ?S] exI [of _ c] exI [of _ ch])
      (simp add: c_def ch_def Channel_ctor_def put_conn_def put_chan_def assert_in_loop_thread_def log_to_def conn_callbacks_def
        empty_buffer_inv)
qed

text \<open>The invariant as a whole, for an operation that keeps the server's own state.\<close>

lemma conns_okI:
  assumes ok: "conns_ok cb cl s" and inv: "loop_inv t"
    and srv: "connections t = m" "next_conn_id t = k" "server_name t = server_name s" "server_pool t = server_pool s"
      "server_connect_callback t = server_connect_callback s"
    and dist: "distinct cl'" and k: "next_conn_id s \<le> k" "k \<le> INT_MAX"
    and opens: "\<And>n a. m n = Some a \<Longrightarrow> open_conn cb t a n \<and> a \<notin> set cl'" "\<And>a. a \<in> set cl' \<Longrightarrow> \<exists>n. open_conn cb t a n"
    and chans: "inj_on (channel_of t) (Map.ran m \<union> set cl')"
    and names: "\<And>n a. m n = Some a \<Longrightarrow> n \<in> dom (connections s) \<or> next_conn_id s < k \<and> n = server_name s @ conn_suffix (next_conn_id s)"
  shows "conns_ok cb cl' t"
proof -
  have "\<exists>j. 1 \<le> j \<and> j < k \<and> n = server_name s @ conn_suffix j" if "n \<in> dom m" for n
  proof -
    from that names consider "n \<in> dom (connections s)" | "next_conn_id s < k" "n = server_name s @ conn_suffix (next_conn_id s)" by blast
    then show ?thesis
    proof cases
      case 1
      then obtain j where "1 \<le> j" "j < next_conn_id s" "n = server_name s @ conn_suffix j"
        using ok unfolding conns_ok_def by blast
      then show ?thesis using k(1) by (intro exI [of _ j]) simp
    next
      case 2
      then show ?thesis using ok by (intro exI [of _ "next_conn_id s"]) (simp add: conns_ok_def)
    qed
  qed
  moreover have "1 \<le> k" "pool_loops (server_pool s) = []" "server_connect_callback s = Some cb"
    using ok k(1) by (simp_all add: conns_ok_def)
  ultimately show ?thesis unfolding conns_ok_def using srv inv dist k(2) opens chans by simp
qed

lemma conns_ok_name_free:
  assumes ok: "conns_ok cb cl s" and id: "next_conn_id s < INT_MAX"
  shows "connections s (server_name s @ conn_suffix (next_conn_id s)) = None"
proof (rule ccontr)
  assume "connections s (server_name s @ conn_suffix (next_conn_id s)) \<noteq> None"
  then obtain k where "1 \<le> k" "k < next_conn_id s" "server_name s @ conn_suffix (next_conn_id s) = server_name s @ conn_suffix k"
    using ok unfolding conns_ok_def by blast
  then show False using conn_suffix_inj [of k "next_conn_id s"] id by simp
qed

text \<open>A new open connection on a channel and a descriptor of its own.\<close>

lemma conns_ok_insert:
  defines "n s \<equiv> server_name s @ conn_suffix (next_conn_id s)"
  assumes ok: "conns_ok cb cl s" and id: "next_conn_id s < INT_MAX" and fresh: "conns s a = None" "registered s fd = None"
    and inv: "loop_inv t" and sc: "same_chans s t" and unreg: "\<And>f. registered s f \<noteq> Some cha"
    and srv: "same_server (s\<lparr>connections := (connections s)(n s \<mapsto> a), next_conn_id := next_conn_id s + 1\<rparr>) t"
    and reg: "registered t = (registered s)(fd \<mapsto> cha)" and conns: "conns t = (conns s)(a \<mapsto> c)" "conn_channel c = cha"
    and new: "open_conn cb t a (n s)"
  shows "conns_ok cb cl t"
proof (rule conns_okI [OF ok])
  have free: "connections s (n s) = None" unfolding n_def by (rule conns_ok_name_free [OF ok id])
  have keep: "open_conn cb t b m" if "open_conn cb s b m" for b m
  proof (rule open_conn_frame [OF that _ same_targets_chans [OF sc]])
    show "conns t b = conns s b" using that fresh(1) conns(1) by (auto simp: open_conn_def)
    show "registered t f = registered s f" if "registered s f = channel_of s b" for f
      using that \<open>open_conn cb s b m\<close> fresh(2) reg by (auto simp: open_conn_def channel_of_def)
  qed
  have used: "b \<noteq> a \<and> channel_of t b = channel_of s b \<and> channel_of s b \<noteq> Some cha" if "open_conn cb s b m" for b m
    using that fresh(1) conns(1) unreg by (auto simp: open_conn_def channel_of_def bound_def)
  have old: "\<exists>m. open_conn cb s b m" if "b \<in> Map.ran (connections s) \<union> set cl" for b
    using that ok by (auto simp: conns_ok_def Map.ran_def)
  show "\<exists>m. open_conn cb t b m" if "b \<in> set cl" for b
    using that keep ok unfolding conns_ok_def by blast
  show "inj_on (channel_of t) (Map.ran ((connections s)(n s \<mapsto> a)) \<union> set cl)"
  proof -
    have cha: "channel_of t a = Some cha" using conns by (simp add: channel_of_def)
    have "inj_on (channel_of t) (Map.ran (connections s) \<union> set cl)"
      using ok used old unfolding conns_ok_def inj_on_def by metis
    moreover have "channel_of t b \<noteq> channel_of t a" if "b \<in> Map.ran (connections s) \<union> set cl" for b
      using used old [OF that] cha by metis
    then have "channel_of t a \<notin> channel_of t ` (Map.ran (connections s) \<union> set cl - {a})" by fastforce
    ultimately show ?thesis by (simp add: ran_map_upd [of "connections s" "n s", OF free])
  qed
  show "open_conn cb t b m \<and> b \<notin> set cl" if "((connections s)(n s \<mapsto> a)) m = Some b" for m b
    using that new keep ok used old by (auto simp: conns_ok_def split: if_splits) blast
qed (use ok id inv srv n_def in \<open>auto simp: conns_ok_def same_server_def split: if_splits\<close>)

lemma new_connection_ok:
  fixes s :: "('u, 'z) server_scheme"
  defines "n \<equiv> server_name s @ conn_suffix (next_conn_id s)"
  assumes ok: "conns_ok cb cl s" and q: "quiet_callback app cb" and id: "next_conn_id s < INT_MAX"
    and fresh: "chans s cha = None" "conns s a = None" and fd: "0 \<le> fd" "registered s fd = None"
  shows "\<exists>t c. new_connection app os me a cha fd peer s = Inr t \<and> conns_ok cb cl t \<and> connections s n = None \<and>
    same_server (s\<lparr>connections := (connections s)(n \<mapsto> a), next_conn_id := next_conn_id s + 1\<rparr>) t \<and>
    registered t = (registered s)(fd \<mapsto> cha) \<and> conns t = (conns s)(a \<mapsto> c) \<and> conn_state c = Connected \<and>
    same_chans s t"
proof -
  let ?s = "s\<lparr>connections := (connections s)(n \<mapsto> a), next_conn_id := next_conn_id s + 1\<rparr>"
  have pool: "pool_loops (server_pool s) = []" "server_connect_callback s = Some cb" "loop_inv s"
    using ok by (simp_all add: conns_ok_def)
  from new_connection_eq [OF pool(1) id pool(2) fresh(1), of app os me a fd peer] obtain S c ch where
    run: "new_connection app os me a cha fd peer s = connect_established app os me a S" and p: "prepared s a cha fd cb S c ch" by blast
  note S = preparedD [OF p, folded n_def] and L = prepared_loop [OF p pool(3) fresh(1)]
  from connect_established_ok [of S a c ch cb app os me] L(1,2) S fd quiet_callback_ok [OF q] obtain t s1 ch' where
    t: "connect_established app os me a S = Inr t" "conn_live t a (c\<lparr>conn_state := Connected\<rparr>) ch'" "ch_fd ch' = fd"
      "registered t = (registered s)(fd \<mapsto> cha)" "same_chans S t" "conns t = (conns S)(a \<mapsto> c\<lparr>conn_state := Connected\<rparr>)"
      "same_loop (put_conn a (c\<lparr>conn_state := Connected\<rparr>) (assert_in_loop_thread (is_in_loop_thread me S) S)) s1"
      "on_connection app cb a s1 = Inr t" by auto
  have "same_server S t"
    using same_server_loop [OF t(7)] quiet_callbackD [OF q t(8)] by (simp add: same_server_def put_conn_def)
  then have srv: "same_server ?s t" using S(11) same_server_trans by blast
  have sc: "same_chans s t" using L(3) t(5) same_chans_trans by blast
  have "\<exists>x. chans t cha = Some x \<and> conn_callbacks a x"
    using same_chansD [OF t(5), of cha ch] S(7,10) by (auto simp: conn_callbacks_same)
  then have new: "open_conn cb t a n"
    using conn_live_bound [OF t(2)] t(2) S(2-5) unfolding open_conn_def
    by (intro exI [of _ "c\<lparr>conn_state := Connected\<rparr>"] exI [of _ "ch_fd ch'"]) (auto simp: conn_live_def)
  have inv: "loop_inv t" and conns: "conns t = (conns s)(a \<mapsto> c\<lparr>conn_state := Connected\<rparr>)"
    using t(2,6) S(8) by (simp_all add: conn_live_def)
  have "conns_ok cb cl t"
    by (rule conns_ok_insert [OF ok id fresh(2) fd(2) inv sc L(4) srv [unfolded n_def] t(4) conns _ new [unfolded n_def]]) (simp add: S(5))
  with run t(1,4) conns_ok_name_free [OF ok id, folded n_def] srv conns sc show ?thesis
    by (intro exI [of _ t] exI [of _ "c\<lparr>conn_state := Connected\<rparr>"]) simp
qed

lemma hangup_ok:
  assumes ok: "conns_ok cb cl s" and a: "connections s n = Some a" and me: "thread_id s = me"
  shows "\<exists>t. conn_handle_close (server_app os me user) os me a s = Inr t \<and> conns_ok cb (cl @ [a]) t \<and>
    connections t = (connections s)(n := None) \<and> pending_functors t = pending_functors s @ [Conn_connect_destroyed a] \<and>
    conns t = conns s \<and> registered t = registered s \<and> thread_id t = me \<and> same_chans s t"
proof -
  from ok a have "open_conn cb s a n" "a \<notin> set cl" by (auto simp: conns_ok_def)
  then obtain c fd where c: "conns s a = Some c" "conn_name c = n" "conn_state c = Connected \<or> conn_state c = Disconnecting"
      "conn_close_callback c = Some Server_remove_connection" "bound s (conn_channel c) fd"
    by (auto simp: open_conn_def)
  have inv: "loop_inv s" using ok by (simp add: conns_ok_def)
  from conn_handle_close_ok [OF inv c(1,5,3,4), of "server_app os me user" os me] obtain s1 where
    s1: "conn_handle_close (server_app os me user) os me a s = on_close (server_app os me user) Server_remove_connection a s1"
      "loop_inv s1" "registered s1 = registered s" "same_chans s s1"
      "same_loop (assert_in_loop_thread (is_in_loop_thread me s) s) s1" by blast
  have srv: "same_server s s1" using same_server_loop [OF s1(5)] by (simp add: same_server_def)
  have conns: "conns s1 = conns s" using conns_more [OF same_loopD(1) [OF s1(5)]] by simp
  let ?t = "queue_in_loop os me (Conn_connect_destroyed a) (s1\<lparr>connections := (connections s)(n := None)\<rparr>)"
  have t: "conn_handle_close (server_app os me user) os me a s = Inr ?t"
    using s1(1) srv a c conns me
    by (simp add: server_app_def remove_connection_def run_in_loop_def is_in_loop_thread_def same_server_def
        remove_connection_in_loop_def Let_def conn_of_def assert_in_loop_thread_def)
  have frame: "conns ?t = conns s" "registered ?t = registered s" "thread_id ?t = me" "loop_inv ?t" "same_chans s ?t"
      "connections ?t = (connections s)(n := None)" "server_pool ?t = server_pool s" "server_name ?t = server_name s"
      "server_connect_callback ?t = server_connect_callback s" "next_conn_id ?t = next_conn_id s"
      "pending_functors ?t = pending_functors s @ [Conn_connect_destroyed a]"
    using conns s1(2-4) srv me impl_inv_cong [of ?t s1]
    by (simp_all add: same_server_def registered_def same_chans_def loop_inv_def queue_in_loop_def Let_def
        wakeup_def issue_def log_to_def)
  have keep: "open_conn cb ?t b m" if "open_conn cb s b m" for b m
    using open_conn_frame [OF that _ same_targets_chans [OF frame(5)]] frame(1,2) by simp
  have chan: "channel_of ?t = channel_of s" using frame(1) by (simp add: channel_of_def fun_eq_iff)
  have dom: "Map.ran ((connections s)(n := None)) \<union> set (cl @ [a]) = Map.ran (connections s) \<union> set cl"
    using a by (auto simp: Map.ran_def) (metis option.inject)
  have other: "b \<noteq> a" if "connections s m = Some b" "m \<noteq> n" for m b
    using that a c(1,2) ok by (fastforce simp: conns_ok_def open_conn_def)
  have "conns_ok cb (cl @ [a]) ?t"
  proof (rule conns_okI [OF ok frame(4,6,10,8,7,9)])
    show "inj_on (channel_of ?t) (Map.ran ((connections s)(n := None)) \<union> set (cl @ [a]))"
      using ok chan dom by (simp add: conns_ok_def)
    show "open_conn cb ?t b m \<and> b \<notin> set (cl @ [a])" if "((connections s)(n := None)) m = Some b" for m b
      using that ok keep other by (auto simp: conns_ok_def split: if_splits)
    show "\<exists>m. open_conn cb ?t b m" if "b \<in> set (cl @ [a])" for b
    proof -
      have "\<exists>m. open_conn cb s b m" using that ok \<open>open_conn cb s a n\<close> by (auto simp: conns_ok_def)
      then show ?thesis using keep by blast
    qed
  qed (use ok \<open>a \<notin> set cl\<close> in \<open>auto simp: conns_ok_def split: if_splits\<close>)
  with t frame show ?thesis by blast
qed

lemma destroy_ok:
  assumes ok: "conns_ok cb (a # cl) s" and q: "quiet_callback app cb"
  shows "\<exists>t c. connect_destroyed app os me a s = Inr t \<and> conns_ok cb cl t \<and> same_server s t \<and>
    conns t = (conns s)(a \<mapsto> c) \<and> conn_state c = Disconnected \<and> (\<forall>f. registered t f \<noteq> Some (conn_channel c)) \<and>
    (\<forall>f. registered s f \<noteq> Some (conn_channel c) \<longrightarrow> registered t f = registered s f)"
proof -
  from ok obtain n where "open_conn cb s a n" by (auto simp: conns_ok_def)
  then obtain c fd where c: "conns s a = Some c" "conn_state c = Connected \<or> conn_state c = Disconnecting"
      "connect_callback c = Some cb" "bound s (conn_channel c) fd"
    by (auto simp: open_conn_def)
  have inv: "loop_inv s" using ok by (simp add: conns_ok_def)
  from connect_destroyed_ok [OF inv c(1,4,2,3) quiet_callback_ok [OF q], of os me] obtain t s1 s2 where
    t: "connect_destroyed app os me a s = Inr t" "loop_inv t" "conns t = (conns s)(a \<mapsto> c\<lparr>conn_state := Disconnected\<rparr>)"
      "registered t = (registered s)(fd := None)" "same_chans s t"
      "same_loop (put_conn a (c\<lparr>conn_state := Disconnected\<rparr>) (assert_in_loop_thread (is_in_loop_thread me s) s)) s1"
      "on_connection app cb a s1 = Inr s2" "same_loop s2 t" by blast
  have srv: "same_server s t"
    using same_server_loop [OF t(6)] quiet_callbackD [OF q t(7)] same_server_loop [OF t(8)]
    by (simp add: same_server_def put_conn_def)
  have fd: "f = fd" if "registered s f = Some (conn_channel c)" for f
    using that c(4) inv looppoll.reg_live [of "loop_poller s" s _ "conn_channel c"]
    by (auto simp: bound_def registered_def loop_inv_def)
  have a: "channel_of s a = Some (conn_channel c)" using c(1) by (simp add: channel_of_def)
  have keep: "open_conn cb t b m" if "open_conn cb s b m" "b \<in> Map.ran (connections s) \<union> set cl" "b \<noteq> a" for b m
  proof (rule open_conn_frame [OF that(1) _ same_targets_chans [OF t(5)]])
    show "conns t b = conns s b" using that(3) t(3) by simp
    have "channel_of s b \<noteq> channel_of s a" using that(2,3) ok unfolding conns_ok_def inj_on_def by auto
    then show "registered t f = registered s f" if "registered s f = channel_of s b" for f
      using that c(4) a t(4) by (auto simp: bound_def)
  qed
  have "conns_ok cb cl t"
  proof (rule conns_okI [OF ok t(2)])
    have "a \<notin> Map.ran (connections s) \<union> set cl" using ok by (auto simp: conns_ok_def Map.ran_def)
    then have "channel_of t b = channel_of s b" if "b \<in> Map.ran (connections s) \<union> set cl" for b
      using that t(3) by (auto simp: channel_of_def)
    then show "inj_on (channel_of t) (Map.ran (connections s) \<union> set cl)"
      using ok unfolding conns_ok_def inj_on_def by auto
    show "open_conn cb t b m \<and> b \<notin> set cl" if "connections s m = Some b" for m b
      using that ok keep [of b m] by (auto simp: conns_ok_def Map.ran_def)
    show "\<exists>m. open_conn cb t b m" if "b \<in> set cl" for b
      using that ok keep [of b] by (auto simp: conns_ok_def) blast
  qed (use ok srv in \<open>auto simp: conns_ok_def same_server_def\<close>)
  with t srv fd c(4) show ?thesis by (intro exI [of _ t] exI [of _ "c\<lparr>conn_state := Disconnected\<rparr>"]) (auto simp: bound_def)
qed

lemma server_call_destroyed [simp]:
  "server_call app os me user (Conn_connect_destroyed a) = connect_destroyed app os me a"
  by (simp add: server_call_def conn_call_def)

lemma destroy_all_ok:
  assumes "conns_ok cb cl s" and "quiet_callback app cb"
  shows "\<exists>t. fold_res (server_call app os me user) (map Conn_connect_destroyed cl) s = Inr t \<and> conns_ok cb [] t \<and>
    same_server s t \<and> (\<forall>a \<in> set cl. \<exists>c. conns t a = Some c \<and> conn_state c = Disconnected) \<and>
    (\<forall>a. a \<notin> set cl \<longrightarrow> conns t a = conns s a)"
  using assms(1)
proof (induction cl arbitrary: s)
  case Nil
  then show ?case by (simp add: same_server_def)
next
  case (Cons a cl)
  from destroy_ok [OF Cons.prems assms(2), of os me] obtain t c where
    t: "connect_destroyed app os me a s = Inr t" "conns_ok cb cl t" "same_server s t" "conns t = (conns s)(a \<mapsto> c)"
      "conn_state c = Disconnected" by blast
  from Cons.IH [OF t(2)] obtain u where
    u: "fold_res (server_call app os me user) (map Conn_connect_destroyed cl) t = Inr u" "conns_ok cb [] u" "same_server t u"
      "\<forall>a \<in> set cl. \<exists>c. conns u a = Some c \<and> conn_state c = Disconnected" "\<forall>a. a \<notin> set cl \<longrightarrow> conns u a = conns t a" by blast
  have "a \<notin> set cl" using Cons.prems by (simp add: conns_ok_def)
  then show ?case using t u same_server_trans [OF t(3) u(3)]
    by (intro exI [of _ u]) simp
qed

lemma channel_of_flags [simp]:
  "channel_of (s\<lparr>calling_pending_functors := x\<rparr>) = channel_of s" "channel_of (s\<lparr>pending_functors := fs\<rparr>) = channel_of s"
  by (simp_all add: channel_of_def fun_eq_iff)

lemma conns_ok_flags [simp]:
  "conns_ok cb cl (s\<lparr>calling_pending_functors := x\<rparr>) = conns_ok cb cl s"
  "conns_ok cb cl (s\<lparr>pending_functors := fs\<rparr>) = conns_ok cb cl s"
  using impl_inv_cong [of "s\<lparr>calling_pending_functors := x\<rparr>" s] impl_inv_cong [of "s\<lparr>pending_functors := fs\<rparr>" s]
  by (simp_all add: conns_ok_def loop_inv_def open_conn_def bound_def registered_def)

lemma functors_ok:
  assumes "server_inv cb s" and "quiet_callback app cb"
  shows "\<exists>t. do_pending_functors (server_call app os me user) s = Inr t \<and> server_inv cb t \<and> pending_functors t = [] \<and>
    connections t = connections s \<and> next_conn_id t = next_conn_id s \<and> thread_id t = thread_id s \<and>
    (\<forall>a \<in> set (closing s). \<exists>c. conns t a = Some c \<and> conn_state c = Disconnected) \<and>
    (\<forall>a. a \<notin> set (closing s) \<longrightarrow> conns t a = conns s a)"
proof -
  let ?s = "s\<lparr>calling_pending_functors := True, pending_functors := []\<rparr>"
  have "conns_ok cb (closing s) ?s" and p: "pending_functors s = map Conn_connect_destroyed (closing s)"
    using assms(1) by (simp_all add: server_inv_def)
  from destroy_all_ok [OF this(1) assms(2), of os me user] obtain t where
    t: "fold_res (server_call app os me user) (map Conn_connect_destroyed (closing s)) ?s = Inr t" "conns_ok cb [] t"
      "same_server ?s t" "\<forall>a \<in> set (closing s). \<exists>c. conns t a = Some c \<and> conn_state c = Disconnected"
      "\<forall>a. a \<notin> set (closing s) \<longrightarrow> conns t a = conns ?s a" by blast
  have "server_inv cb (t\<lparr>calling_pending_functors := False\<rparr>)"
    using t(2,3) by (simp add: server_inv_def same_server_def closing_def)
  then show ?thesis using t p
    by (intro exI [of _ "t\<lparr>calling_pending_functors := False\<rparr>"])
       (simp add: do_pending_functors_def Let_def same_server_def)
qed

lemma quiet_server_app: "quiet_callback app cb \<Longrightarrow> quiet_callback (server_app os me app) cb"
  by (simp add: quiet_callback_def server_app_def)

section \<open>Setting a server up\<close>

lemma TcpServer_ctor_ok:
  fixes s :: "('u, 'z) server_scheme"
  defines "k \<equiv> length (syscalls s)"
  assumes inv: "loop_inv s" and fresh: "chans s cha = None" and opened: "0 \<le> os_ret os (k + 1)" "0 \<le> os_ret os k"
  shows "\<exists>t ch. TcpServer_ctor os cha addr s = Inr t \<and> loop_inv t \<and> registered t = registered s \<and> thread_id t = thread_id s \<and>
    pending_functors t = pending_functors s \<and> chans t cha = Some ch \<and> ch_fd ch = os_ret os k \<and> ch_index ch = -1 \<and>
    owner_loop ch = this_loop \<and> accept_channel t = cha \<and> server_pool t = EventLoopThreadPool_ctor \<and>
    \<not> server_started t \<and> \<not> listenning t \<and> next_conn_id t = 1 \<and> connections t = Map.empty \<and>
    ch = (Channel_ctor this_loop (os_ret os k))\<lparr>read_callback := Some Acceptor_handle_read_once\<rparr> \<and>
    chans t = (chans s)(cha \<mapsto> ch) \<and> conns t = conns s \<and> new_connection_callback t \<and> timers t = timers s"
proof -
  have unreg: "registered s f \<noteq> Some cha" for f
    using inv fresh looppoll.reg_live [of "loop_poller s" s f cha] by (auto simp: loop_inv_def registered_def)
  let ?fd = "os_ret os k" and ?ch = "Channel_ctor this_loop (os_ret os k)"
  let ?s2 = "(put_chan cha ?ch (s\<lparr>syscalls := syscalls s @ [Sys_socket]\<rparr>))\<lparr>syscalls := syscalls s @ [Sys_socket, Sys_open_null]\<rparr>"
  let ?s3 = "?s2\<lparr>accept_fd := ?fd, accept_channel := cha, new_connection_callback := False, listenning := False,
      idle_fd := os_ret os (k + 1)\<rparr>"
  define s4 where "s4 = bind_address os ?fd addr (set_reuse_addr os ?fd True ?s3)"
  have s4: "calls_only ?s3 s4"
    unfolding s4_def bind_address_def set_reuse_addr_def
    by (rule calls_only_trans [OF calls_only_issue socket_calls_only(7)])
  define t where "t = set_new_connection_callback
    ((put_chan cha (?ch\<lparr>read_callback := Some Acceptor_handle_read_once\<rparr>) s4)
       \<lparr>server_name := to_host_port addr, server_pool := EventLoopThreadPool_ctor,
        server_connect_callback := None, server_message_callback := None, server_close_callback := None,
        server_write_callback := None, server_started := False, next_conn_id := 1, connections := Map.empty\<rparr>)"
  have "deref cha s4 = Inr ?ch" using s4 by (auto simp: calls_only_def deref_def put_chan_def)
  then have "TcpServer_ctor os cha addr s = Inr t"
    using opened by (simp add: TcpServer_ctor_def Acceptor_ctor_def createNonblockingOrDie_def issue_def k_def Let_def
        modify_chan_def s4_def t_def put_chan_def)
  moreover have t: "accept_channel t = cha" "loop_poller t = loop_poller s" "thread_id t = thread_id s"
      "pending_functors t = pending_functors s"
      "chans t = (chans s)(cha \<mapsto> ?ch\<lparr>read_callback := Some Acceptor_handle_read_once\<rparr>)"
      "server_pool t = EventLoopThreadPool_ctor" "\<not> server_started t" "\<not> listenning t"
      "next_conn_id t = 1" "connections t = Map.empty" "conns t = conns s" "new_connection_callback t" "timers t = timers s"
    using s4 by (auto simp: t_def set_new_connection_callback_def put_chan_def calls_only_def)
  moreover have "loop_inv t" using unreg t(2,5) by (intro loop_inv_agree [OF inv]) auto
  ultimately show ?thesis by (auto simp: registered_def Channel_ctor_def)
qed

lemma server_start_ok:
  fixes s :: "('u, 'z) server_scheme"
  assumes inv: "loop_inv s" "thread_id s = me" "pending_functors s = []"
    and ch: "chans s (accept_channel s) = Some ch" "ch_index ch = -1" "owner_loop ch = this_loop" "0 \<le> ch_fd ch"
      "registered s (ch_fd ch) = None"
    and srv: "server_pool s = EventLoopThreadPool_ctor" "\<not> server_started s" "\<not> listenning s" "next_conn_id s = 1"
      "connections s = Map.empty" "server_connect_callback s = Some cb"
  shows "\<exists>t. server_start os me fresh loop_of s = Inr t \<and> server_inv cb t \<and> thread_id t = me \<and> connections t = Map.empty \<and>
    registered t = (registered s)(ch_fd ch \<mapsto> accept_channel s) \<and> next_conn_id t = 1 \<and>
    same_chans s t \<and> conns t = conns s \<and> accept_channel t = accept_channel s \<and>
    new_connection_callback t = new_connection_callback s \<and> server_message_callback t = server_message_callback s \<and>
    timers t = timers s \<and> server_write_callback t = server_write_callback s"
proof -
  let ?p = "EventLoopThreadPool_ctor\<lparr>pool_started := True\<rparr>"
  let ?s1 = "s\<lparr>server_started := True, server_pool := ?p\<rparr>"
  have "pool_start (is_in_loop_thread me s) fresh loop_of (server_pool s, s\<lparr>server_started := True\<rparr>) = Inr (?p, s\<lparr>server_started := True\<rparr>)"
    using srv(1) inv(2) by (simp add: pool_start_def EventLoopThreadPool_ctor_def is_in_loop_thread_def assert_in_loop_thread_def)
  then have start: "server_start os me fresh loop_of s = Acceptor_listen os me ?s1"
    using srv(2,3) inv(2) by (simp add: server_start_def run_in_loop_def is_in_loop_thread_def)
  define s2 where "s2 = Socket_listen os (accept_fd s) (?s1\<lparr>listenning := True\<rparr>)"
  have s2: "calls_only (?s1\<lparr>listenning := True\<rparr>) s2"
    using socket_calls_only(8) by (simp add: s2_def Socket_listen_def)
  have "loop_inv s2" by (rule loop_inv_agree [OF inv(1)]) (use calls_onlyD(1,2) [OF s2] in simp_all)
  moreover have reg: "registered s2 = registered s" using calls_onlyD(2) [OF s2] by (simp add: registered_def)
  moreover have "chans s2 (accept_channel s) = Some ch" using calls_onlyD(1) [OF s2] ch(1) by simp
  ultimately obtain t where t: "channel_change os me Enable_reading (accept_channel s) s2 = Inr t" "loop_inv t"
      "registered t = (registered s)(ch_fd ch \<mapsto> accept_channel s)"
      "same_but_poller (put_chan (accept_channel s) (ch\<lparr>ch_events := change_events Enable_reading (ch_events ch)\<rparr>) s2) t"
    using enable_reading_new [of s2 "accept_channel s" ch os me] ch by auto
  have "same_chans s2 t" by (rule same_but_poller_chans [OF t(4) \<open>chans s2 (accept_channel s) = Some ch\<close>]) (simp add: same_chan_def same_dispatch_def)
  then have "same_chans s t" using calls_onlyD(1) [OF s2] by (simp add: same_chans_def)
  moreover have more: "net.more t = net.more s2" "conns t = conns s2"
    using channel_change_more [OF t(1)] by (cases t; cases s2; simp)+
  have "conns s2 = conns s" "accept_channel s2 = accept_channel s" "new_connection_callback s2 = new_connection_callback s"
      "server_message_callback s2 = server_message_callback s" "server_write_callback s2 = server_write_callback s" "timers s2 = timers s"
    using s2 by (auto simp: calls_only_def)
  moreover from this(1-5) have "conns t = conns s" "accept_channel t = accept_channel s" "new_connection_callback t = new_connection_callback s"
      "server_message_callback t = server_message_callback s" "server_write_callback t = server_write_callback s"
    using more(2) more_fields(6-9) [OF more(1)] by simp_all
  moreover have "server_start os me fresh loop_of s = Inr t"
    using start t(1) inv(2) by (simp add: Acceptor_listen_def is_in_loop_thread_def assert_in_loop_thread_def s2_def)
  moreover have "timers t = timers s2" by (rule same_loopD(6) [OF channel_change_same [OF t(1)]])
  moreover have "same_server ?s1 t"
    using same_server_loop [OF channel_change_same [OF t(1)]] same_server_calls [OF s2] by (simp add: same_server_def)
  ultimately show ?thesis using t(2,3) srv inv
    by (intro exI [of _ t]) (simp add: server_inv_def conns_ok_def same_server_def closing_def EventLoopThreadPool_ctor_def INT_MAX_def)
qed

section \<open>Properties\<close>

text \<open>
  C40.  A connection must not be closed twice before it is destroyed: \<^verbatim>\<open>handle_close\<close> does not
  change the state of the connection, so in a second call its own assertion passes and \<^verbatim>\<open>disable_all\<close> succeeds, but the
  connection has left the map, and the assertion of \<^verbatim>\<open>remove_connection_in_loop\<close>, called in the state reached then, fails and ends the
  program.
\<close>

theorem second_close_aborts:
  assumes "server_inv cb s" and "thread_id s = me" and "connections s n = Some a"
  shows "\<exists>t t1 c. conn_handle_close (server_app os me app) os me a s = Inr t \<and>
    conns t a = Some c \<and> conn_state c \<in> {Connected, Disconnecting} \<and>
    channel_change os me Disable_all (conn_channel c) (assert_in_loop_thread (is_in_loop_thread me t) t) = Inr t1 \<and>
    conn_handle_close (server_app os me app) os me a t = remove_connection_in_loop os me a t1 \<and>
    conns t1 a = Some c \<and> connections t1 (conn_name c) = None \<and> remove_connection_in_loop os me a t1 = Inl Assert_failed"
proof -
  have ok: "conns_ok cb (closing s) s" using assms(1) by (simp add: server_inv_def)
  from hangup_ok [OF ok assms(3,2), of os app] obtain t where
    t: "conn_handle_close (server_app os me app) os me a s = Inr t" "conns_ok cb (closing s @ [a]) t"
      "connections t = (connections s)(n := None)" "conns t = conns s" "thread_id t = me" by blast
  have "open_conn cb s a n" using ok assms(3) by (auto simp: conns_ok_def)
  then obtain c where c: "conns t a = Some c" "conn_name c = n" using t(4) by (auto simp: open_conn_def)
  moreover obtain m where "open_conn cb t a m" using t(2) by (auto simp: conns_ok_def)
  ultimately obtain fd where b: "conn_state c = Connected \<or> conn_state c = Disconnecting"
      "conn_close_callback c = Some Server_remove_connection" "bound t (conn_channel c) fd" by (auto simp: open_conn_def)
  let ?t = "assert_in_loop_thread (is_in_loop_thread me t) t"
  have t0: "same_net t ?t" by simp
  have "loop_inv ?t" "bound ?t (conn_channel c) fd"
    using t(2) b(3) same_netD [OF t0] bound_same_net [OF t0] by (auto simp: conns_ok_def)
  from channel_change_bound [OF this, of os me Disable_all] obtain t1 where
    t1: "channel_change os me Disable_all (conn_channel c) ?t = Inr t1" "same_loop ?t t1" by blast
  have "same_server t t1" using same_server_loop [OF t1(2)] by (simp add: same_server_def)
  moreover have conns: "conns t1 = conns t" using conns_more [OF same_loopD(1) [OF t1(2)]] by simp
  ultimately have f: "connections t1 n = None" "thread_id t1 = me" "conns t1 a = Some c" using t(3,5) c(1) by (simp_all add: same_server_def)
  have "conn_handle_close (server_app os me app) os me a t = remove_connection_in_loop os me a t1"
    using c(1) b(1,2) t1(1) f(2)
    by (simp add: conn_handle_close_def Let_def conn_of_def invoke_def server_app_def remove_connection_def run_in_loop_def
        is_in_loop_thread_def)
  moreover have "remove_connection_in_loop os me a t1 = Inl Assert_failed"
    using f c(2) by (simp add: remove_connection_in_loop_def Let_def conn_of_def)
  ultimately show ?thesis using t(1) c b(1) t1(1) f by auto
qed

section \<open>Examples\<close>

definition sample_server :: "(addr \<rightharpoonup> nat closure channel) \<Rightarrow> epoller \<Rightarrow> (addr \<rightharpoonup> nat conn) \<Rightarrow> (string \<rightharpoonup> addr) \<Rightarrow> nat server" where
  "sample_server cs p cn m = \<lparr>logs = [], clock_reads = 0, chans = cs,
     syscalls = [], looping = True, quit_flag = False, calling_pending_functors = False, thread_id = 7,
     loop_poller = Use_epoll p, wakeup_fd = 4, active_channels = [], pending_functors = [],
     poll_return_time = invalid_timestamp, timer_fd = 3, timer_heap = Map.empty, timers = [], conns = cn,
     accept_fd = 6, accept_channel = 60, new_connection_callback = True, listenning = True, idle_fd = 8,
     server_name = ''srv'', server_pool = EventLoopThreadPool_ctor, server_connect_callback = Some 0,
     server_message_callback = None, server_close_callback = None, server_write_callback = None,
     server_started = True, next_conn_id = 2, connections = m\<rparr>"

definition new_server :: "nat server" where
  "new_server = sample_server Map.empty \<lparr>epoll_fd = 3, events_size = 16, ep_channels = Map.empty, kernel = Map.empty\<rparr> Map.empty Map.empty"

definition busy_server :: "nat server" where
  "busy_server = sample_server [20 \<mapsto> (sample_channel POLLIN)
       \<lparr>read_callback := Some (Conn_handle_read 30), write_callback := Some (Conn_handle_write 30),
        error_callback := Some (Conn_handle_error 30), close_callback := Some (Conn_handle_close 30)\<rparr>]
     \<lparr>epoll_fd = 3, events_size = 16, ep_channels = [5 \<mapsto> 20], kernel = [5 \<mapsto> (POLLIN, 20)]\<rparr>
     [30 \<mapsto> (sample_conn Connected empty_buffer)\<lparr>conn_name := ''srv'' @ conn_suffix 1, conn_close_callback := Some Server_remove_connection\<rparr>]
     [''srv'' @ conn_suffix 1 \<mapsto> 30]"

definition silent_app :: "(nat, nat server) app" where
  "silent_app = \<lparr>on_connection = (\<lambda>cb b s. Inr s), on_message = (\<lambda>cb b t s. Inr s),
     on_write_complete = (\<lambda>cb b s. Inr s), on_close = (\<lambda>cb b s. Inr s)\<rparr>"

lemma silent_app: "quiet_callback silent_app 0"
  by (simp add: quiet_callback_def silent_app_def same_server_def)

lemma busy_server_inv: "server_inv 0 busy_server" "thread_id busy_server = 7"
    "connections busy_server (''srv'' @ conn_suffix 1) = Some 30"
proof -
  let ?s = busy_server
  have "loop_inv ?s"
    by (simp add: loop_inv_def ep_inv_def busy_server_def sample_server_def sample_channel_def Channel_ctor_def)
  moreover have "bound ?s 20 5"
    by (simp add: bound_def registered_def busy_server_def sample_server_def sample_channel_def Channel_ctor_def)
  then have "open_conn 0 ?s 30 (''srv'' @ conn_suffix 1)"
    unfolding open_conn_def by (intro exI [of _ "(sample_conn Connected empty_buffer)
      \<lparr>conn_name := ''srv'' @ conn_suffix 1, conn_close_callback := Some Server_remove_connection\<rparr>"] exI [of _ 5])
      (simp add: busy_server_def sample_server_def conn_callbacks_def)
  moreover have "\<exists>k. 1 \<le> k \<and> k < (2::int) \<and> ''srv'' @ conn_suffix 1 = ''srv'' @ conn_suffix k"
    by (intro exI [of _ 1]) simp
  moreover have "pool_loops (server_pool ?s) = []" "server_connect_callback ?s = Some 0" "next_conn_id ?s = 2"
      "server_name ?s = ''srv''" "connections ?s = [''srv'' @ conn_suffix 1 \<mapsto> 30]" "pending_functors ?s = []"
    by (simp_all add: busy_server_def sample_server_def EventLoopThreadPool_ctor_def)
  moreover from this have "closing ?s = []" by (simp add: closing_def)
  ultimately show "server_inv 0 ?s"
    unfolding server_inv_def conns_ok_def by (simp add: INT_MAX_def split: if_splits del: append_Cons)
qed (simp_all add: busy_server_def sample_server_def)

theorem second_close_aborts_witness:
  "\<exists>t. conn_handle_close (server_app (sample_os 0) 7 silent_app) (sample_os 0) 7 30 busy_server = Inr t \<and>
     conn_handle_close (server_app (sample_os 0) 7 silent_app) (sample_os 0) 7 30 t = Inl Assert_failed"
  using second_close_aborts [OF busy_server_inv, of "sample_os 0" silent_app] by metis

end
