(* ===== verification/Server_Turn.thy ===== *)
theory Server_Turn
  imports Tcp_Server
begin

text \<open>
  A turn of the event loop of a server (\<^verbatim>\<open>EventLoop::loop\<close> with the closures of \<^verbatim>\<open>TcpServer\<close>, \<^verbatim>\<open>Acceptor\<close> and
  \<^verbatim>\<open>TcpConnection\<close>): poll, dispatch of the ready channels, pending functors.
\<close>

section \<open>Ready channels\<close>

text \<open>
  The answer \<open>r\<close> of the waiting system call makes the poller report exactly the channel at \<open>b\<close>,
  with the events \<open>ev\<close>, and leaves its registrations alone.
\<close>

definition reports_only ::
  "clock \<Rightarrow> poll_result \<Rightarrow> addr \<Rightarrow> cint \<Rightarrow> ('u, 'z) reactor_scheme \<Rightarrow> bool" where
  "reports_only clk r b ev s \<longleftrightarrow>
     (\<exists>p ch. chans s b = Some ch \<and>
        poller_poll_impl clk r [] (loop_poller s, s) =
          Inr (timestamp_at (clk (clock_reads s)), [b], p,
               put_chan b (ch\<lparr>ch_revents := ev\<rparr>) (s\<lparr>clock_reads := Suc (clock_reads s)\<rparr>)) \<and>
        impl_reg p = impl_reg (loop_poller s) \<and> (\<forall>h :: ('u, 'z) reactor_scheme. impl_inv (loop_poller s) h \<longrightarrow> impl_inv p h))"

lemma epoll_reports_only:
  assumes "loop_poller s = Use_epoll p" and "registered s (ch_fd ch) = Some b" and "chans s b = Some ch" and "1 \<le> events_size p"
  shows "reports_only clk (x, Inr [(ev, b)]) b ev s"
proof -
  let ?p = "p\<lparr>events_size := if length [(ev, b)] = events_size p then events_size p * 2 else events_size p\<rparr>"
  have reg: "ep_channels p (ch_fd ch) = Some b" using assms(1,2) by (simp add: registered_def)
  then have "poller_poll_impl clk (x, Inr [(ev, b)]) [] (loop_poller s, s) =
      Inr (timestamp_at (clk (clock_reads s)), [b], Use_epoll ?p,
           put_chan b (ch\<lparr>ch_revents := ev\<rparr>) (s\<lparr>clock_reads := Suc (clock_reads s)\<rparr>))"
    using assms by (simp add: poller_poll_impl_def epoller_poll_def read_clock_def heap_simps Let_def)
  then show ?thesis using assms(1,3) unfolding reports_only_def
    by (intro exI [of _ "Use_epoll ?p"] exI [of _ ch]) (simp add: ep_inv_def)
qed

text \<open>Marks in a channel do not concern the poller.\<close>

lemma impl_inv_put:
  assumes inv: "impl_inv p s" and ch: "chans s b = Some ch" "ch_fd x = ch_fd ch" "ch_index x = ch_index ch" "ch_events x = ch_events ch"
  shows "impl_inv p (put_chan b x s)"
proof (cases p)
  case (Use_poll q)
  have slot: "slot_ok fds x = slot_ok fds ch" for fds
    using ch by (simp add: slot_ok_def is_none_event_def)
  have "poll_inv q (put_chan b x s)"
    using inv ch Use_poll slot unfolding poll_inv_def by (auto simp: poll_inv_def) (metis option.inject)+
  then show ?thesis using Use_poll by simp
next
  case (Use_epoll q)
  then show ?thesis using inv ch by (auto simp: ep_inv_def) (metis option.inject)+
qed

lemma andthen_fold_Nil [simp]: "andthen m (fold_res f []) = m"
  by (cases m) simp_all

lemma loop_once_one:
  assumes "reports_only (os_clock os) r b ev (s\<lparr>active_channels := []\<rparr>)"
  shows "\<exists>p ch t. chans s b = Some ch \<and> impl_reg p = impl_reg (loop_poller s) \<and>
    (loop_inv s \<longrightarrow> impl_inv p s) \<and>
    loop_once os (\<lambda>_. r) run run_read s =
      andthen (handle_event run run_read t b ((put_chan b (ch\<lparr>ch_revents := ev\<rparr>)
        (s\<lparr>clock_reads := Suc (clock_reads s)\<rparr>))\<lparr>loop_poller := p, active_channels := [b], poll_return_time := t\<rparr>))
      (do_pending_functors run)"
proof -
  let ?s = "s\<lparr>active_channels := []\<rparr>"
  from assms obtain p ch where p: "chans ?s b = Some ch"
      "poller_poll_impl (os_clock os) r [] (loop_poller ?s, ?s) =
        Inr (timestamp_at (os_clock os (clock_reads s)), [b], p,
             put_chan b (ch\<lparr>ch_revents := ev\<rparr>) (?s\<lparr>clock_reads := Suc (clock_reads s)\<rparr>))"
      "impl_reg p = impl_reg (loop_poller s)" "\<forall>h :: ('a, 'b) reactor_scheme. impl_inv (loop_poller s) h \<longrightarrow> impl_inv p h"
    unfolding reports_only_def by auto
  then show ?thesis
    by (intro exI [of _ p] exI [of _ ch] exI [of _ "timestamp_at (os_clock os (clock_reads s))"])
       (simp add: loop_once_def Let_def loop_inv_def put_chan_def)
qed

section \<open>Marks\<close>

lemma conns_ok_frame:
  assumes ok: "conns_ok cb cl s" and inv: "loop_inv t" and reg: "registered t = registered s" and conns: "conns t = conns s"
    and targets: "same_targets s t"
    and srv: "connections t = connections s" "next_conn_id t = next_conn_id s" "server_name t = server_name s"
      "server_pool t = server_pool s" "server_connect_callback t = server_connect_callback s"
  shows "conns_ok cb cl t"
proof (rule conns_okI [OF ok inv srv])
  have keep: "open_conn cb t a n" if "open_conn cb s a n" for a n
    using open_conn_frame [OF that _ targets] conns reg by simp
  have "channel_of t = channel_of s" using conns by (simp add: channel_of_def fun_eq_iff)
  then show "inj_on (channel_of t) (Map.ran (connections s) \<union> set cl)" using ok by (simp add: conns_ok_def)
  show "open_conn cb t a n \<and> a \<notin> set cl" if "connections s n = Some a" for n a
    using that ok keep by (auto simp: conns_ok_def)
  show "\<exists>n. open_conn cb t a n" if "a \<in> set cl" for a
  proof -
    have "\<exists>n. open_conn cb s a n" using that ok by (simp add: conns_ok_def)
    then show ?thesis using keep by blast
  qed
qed (use ok in \<open>auto simp: conns_ok_def\<close>)

lemma same_targets_put:
  assumes "chans s b = Some ch" "ch_fd x = ch_fd ch" "owner_loop x = owner_loop ch" "\<And>a. conn_callbacks a x = conn_callbacks a ch"
    and "chans t = (chans s)(b \<mapsto> x)"
  shows "same_targets s t"
  using assms by (auto simp: same_targets_def)

text \<open>Setting the events of a channel or the mark that it is being handled.\<close>

lemma conns_ok_mark:
  assumes ok: "conns_ok cb cl s" and ch: "chans s b = Some ch"
  shows "conns_ok cb cl (put_chan b (ch\<lparr>event_handling := h\<rparr>) s)"
proof (rule conns_ok_frame [OF ok])
  show "loop_inv (put_chan b (ch\<lparr>event_handling := h\<rparr>) s)"
    using ok impl_inv_put [of "loop_poller s" s b ch "ch\<lparr>event_handling := h\<rparr>"] ch by (simp add: conns_ok_def loop_inv_def)
  show "same_targets s (put_chan b (ch\<lparr>event_handling := h\<rparr>) s)"
    by (rule same_targets_put [OF ch]) (simp_all add: conn_callbacks_def)
qed (simp_all add: registered_def put_chan_def)

lemma conns_ok_polled:
  assumes ok: "conns_ok cb cl s" and ch: "chans s b = Some ch"
    and p: "impl_reg p = impl_reg (loop_poller s)" "impl_inv p s"
  shows "conns_ok cb cl ((put_chan b (ch\<lparr>ch_revents := ev\<rparr>)
    (s\<lparr>clock_reads := k\<rparr>))\<lparr>loop_poller := p, active_channels := bs, poll_return_time := t\<rparr>)" (is "conns_ok cb cl ?t")
proof (rule conns_ok_frame [OF ok])
  have "impl_inv p (put_chan b (ch\<lparr>ch_revents := ev\<rparr>) s)" using p(2) ch by (rule impl_inv_put) simp_all
  moreover have "chans ?t = chans (put_chan b (ch\<lparr>ch_revents := ev\<rparr>) s)" by (simp add: put_chan_def)
  ultimately show "loop_inv ?t" using impl_inv_cong [of ?t "put_chan b (ch\<lparr>ch_revents := ev\<rparr>) s" p] by (simp add: loop_inv_def)
  show "same_targets s ?t"
    by (rule same_targets_put [OF ch, of "ch\<lparr>ch_revents := ev\<rparr>"]) (simp_all add: conn_callbacks_def put_chan_def)
qed (use p(1) in \<open>simp_all add: registered_def put_chan_def\<close>)

section \<open>A peer hangs up\<close>

lemma hup_events: "hup_only POLLHUP" "\<not> error_event POLLHUP" "\<not> read_event POLLHUP" "\<not> write_event POLLHUP"
  by (simp_all add: hup_only_def error_event_def read_event_def write_event_def has_event_def poll_masks)

lemma handle_hangup:
  assumes ok: "conns_ok cb cl s" and a: "connections s n = Some a" and me: "thread_id s = me"
    and c: "conns s a = Some c" and ch: "chans s (conn_channel c) = Some ch" "ch_revents ch = POLLHUP"
    and app: "app = server_app os me user_app"
  shows "\<exists>t. handle_event (server_call app os me user) run_read tm (conn_channel c) s = Inr t \<and> conns_ok cb (cl @ [a]) t \<and>
    connections t = (connections s)(n := None) \<and> pending_functors t = pending_functors s @ [Conn_connect_destroyed a] \<and>
    conns t = conns s \<and> thread_id t = me"
proof -
  let ?b = "conn_channel c" and ?h = "ch\<lparr>event_handling := True\<rparr>"
  let ?s1 = "put_chan (conn_channel c) (ch\<lparr>event_handling := True\<rparr>) s"
  have "open_conn cb s a n" using ok a by (auto simp: conns_ok_def)
  then have cbs: "conn_callbacks a ?h" using c ch by (auto simp: open_conn_def conn_callbacks_def)
  have ok1: "conns_ok cb cl ?s1" using conns_ok_mark [OF ok ch(1)] .
  have "connections ?s1 n = Some a" "thread_id ?s1 = me" using a me by (simp_all add: put_chan_def)
  from hangup_ok [OF ok1 this, of os user_app] obtain t where
    t: "conn_handle_close app os me a ?s1 = Inr t" "conns_ok cb (cl @ [a]) t"
      "connections t = (connections s)(n := None)" "pending_functors t = pending_functors s @ [Conn_connect_destroyed a]"
      "conns t = conns s" "thread_id t = me" "same_chans ?s1 t"
    unfolding app by (auto simp: put_chan_def)
  from same_chansD [OF t(7), of ?b ?h] obtain y where y: "chans t ?b = Some y" "same_chan ?h y" by auto
  have rev: "ch_revents y = POLLHUP" using y(2) ch(2) by (simp add: same_chan_def same_dispatch_def)
  have "handle_event (server_call app os me user) run_read tm ?b s = Inr (put_chan ?b (y\<lparr>event_handling := False\<rparr>) t)"
    using ch cbs t(1) y rev hup_events
    by (simp add: handle_event_def modify_chan_def fire_def heap_simps conn_callbacks_def server_call_def conn_call_def)
  moreover have "conns_ok cb (cl @ [a]) (put_chan ?b (y\<lparr>event_handling := False\<rparr>) t)"
    using conns_ok_mark [OF t(2) y(1)] .
  ultimately show ?thesis using t
    by (intro exI [of _ "put_chan ?b (y\<lparr>event_handling := False\<rparr>) t"]) (simp add: put_chan_def)
qed

lemma turn_hangup:
  assumes inv: "server_inv cb s" and me: "thread_id s = me" and q: "quiet_callback user_app cb"
    and a: "connections s n = Some a" and c: "conns s a = Some c"
    and r: "reports_only (os_clock os) r (conn_channel c) POLLHUP (s\<lparr>active_channels := []\<rparr>)"
    and app: "app = server_app os me user_app"
  shows "\<exists>t c'. loop_once os (\<lambda>_. r) (server_call app os me user) run_read s = Inr t \<and> server_inv cb t \<and>
    connections t = (connections s)(n := None) \<and> pending_functors t = [] \<and> conns t a = Some c' \<and> conn_state c' = Disconnected \<and>
    (\<forall>m b. connections t m = Some b \<longrightarrow> conns t b = conns s b)"
proof -
  have ok: "conns_ok cb (closing s) s" and pend: "pending_functors s = map Conn_connect_destroyed (closing s)"
    using inv by (simp_all add: server_inv_def)
  have li: "loop_inv s" using ok by (simp add: conns_ok_def)
  from loop_once_one [OF r, of "server_call app os me user" run_read] li obtain p ch tm where
    p: "chans s (conn_channel c) = Some ch" "impl_reg p = impl_reg (loop_poller s)" "impl_inv p s" and
    turn: "loop_once os (\<lambda>_. r) (server_call app os me user) run_read s =
      andthen (handle_event (server_call app os me user) run_read tm (conn_channel c) ((put_chan (conn_channel c) (ch\<lparr>ch_revents := POLLHUP\<rparr>)
        (s\<lparr>clock_reads := Suc (clock_reads s)\<rparr>))\<lparr>loop_poller := p, active_channels := [conn_channel c], poll_return_time := tm\<rparr>))
      (do_pending_functors (server_call app os me user))" by auto
  let ?s1 = "(put_chan (conn_channel c) (ch\<lparr>ch_revents := POLLHUP\<rparr>)
        (s\<lparr>clock_reads := Suc (clock_reads s)\<rparr>))\<lparr>loop_poller := p, active_channels := [conn_channel c], poll_return_time := tm\<rparr>"
  have ok1: "conns_ok cb (closing s) ?s1" by (rule conns_ok_polled [OF ok p])
  have f1: "connections ?s1 = connections s" "thread_id ?s1 = me" "conns ?s1 = conns s" "pending_functors ?s1 = pending_functors s"
      "chans ?s1 (conn_channel c) = Some (ch\<lparr>ch_revents := POLLHUP\<rparr>)"
    using me by (simp_all add: put_chan_def)
  from handle_hangup [OF ok1 _ f1(2) _ f1(5) _ app, of n a user run_read tm] f1(1,3,4) a c obtain u where
    u: "handle_event (server_call app os me user) run_read tm (conn_channel c) ?s1 = Inr u" "conns_ok cb (closing s @ [a]) u"
      "connections u = (connections s)(n := None)" "pending_functors u = pending_functors s @ [Conn_connect_destroyed a]"
      "conns u = conns s" by auto
  have cl: "closing u = closing s @ [a]" using u(4) by (simp add: closing_def)
  have "server_inv cb u" using u(2,4) cl pend by (simp add: server_inv_def)
  from functors_ok [OF this quiet_server_app [OF q], of os me os me user] obtain t where
    t: "do_pending_functors (server_call app os me user) u = Inr t" "server_inv cb t" "pending_functors t = []"
      "connections t = connections u" "\<forall>a \<in> set (closing u). \<exists>c. conns t a = Some c \<and> conn_state c = Disconnected"
      "\<forall>a. a \<notin> set (closing u) \<longrightarrow> conns t a = conns u a" unfolding app by blast
  have "conns t b = conns s b" if "connections t m = Some b" for m b
    using that t(4,6) u(2,5) cl by (auto simp: conns_ok_def)
  with turn u(1,3) t cl show ?thesis by auto
qed

section \<open>Accepting\<close>

lemma in_events: "\<not> hup_only POLLIN" "\<not> error_event POLLIN" "read_event POLLIN" "\<not> write_event POLLIN"
  by (simp_all add: hup_only_def error_event_def read_event_def write_event_def has_event_def poll_masks)

text \<open>Accepting a connection: the call of \<^verbatim>\<open>accept\<close>, the test of the new descriptor and the server's callback.\<close>

lemma handle_read_once_accepts:
  fixes s :: "('u, 'z) acceptor_scheme"
  defines "k \<equiv> length (syscalls s)"
  assumes "thread_id s = me" and "new_connection_callback s" and "0 < os_ret os k" and "0 \<le> os_ret os (k + 1)"
  shows "\<exists>S peer. handle_read_once os me on_new s = on_new (os_ret os k) peer S \<and> calls_only s S \<and>
    new_connection_callback S"
proof -
  let ?S = "s\<lparr>syscalls := syscalls s @ [Sys_accept (accept_fd s), Sys_poll_one (os_ret os k)]\<rparr>"
  have "calls_only s ?S" unfolding calls_only_def
    by (intro exI [of _ "[Sys_accept (accept_fd s), Sys_poll_one (os_ret os k)]"] exI [of _ "[]"]) simp
  moreover have "handle_read_once os me on_new s = on_new (os_ret os k) (os_addr os k) ?S"
    using assms by (simp add: handle_read_once_def Socket_accept_def sockets_accept_def issue_errno_def issue_def Let_def
        is_in_loop_thread_def assert_in_loop_thread_def dispatch_connection_def k_def)
  ultimately show ?thesis using assms(3) by auto
qed

end
