(* ===== verification/Timer_Safety.thy ===== *)
theory Timer_Safety
  imports Timer_Queue
begin

text \<open>
  Timers of an application: their callbacks may set and cancel timers and do any work that keeps the queue in order, and
  still one expiration of the descriptor ends in order.  \<open>timer_handle_read_ok\<close> of \<open>Timer_Queue\<close> says what a turn does when the
  callbacks leave the queue alone; here they need not.
\<close>

section \<open>Timers in order\<close>

text \<open>
  A timer the application has set: its callback is code of the application, and the interval of a repeating one stays within
  the range that \<^verbatim>\<open>add_time\<close> converts.
\<close>

definition timer_fit :: "'u closure timer \<Rightarrow> bool" where
  "timer_fit t \<longleftrightarrow> (\<exists>u. callback t = User u) \<and> (repeat t \<longrightarrow> 0 \<le> interval t \<and> interval t \<le> 2000)"

definition timers_ok :: "('u, 'z) reactor_scheme \<Rightarrow> bool" where
  "timers_ok s \<longleftrightarrow> timers_inv s \<and> (\<forall>a t. a \<in> queued s \<and> timer_heap s a = Some t \<longrightarrow> timer_fit t)"

text \<open>What callbacks do to the queue: no timer changes or goes away, and only new ones are queued.\<close>

definition timers_grow :: "('u, 'z) reactor_scheme \<Rightarrow> ('u, 'z) reactor_scheme \<Rightarrow> bool" where
  "timers_grow s t \<longleftrightarrow> timer_heap s \<subseteq>\<^sub>m timer_heap t \<and> queued t \<subseteq> queued s \<union> - dom (timer_heap s)"

text \<open>The queue is left alone.\<close>

definition same_timers :: "('u, 'z) reactor_scheme \<Rightarrow> ('u, 'z) reactor_scheme \<Rightarrow> bool" where
  "same_timers s t \<longleftrightarrow> timers t = timers s \<and> timer_heap t = timer_heap s"

text \<open>The rest of the state, up to the clock, the logs and the system calls.\<close>

definition timer_frame :: "('u, 'z) reactor_scheme \<Rightarrow> ('u, 'z) reactor_scheme \<Rightarrow> bool" where
  "timer_frame s t \<longleftrightarrow> chans t = chans s \<and> loop_poller t = loop_poller s \<and> reactor.more t = reactor.more s \<and>
     pending_functors t = pending_functors s \<and> thread_id t = thread_id s"

lemma same_timers_refl [simp]: "same_timers s s"
  by (simp add: same_timers_def)

lemma same_timers_trans: "same_timers s t \<Longrightarrow> same_timers t u \<Longrightarrow> same_timers s u"
  by (simp add: same_timers_def)

lemma timers_ok_cong: "timers t = timers s \<Longrightarrow> timer_heap t = timer_heap s \<Longrightarrow> timers_ok t = timers_ok s"
  by (simp add: timers_ok_def timers_inv_def)

lemma timers_ok_empty: "timers s = [] \<Longrightarrow> timers_ok s"
  by (simp add: timers_ok_def timers_inv_def key_sorted_def)

lemma timers_grow_eq: "timers t = timers s \<Longrightarrow> timer_heap t = timer_heap s \<Longrightarrow> timers_grow s t"
  by (auto simp: timers_grow_def)

lemma grow_sets: "(A::'a set) \<subseteq> B \<union> C \<Longrightarrow> D \<subseteq> A \<union> E \<Longrightarrow> E \<subseteq> C \<Longrightarrow> D \<subseteq> B \<union> C"
  by blast

lemma grow_disjoint: "(E::'a set) \<inter> A = {} \<Longrightarrow> B \<subseteq> A \<union> - D \<Longrightarrow> E \<subseteq> D \<Longrightarrow> E \<inter> B = {}"
  by blast

lemma timers_grow_trans:
  assumes "timers_grow s t" and "timers_grow t u"
  shows "timers_grow s u"
proof -
  have h: "timer_heap s \<subseteq>\<^sub>m timer_heap t" "timer_heap t \<subseteq>\<^sub>m timer_heap u"
    and q: "queued t \<subseteq> queued s \<union> - dom (timer_heap s)" "queued u \<subseteq> queued t \<union> - dom (timer_heap t)"
    using assms by (simp_all only: timers_grow_def)
  have "- dom (timer_heap t) \<subseteq> - dom (timer_heap s)" using map_le_implies_dom_le [OF h(1)] by (rule compl_mono)
  from grow_sets [OF q this] show ?thesis using map_le_trans [OF h] by (simp only: timers_grow_def simp_thms)
qed

lemma timer_frame_trans: "timer_frame s t \<Longrightarrow> timer_frame t u \<Longrightarrow> timer_frame s u"
  by (simp add: timer_frame_def)

lemma timers_ok_subset:
  assumes "timers_ok s" and "timers t = filter P (timers s)" and "timer_heap t = timer_heap s"
  shows "timers_ok t" "timers_grow s t"
  using assms timers_inv_filter [of s P] by (auto simp: timers_ok_def timers_inv_def timers_grow_def)

text \<open>A queued timer exists.\<close>

lemma timers_ok_entry:
  assumes "timers_ok s" and "e \<in> set (timers s)"
  shows "\<exists>t. timer_heap s (snd e) = Some t \<and> timer_fit t"
proof -
  from assms obtain t where "timer_heap s (snd e) = Some t" by (auto simp: timers_ok_def timers_inv_def list_all_iff entry_ok_def)
  with assms show ?thesis by (auto simp: timers_ok_def)
qed

section \<open>Setting and cancelling\<close>

lemma add_timer_safe:
  fixes s :: "('u, 'z) reactor_scheme"
  assumes ok: "timers_ok s" and me: "thread_id s = me" and new: "timer_heap s a = None"
    and w: "ts_valid w" and fit: "timer_fit (Timer_ctor cb w ivl)"
  shows "\<exists>t. add_timer os me a cb w ivl s = Inr (Some a, t) \<and> timers_ok t \<and> timers_grow s t \<and>
    dom (timer_heap t) = insert a (dom (timer_heap s)) \<and> timer_frame s t"
proof -
  let ?x = "Timer_ctor cb w ivl" and ?s = "s\<lparr>timer_heap := (timer_heap s)(a \<mapsto> Timer_ctor cb w ivl)\<rparr>"
  have a: "a \<notin> queued s" using timers_ok_entry [OF ok] new by fastforce
  have inv: "timers_inv ?s" using ok a by (auto simp: timers_ok_def timers_inv_def entry_ok_def list_all_iff)
  from add_timer_in_loop_ok [OF inv, of a ?x os me] a w obtain t where
    t: "add_timer_in_loop os me a ?s = Inr t" "timers_inv t" "timer_heap t = timer_heap ?s"
      "timers t = sort_key (\<lambda>e. ts_val (fst e)) (timers s @ [(w, a)])" "timer_frame s t"
    by (auto simp: Timer_ctor_def timer_frame_def)
  have q: "queued t = insert a (queued s)" using t(4) by auto
  have "timers_ok t" using ok t(2,3) q fit by (auto simp: timers_ok_def)
  moreover have "timers_grow s t" using t(3) q new by (auto simp: timers_grow_def map_le_def)
  moreover have "add_timer os me a cb w ivl s = Inr (Some a, t)"
    using t(1) me by (simp add: add_timer_def run_in_loop_def is_in_loop_thread_def)
  ultimately show ?thesis using t(3,5) by auto
qed

lemma delay_in_range:
  assumes "ieee_rounding rnd" and "0 \<le> d" and "d \<le> 2000"
  shows "\<exists>t'. add_time rnd t d = Inr t' \<and> ts_valid t'"
  using add_time_bounds [OF assms(1), of 0 2000000000 d t] assms(2,3) by auto

lemma run_after_safe:
  fixes s :: "('u, 'z) reactor_scheme"
  assumes ok: "timers_ok s" and me: "thread_id s = me" and new: "timer_heap s a = None"
    and rnd: "ieee_rounding (os_round os)" and d: "0 \<le> d" "d \<le> 2000"
  shows "\<exists>t. run_after os me a d (User u) s = Inr (Some a, t) \<and> timers_ok t \<and> timers_grow s t \<and>
      dom (timer_heap t) = insert a (dom (timer_heap s)) \<and> timer_frame s t"
    and "\<exists>t. run_every os me a d (User u) s = Inr (Some a, t) \<and> timers_ok t \<and> timers_grow s t \<and>
      dom (timer_heap t) = insert a (dom (timer_heap s)) \<and> timer_frame s t"
proof -
  let ?s = "s\<lparr>clock_reads := Suc (clock_reads s)\<rparr>" and ?n = "timestamp_at (os_clock os (clock_reads s))"
  from delay_in_range [OF rnd d, of ?n] obtain w where w: "add_time (os_round os) ?n d = Inr w" "ts_valid w" by blast
  have fit: "timer_fit (Timer_ctor (User u) w i)" if "i = 0 \<or> i = d" for i :: real
    using that d by (auto simp: timer_fit_def Timer_ctor_def)
  have s: "timers_ok ?s" "timers_grow s t = timers_grow ?s t" "timer_frame s t = timer_frame ?s t" for t
    using ok timers_ok_cong [of ?s s] by (simp_all add: timers_grow_def timer_frame_def)
  show "\<exists>t. run_after os me a d (User u) s = Inr (Some a, t) \<and> timers_ok t \<and> timers_grow s t \<and>
      dom (timer_heap t) = insert a (dom (timer_heap s)) \<and> timer_frame s t"
    using add_timer_safe [OF s(1) _ _ w(2) fit [of 0], where me = me and a = a and os = os] me new w(1) unfolding s(2,3)
    by (auto simp: run_after_def run_at_def read_clock_def)
  show "\<exists>t. run_every os me a d (User u) s = Inr (Some a, t) \<and> timers_ok t \<and> timers_grow s t \<and>
      dom (timer_heap t) = insert a (dom (timer_heap s)) \<and> timer_frame s t"
    using add_timer_safe [OF s(1) _ _ w(2) fit [of d], where me = me and a = a and os = os] me new w(1) unfolding s(2,3)
    by (auto simp: run_every_def read_clock_def)
qed

lemma loop_cancel_safe:
  assumes ok: "timers_ok s" and me: "thread_id s = me"
  shows "\<exists>t. loop_cancel os me i s = Inr t \<and> timers_ok t \<and> timers_grow s t \<and> timer_heap t = timer_heap s \<and> timer_frame s t"
proof -
  have run: "loop_cancel os me i s = Inr (cancel_in_loop i s)"
    using me by (simp add: loop_cancel_def cancel_def run_in_loop_def is_in_loop_thread_def)
  have same: "timers_ok s \<and> timers_grow s s \<and> timer_heap s = timer_heap s \<and> timer_frame s s"
    using ok by (simp add: timers_grow_eq timer_frame_def)
  show ?thesis
  proof (cases "\<exists>a k. i = Some a \<and> (k, a) \<in> set (timers s)")
    case True
    then obtain a k where a: "i = Some a" "(k, a) \<in> set (timers s)" by blast
    let ?t = "s\<lparr>timers := filter (\<lambda>e. \<not> same_key k e) (timers s)\<rparr>"
    have "cancel_in_loop i s = ?t" using cancel_in_loop_eq [OF _ a(2)] ok a(1) by (simp add: timers_ok_def)
    moreover have "timers_ok ?t" "timers_grow s ?t" using timers_ok_subset [OF ok, of ?t] by simp_all
    ultimately show ?thesis using run by (simp add: timer_frame_def)
  next
    case False
    then have "a \<notin> queued s" if "i = Some a" for a using that by auto
    then have "cancel_in_loop i s = s" using cancel_not_queued [of _ s] by (cases i) (simp_all add: cancel_in_loop_def)
    then show ?thesis using run same by simp
  qed
qed

section \<open>An expiration\<close>

text \<open>Restarting changes nothing of a timer but its expiration.\<close>

lemma reset_entries_fit:
  assumes "fold_res (reset_entry os now) es s = Inr t" and "\<forall>a x. timer_heap s a = Some x \<and> a \<in> A \<longrightarrow> timer_fit x"
  shows "\<forall>a x. timer_heap t a = Some x \<and> a \<in> A \<longrightarrow> timer_fit x"
  using assms(1,2)
proof (rule fold_res_invariant [where P = "\<lambda>s. \<forall>a x. timer_heap s a = Some x \<and> a \<in> A \<longrightarrow> timer_fit x"])
  fix e u u' assume u: "\<forall>a x. timer_heap u a = Some x \<and> a \<in> A \<longrightarrow> timer_fit x" and run: "reset_entry os now e u = Inr u'"
  show "\<forall>a x. timer_heap u' a = Some x \<and> a \<in> A \<longrightarrow> timer_fit x"
  proof (cases "timer_heap u' = timer_heap u")
    case False
    with run obtain x w where "timer_heap u (snd e) = Some x" "timer_heap u' = (timer_heap u)(snd e \<mapsto> x\<lparr>expiration := w\<rparr>)"
      by (auto simp: reset_entry_def restart_def timer_insert_def Let_def andthen_def split: option.splits if_splits sum.splits)
    with u show ?thesis by (auto simp: timer_fit_def)
  qed (use u in simp)
qed

lemma reset_timers_safe:
  fixes s :: "('u, 'z) reactor_scheme"
  assumes ok: "timers_ok s" and rnd: "ieee_rounding (os_round os)"
    and es: "distinct (map snd es)" "snd ` set es \<inter> queued s = {}" "\<And>e. e \<in> set es \<Longrightarrow> \<exists>t. timer_heap s (snd e) = Some t \<and> timer_fit t"
  shows "\<exists>t. reset_timers os es now s = Inr t \<and> timers_ok t \<and> timer_frame s t"
proof -
  let ?new = "renewals os now (timer_heap s) es"
  have "\<exists>t. timer_heap s (snd e) = Some t \<and> renewable os now t" if "e \<in> set es" for e
    using es(3) [OF that] delay_in_range [OF rnd] by (force simp: timer_fit_def renewable_def)
  from fold_reset_entry [OF es(1) this] obtain h where
    h: "fold_res (reset_entry os now) es s = Inr (s\<lparr>timer_heap := h, timers := tl.ins_all ?new (timers s)\<rparr>)"
      "\<And>a. a \<notin> snd ` set es \<Longrightarrow> h a = timer_heap s a" "list_all (entry_ok h) ?new" by auto
  let ?u = "s\<lparr>timer_heap := h, timers := tl.ins_all ?new (timers s)\<rparr>"
  have new: "snd ` set ?new \<subseteq> snd ` set es" by (rule renewals_snd)
  have key: "key_sorted (timers s)" using ok by (simp add: timers_ok_def timers_inv_def)
  have "snd ` set ?new \<inter> queued s = {}" using new es(2) by blast
  moreover have "h a = timer_heap s a" if "a \<in> queued s" for a using that es(2) h(2) by blast
  ultimately have "timers_inv ?u"
    using ok entries_inserted [of "timers s" "timer_heap s" ?new h] renewals_distinct [OF es(1), of os now "timer_heap s"] h(3)
    by (simp add: timers_ok_def timers_inv_def)
  moreover have "timer_fit x" if "a \<in> queued ?u" "h a = Some x" for a x
  proof -
    have "mset (tl.ins_all ?new (timers s)) = mset (timers s @ ?new)" using tl.ins_all_facts [OF key, of ?new] by simp
    then have "set (tl.ins_all ?new (timers s)) = set (timers s @ ?new)" by (rule mset_eq_setD)
    then have "a \<in> queued s \<union> snd ` set es" using that(1) new by auto
    moreover have "\<forall>a x. timer_heap s a = Some x \<and> a \<in> queued s \<union> snd ` set es \<longrightarrow> timer_fit x"
      using ok es(3) by (fastforce simp: timers_ok_def)
    ultimately show ?thesis using reset_entries_fit [OF h(1), of "queued s \<union> snd ` set es"] that(2) by auto
  qed
  ultimately have u: "timers_ok ?u" by (auto simp: timers_ok_def)
  have "reset_timers os es now s = Inr (rearmed os ?u)"
    using reset_timers_eq [OF h(1)] u by (simp add: timers_ok_def)
  moreover have "timers_ok (rearmed os ?u)" using u timers_ok_cong [of "rearmed os ?u" ?u] by simp
  ultimately show ?thesis by (simp add: timer_frame_def rearmed_def)
qed

text \<open>
  The descriptor is readable.  \<open>J\<close> is whatever the callbacks keep of the rest of the state; no timer is due at the very instant of
  the clock reading (see \<open>get_expired_exact\<close>).
\<close>

lemma timer_handle_read_safe:
  fixes s :: "('u, 'z) reactor_scheme"
  assumes ok: "timers_ok s" and J: "J s" and rnd: "ieee_rounding (os_round os)"
    and instant: "\<not> (\<exists>e \<in> set (timers s). same_key (time_now os s) e)"
    and frame: "\<And>s t. J s \<Longrightarrow> timers_ok t \<Longrightarrow> timer_frame s t \<Longrightarrow> J t"
    and run: "\<And>u s. J s \<Longrightarrow> timers_ok s \<Longrightarrow> length_safe (\<lambda>t. J t \<and> timers_ok t \<and> timers_grow s t) (run (User u) s)"
  shows "length_safe (\<lambda>t. J t \<and> timers_ok t) (timer_handle_read os me run s)"
proof -
  let ?now = "time_now os s" and ?s1 = "snd (read_clock (os_clock os) (assert_in_loop_thread (is_in_loop_thread me s) s))"
  let ?s2 = "read_timer_fd os (timer_fd ?s1) ?s1"
  define es where "es = filter (\<lambda>e. fst e < ?now) (timers s)"
  define s3 where "s3 = ?s2\<lparr>timers := filter (\<lambda>e. \<not> fst e < ?now) (timers s)\<rparr>"
  have s2: "timers ?s2 = timers s" "timer_heap ?s2 = timer_heap s" "timer_frame s ?s2"
    by (simp_all add: read_clock_def timer_frame_def read_timer_fd_def issue_def log_to_def assert_in_loop_thread_def)
  have s3: "timer_heap s3 = timer_heap s" "timers s3 = filter (\<lambda>e. \<not> fst e < ?now) (timers s)" "timer_frame s s3"
    using s2 by (simp_all add: s3_def timer_frame_def)
  have ok3: "timers_ok s3" by (rule timers_ok_subset [OF ok s3(2,1)])
  have J3: "J s3" by (rule frame [OF J ok3 s3(3)])
  have get: "get_expired ?now ?s2 = Inr (es, s3)"
    using get_expired_eq [of ?s2 ?now] ok instant s2(1) by (simp add: timers_ok_def timers_inv_def es_def s3_def)
  have start: "timer_handle_read os me run s = andthen (fold_res (run_timer run) es s3) (reset_timers os es ?now)"
    using get by (simp add: timer_handle_read_def Let_def read_clock_def time_now_def)
  have live: "\<exists>t. timer_heap s (snd e) = Some t \<and> timer_fit t" if "e \<in> set es" for e
    using timers_ok_entry [OF ok, of e] that by (simp add: es_def)
  have dist: "distinct (map snd es)" "snd ` set es \<inter> queued s3 = {}"
  proof -
    have "inj_on snd (set (timers s))" using ok by (simp add: timers_ok_def timers_inv_def distinct_map)
    then show "snd ` set es \<inter> queued s3 = {}" using s3(2) by (auto simp: es_def timestamp_order dest: inj_onD)
    show "distinct (map snd es)" using ok timers_inv_filter [of s] by (simp add: timers_ok_def es_def)
  qed
  have step: "length_safe (\<lambda>t. J t \<and> timers_ok t \<and> timers_grow s3 t) (run_timer run e t)"
    if e: "e \<in> set es" and t: "J t" "timers_ok t" "timers_grow s3 t" for e t
  proof -
    from live [OF e] obtain x u where x: "timer_heap s (snd e) = Some x" "callback x = User u" by (auto simp: timer_fit_def)
    then have "timer_heap t (snd e) = Some x" using t(3) s3(1) by (metis domI map_le_def timers_grow_def)
    then have "run_timer run e t = run (User u) t" using x(2) by (simp add: run_timer_def)
    then show ?thesis using run [OF t(1,2), of u] timers_grow_trans [OF t(3)] by (auto elim: length_safe_mono)
  qed
  have "length_safe (\<lambda>t. J t \<and> timers_ok t \<and> timers_grow s3 t) (fold_res (run_timer run) fs s3')"
    if "set fs \<subseteq> set es" "J s3'" "timers_ok s3'" "timers_grow s3 s3'" for fs s3'
    using that by (induction fs arbitrary: s3') (auto intro!: length_safe_andthen [OF step])
  from this [of es s3] J3 ok3 have
    "length_safe (\<lambda>t. J t \<and> timers_ok t \<and> timers_grow s3 t) (fold_res (run_timer run) es s3)" by (simp add: timers_grow_eq)
  then show ?thesis unfolding start
  proof (rule length_safe_andthen, elim conjE)
    fix t assume t: "J t" "timers_ok t" "timers_grow s3 t"
    have heap: "timer_heap t (snd e) = timer_heap s (snd e)" if "e \<in> set es" for e
      using live [OF that] t(3) s3(1) unfolding timers_grow_def map_le_def by (metis domI)
    have "queued t \<subseteq> queued s3 \<union> - dom (timer_heap s)" using t(3) s3(1) by (simp only: timers_grow_def)
    moreover have "snd ` set es \<subseteq> dom (timer_heap s)" using live by auto
    ultimately have "snd ` set es \<inter> queued t = {}" by (rule grow_disjoint [OF dist(2)])
    from reset_timers_safe [OF t(2) rnd dist(1) this, of ?now] live heap obtain t' where
      "reset_timers os es ?now t = Inr t'" "timers_ok t'" "timer_frame t t'" by auto
    then show "length_safe (\<lambda>t. J t \<and> timers_ok t) (reset_timers os es ?now t)" using frame [OF t(1)] by simp
  qed
qed

end
