(* ===== verification/Conn_Safety.thy ===== *)
theory Conn_Safety
  imports Tcp_Connection Timer_Safety
begin

text \<open>
  Connections under an arbitrary application.  The theories before state what an operation
  does when the application's callbacks leave the library alone; here the callbacks use the
  public interface of \<^verbatim>\<open>TcpConnection\<close> and \<^verbatim>\<open>Buffer\<close> as they like: they send, shut down, take input and
  set socket options, on their own and on other connections, set timers, cancel them and queue functors.  The one failure left is
  \<^verbatim>\<open>std::length_error\<close>, thrown when a buffer would outgrow \<^verbatim>\<open>max_size()\<close>.
\<close>

section \<open>Connections in order\<close>

text \<open>
  A connection in order: sound buffers, its callbacks set, its channel alive and registered
  exactly while the connection is open.  \<open>X\<close> holds the connection that is just being destroyed:
  its state is \<open>Disconnected\<close> already, its channel is switched off but not yet removed.
\<close>

definition conn_fit :: "addr set \<Rightarrow> ('u, 'z) net_scheme \<Rightarrow> addr \<Rightarrow> 'u conn \<Rightarrow> bool" where
  "conn_fit X s a c \<longleftrightarrow>
     buf_inv (input_buffer c) \<and> buf_inv (output_buffer c) \<and> connect_callback c \<noteq> None \<and> message_callback c \<noteq> None \<and>
     (\<exists>ch. chans s (conn_channel c) = Some ch \<and> owner_loop ch = this_loop \<and> conn_callbacks a ch \<and>
        (if a \<in> X then conn_state c = Disconnected \<and> is_none_event ch \<and> registered s (ch_fd ch) = Some (conn_channel c)
         else if registered s (ch_fd ch) = Some (conn_channel c)
         then conn_state c = Connected \<or> conn_state c = Disconnecting
         else conn_state c = Disconnected))"

definition net_ok :: "addr set \<Rightarrow> ('u, 'z) net_scheme \<Rightarrow> bool" where
  "net_ok X s \<longleftrightarrow> loop_inv s \<and> timers_ok s \<and> (\<forall>a c. conns s a = Some c \<longrightarrow> conn_fit X s a c)"

definition buffers_ok :: "('u, 'z) net_scheme \<Rightarrow> bool" where
  "buffers_ok s \<longleftrightarrow> (\<forall>a c. conns s a = Some c \<longrightarrow> buf_inv (input_buffer c) \<and> buf_inv (output_buffer c))"

text \<open>What may become of a connection short of being destroyed.\<close>

definition kept :: "'u conn \<Rightarrow> 'u conn \<Rightarrow> bool" where
  "kept c c' \<longleftrightarrow>
     c' = c\<lparr>input_buffer := input_buffer c', output_buffer := output_buffer c', conn_state := conn_state c'\<rparr> \<and>
     (conn_state c' = conn_state c \<or> conn_state c = Connected \<and> conn_state c' = Disconnecting)"

lemma kept_refl [simp]: "kept c c" by (simp add: kept_def)

lemma keptD:
  assumes "kept c c'"
  shows "conn_name c' = conn_name c" "conn_channel c' = conn_channel c" "connect_callback c' = connect_callback c"
    "message_callback c' = message_callback c" "conn_close_callback c' = conn_close_callback c"
    "write_complete_callback c' = write_complete_callback c" "conn_state c' = Disconnected \<longleftrightarrow> conn_state c = Disconnected"
    "conn_state c' = conn_state c \<or> conn_state c = Connected \<and> conn_state c' = Disconnecting"
  using assms by (cases c; cases c'; auto simp: kept_def)+

lemma kept_trans: "kept c d \<Longrightarrow> kept d e \<Longrightarrow> kept c e"
  by (cases c; cases d; cases e) (auto simp: kept_def)

lemma kept_buffers [simp]: "kept c (c\<lparr>input_buffer := b\<rparr>)" "kept c (c\<lparr>output_buffer := b\<rparr>)"
  by (simp_all add: kept_def)

text \<open>
  What the operations of connections, short of closing and destroying them, do to the state:
  registrations, the owner of the loop and of the connections, the channels' targets and
  the set of connections stay, the channels of closed connections are not touched, and all
  that is queued are write-complete callbacks and code of the application.
\<close>

definition completes :: "('u, 'z) net_scheme \<Rightarrow> 'u closure \<Rightarrow> bool" where
  "completes s f \<longleftrightarrow> (\<exists>u. f = User u) \<or> (\<exists>a c. f = Conn_write_complete a \<and> conns s a = Some c \<and> write_complete_callback c \<noteq> None)"

definition conns_kept :: "('u, 'z) net_scheme \<Rightarrow> ('u, 'z) net_scheme \<Rightarrow> bool" where
  "conns_kept s t \<longleftrightarrow> dom (conns t) = dom (conns s) \<and>
     (\<forall>a c. conns s a = Some c \<longrightarrow> (\<exists>c'. conns t a = Some c' \<and> kept c c'))"

definition closed_kept :: "('u, 'z) net_scheme \<Rightarrow> ('u, 'z) net_scheme \<Rightarrow> bool" where
  "closed_kept s t \<longleftrightarrow>
     (\<forall>a c ch. conns s a = Some c \<and> conn_state c = Disconnected \<and> chans s (conn_channel c) = Some ch \<longrightarrow>
        (\<exists>ch'. chans t (conn_channel c) = Some ch' \<and> ch_events ch' = ch_events ch))"

definition queues_completes :: "('u, 'z) net_scheme \<Rightarrow> ('u, 'z) net_scheme \<Rightarrow> bool" where
  "queues_completes s t \<longleftrightarrow>
     (\<exists>fs. pending_functors t = pending_functors s @ fs \<and> (\<forall>f \<in> set fs. completes s f))"

definition evolves :: "('u, 'z) net_scheme \<Rightarrow> ('u, 'z) net_scheme \<Rightarrow> bool" where
  "evolves s t \<longleftrightarrow>
     net.more t = net.more s \<and> thread_id t = thread_id s \<and> registered t = registered s \<and> same_chans s t \<and>
     conns_kept s t \<and> closed_kept s t \<and> queues_completes s t"

definition ok_step :: "('u, 'z) net_scheme \<Rightarrow> ('u, 'z) net_scheme \<Rightarrow> bool" where
  "ok_step s t \<longleftrightarrow> loop_inv t \<and> buffers_ok t \<and> evolves s t \<and> (timers_ok s \<longrightarrow> timers_ok t)"

lemma evolvesD:
  assumes "evolves s t"
  shows "net.more t = net.more s" "thread_id t = thread_id s" "registered t = registered s" "same_chans s t"
    "conns_kept s t" "closed_kept s t" "queues_completes s t"
  using assms by (simp_all add: evolves_def)

lemma kept_conn: "conns_kept s t \<Longrightarrow> conns s a = Some c \<Longrightarrow> \<exists>c'. conns t a = Some c' \<and> kept c c'"
  unfolding conns_kept_def by blast

lemma kept_conn_back:
  assumes "conns_kept s t" and "conns t a = Some c'"
  shows "\<exists>c. conns s a = Some c \<and> kept c c'"
proof -
  have "a \<in> dom (conns s)" using assms unfolding conns_kept_def by blast
  then obtain c where "conns s a = Some c" by blast
  with kept_conn [OF assms(1) this] assms(2) show ?thesis by auto
qed

lemma conns_kept_eq: "conns t = conns s \<Longrightarrow> conns_kept s t"
  unfolding conns_kept_def by (metis kept_refl)

lemma conns_kept_trans:
  assumes "conns_kept s t" and "conns_kept t u"
  shows "conns_kept s u"
  unfolding conns_kept_def
proof (intro conjI allI impI)
  show "dom (conns u) = dom (conns s)" using assms unfolding conns_kept_def by blast
  fix a c assume "conns s a = Some c"
  from kept_conn [OF assms(1) this] obtain d where d: "conns t a = Some d" "kept c d" by blast
  from kept_conn [OF assms(2) d(1)] d(2) kept_trans show "\<exists>c'. conns u a = Some c' \<and> kept c c'" by blast
qed

lemma closed_keptD:
  "closed_kept s t \<Longrightarrow> conns s a = Some c \<Longrightarrow> conn_state c = Disconnected \<Longrightarrow> chans s (conn_channel c) = Some ch \<Longrightarrow>
   \<exists>ch'. chans t (conn_channel c) = Some ch' \<and> ch_events ch' = ch_events ch"
  unfolding closed_kept_def by blast

lemma closed_kept_eq: "chans t = chans s \<Longrightarrow> closed_kept s t"
  unfolding closed_kept_def by auto

lemma closed_kept_trans:
  assumes "conns_kept s t" and "closed_kept s t" and "closed_kept t u"
  shows "closed_kept s u"
  unfolding closed_kept_def
proof (intro allI impI, elim conjE)
  fix a c ch assume c: "conns s a = Some c" "conn_state c = Disconnected" "chans s (conn_channel c) = Some ch"
  from kept_conn [OF assms(1) c(1)] obtain d where d: "conns t a = Some d" "kept c d" by blast
  from closed_keptD [OF assms(2) c] obtain x where x: "chans t (conn_channel c) = Some x" "ch_events x = ch_events ch" by blast
  from closed_keptD [OF assms(3) d(1)] keptD(2,7) [OF d(2)] c(2) x
  show "\<exists>ch'. chans u (conn_channel c) = Some ch' \<and> ch_events ch' = ch_events ch" by auto
qed

lemma completes_back:
  assumes "completes t f" and "\<And>a c. conns t a = Some c \<Longrightarrow> \<exists>d. conns s a = Some d \<and> write_complete_callback d = write_complete_callback c"
  shows "completes s f"
  using assms(1) unfolding completes_def by (elim disjE exE conjE) (use assms(2) in fastforce)+

lemma completes_kept:
  assumes "conns_kept s t"
  shows "completes t f \<longleftrightarrow> completes s f"
proof
  assume "completes t f"
  then show "completes s f" by (rule completes_back) (use kept_conn_back [OF assms] keptD(6) in fastforce)
next
  assume "completes s f"
  then show "completes t f" by (rule completes_back) (use kept_conn [OF assms] keptD(6) in fastforce)
qed

lemma queues_nothing: "pending_functors t = pending_functors s \<Longrightarrow> queues_completes s t"
  unfolding queues_completes_def by (intro exI [of _ "[]"]) simp

lemma queues_completes_trans:
  assumes "conns_kept s t" and "queues_completes s t" and "queues_completes t u"
  shows "queues_completes s u"
proof -
  from assms obtain fs gs where f: "pending_functors t = pending_functors s @ fs" "\<forall>f \<in> set fs. completes s f"
      "pending_functors u = pending_functors t @ gs" "\<forall>f \<in> set gs. completes t f"
    unfolding queues_completes_def by blast
  then have "pending_functors u = pending_functors s @ (fs @ gs)" "\<forall>f \<in> set (fs @ gs). completes s f"
    using completes_kept [OF assms(1)] by auto
  then show ?thesis unfolding queues_completes_def by blast
qed

lemma evolves_trans:
  assumes "evolves s t" and "evolves t u"
  shows "evolves s u"
  using evolvesD [OF assms(1)] evolvesD [OF assms(2)]
    same_chans_trans [of s t u] conns_kept_trans [of s t u] closed_kept_trans [of s t u] queues_completes_trans [of s t u]
  by (simp add: evolves_def)

lemma ok_step_trans: "ok_step s t \<Longrightarrow> ok_step t u \<Longrightarrow> ok_step s u"
  unfolding ok_step_def using evolves_trans by blast

lemma ok_stepD:
  assumes "ok_step s t"
  shows "evolves s t" "net.more t = net.more s" "thread_id t = thread_id s" "registered t = registered s" "same_chans s t"
    "conns_kept s t" "closed_kept s t" "queues_completes s t" "loop_inv t" "buffers_ok t" "timers_ok s \<Longrightarrow> timers_ok t"
  using assms by (simp_all add: ok_step_def evolves_def)

lemma net_ok_buffers: "net_ok X s \<Longrightarrow> buffers_ok s"
  unfolding net_ok_def buffers_ok_def conn_fit_def by blast

text \<open>Such a step keeps the connections in order.\<close>

lemma net_ok_step:
  assumes ok: "net_ok X s" and step: "ok_step s t"
  shows "net_ok X t"
  unfolding net_ok_def
proof (intro conjI allI impI)
  show "loop_inv t" using step by (simp add: ok_step_def)
  show "timers_ok t" using ok ok_stepD(11) [OF step] by (simp add: net_ok_def)
  fix a c' assume c': "conns t a = Some c'"
  from kept_conn_back [OF ok_stepD(6) [OF step] c'] obtain c where c: "conns s a = Some c" "kept c c'" by blast
  note k = keptD [OF c(2)]
  have fit: "conn_fit X s a c" using ok c(1) by (simp add: net_ok_def)
  then obtain ch where ch: "chans s (conn_channel c) = Some ch" "owner_loop ch = this_loop" "conn_callbacks a ch"
    and st: "if a \<in> X then conn_state c = Disconnected \<and> is_none_event ch \<and> registered s (ch_fd ch) = Some (conn_channel c)
         else if registered s (ch_fd ch) = Some (conn_channel c)
         then conn_state c = Connected \<or> conn_state c = Disconnecting else conn_state c = Disconnected"
    unfolding conn_fit_def by blast
  from same_chansD [OF ok_stepD(5) [OF step] ch(1)] obtain y where y: "chans t (conn_channel c) = Some y" "same_chan ch y" by blast
  have "is_none_event y" if "conn_state c = Disconnected" "is_none_event ch"
    using closed_keptD [OF ok_stepD(7) [OF step] c(1) that(1) ch(1)] that(2) y(1) by (simp add: is_none_event_def)
  then have "if a \<in> X then conn_state c' = Disconnected \<and> is_none_event y \<and> registered t (ch_fd y) = Some (conn_channel c')
         else if registered t (ch_fd y) = Some (conn_channel c')
         then conn_state c' = Connected \<or> conn_state c' = Disconnecting else conn_state c' = Disconnected"
    using st k(2,7,8) y(2) ok_stepD(4) [OF step] by (auto simp: same_chan_def split: if_splits)
  moreover have "owner_loop y = this_loop" "conn_callbacks a y"
    using y(2) ch(2,3) conn_callbacks_same [OF y(2)] by (auto simp: same_chan_def)
  moreover have "buf_inv (input_buffer c')" "buf_inv (output_buffer c')"
    using ok_stepD(10) [OF step] c' unfolding buffers_ok_def by blast+
  ultimately show "conn_fit X t a c'" using fit k y(1) unfolding conn_fit_def by auto
qed

text \<open>Open connections.\<close>

lemma net_ok_open:
  assumes "net_ok X s" and "conns s a = Some c" and "conn_state c \<noteq> Disconnected"
  shows "\<exists>ch. chans s (conn_channel c) = Some ch \<and> owner_loop ch = this_loop \<and> conn_callbacks a ch \<and>
    registered s (ch_fd ch) = Some (conn_channel c) \<and> (conn_state c = Connected \<or> conn_state c = Disconnecting) \<and>
    bound s (conn_channel c) (ch_fd ch) \<and> a \<notin> X"
  using assms unfolding net_ok_def conn_fit_def bound_def by (metis (full_types))

lemma net_ok_conn:
  assumes "net_ok X s" and "conns s a = Some c"
  shows "\<exists>ch. chans s (conn_channel c) = Some ch \<and> conn_callbacks a ch" "buf_inv (input_buffer c)" "buf_inv (output_buffer c)"
    "connect_callback c \<noteq> None" "message_callback c \<noteq> None"
  using assms unfolding net_ok_def conn_fit_def by blast+

lemma net_ok_loop: "net_ok X s \<Longrightarrow> loop_inv s"
  by (simp add: net_ok_def)

lemma net_ok_timers: "net_ok X s \<Longrightarrow> timers_ok s"
  by (simp add: net_ok_def)

lemma conn_channel_inj:
  assumes "net_ok X s" and "conns s a = Some c" and "conns s b = Some d" and "conn_channel d = conn_channel c"
  shows "b = a"
  using net_ok_conn(1) [OF assms(1,2)] net_ok_conn(1) [OF assms(1,3)] assms(4) by (auto simp: conn_callbacks_def)


section \<open>Elementary steps\<close>

lemma ok_step_same:
  assumes "net_ok X s" and "chans t = chans s" "loop_poller t = loop_poller s" "reactor.more t = reactor.more s"
    "thread_id t = thread_id s" "queues_completes s t" "timers_ok t"
  shows "ok_step s t"
proof -
  have c: "conns t = conns s" by (rule conns_more [OF assms(4)])
  have "net.more t = net.more s" using assms(4) by (cases s; cases t) simp
  moreover have "loop_inv t" using loop_inv_agree [OF net_ok_loop [OF assms(1)] assms(3)] assms(2) by simp
  moreover have "buffers_ok t" using net_ok_buffers [OF assms(1)] c by (simp add: buffers_ok_def)
  ultimately show ?thesis
    using assms c by (simp add: ok_step_def evolves_def registered_def same_chans_eq conns_kept_eq closed_kept_eq)
qed

lemma ok_step_timers: "net_ok X s \<Longrightarrow> timer_frame s t \<Longrightarrow> timers_ok t \<Longrightarrow> ok_step s t"
  by (erule ok_step_same) (simp_all add: timer_frame_def queues_nothing)

lemma ok_step_calls: "net_ok X s \<Longrightarrow> calls_only s t \<Longrightarrow> ok_step s t"
  using timers_ok_cong [of t s] net_ok_timers [of X s]
  by (rule_tac ok_step_timers) (simp_all add: calls_onlyD timer_frame_def)

lemma ok_step_refl: "net_ok X s \<Longrightarrow> ok_step s s"
  by (erule ok_step_calls) simp

lemma ok_step_queue:
  assumes "net_ok X s" and "conns s a = Some c" and "write_complete_callback c \<noteq> None"
  shows "ok_step s (queue_in_loop os me (Conn_write_complete a) s)"
  using assms timers_ok_cong [of "queue_in_loop os me (Conn_write_complete a) s" s] net_ok_timers [OF assms(1)]
  by (intro ok_step_same) (auto simp: queues_completes_def completes_def)

lemma ok_step_queue_user: "net_ok X s \<Longrightarrow> ok_step s (queue_in_loop os me (User u) s)"
  using timers_ok_cong [of "queue_in_loop os me (User u) s" s] net_ok_timers [of X s]
  by (rule_tac ok_step_same) (auto simp: queues_completes_def completes_def)

lemma ok_step_put:
  assumes ok: "net_ok X s" and c: "conns s a = Some c" and c': "kept c c'" "buf_inv (input_buffer c')" "buf_inv (output_buffer c')"
  shows "ok_step s (put_conn a c' s)"
proof -
  have "conns_kept s (put_conn a c' s)" unfolding conns_kept_def using c c'(1) by auto
  moreover have "buffers_ok (put_conn a c' s)"
    using net_ok_buffers [OF ok] c'(2,3) unfolding buffers_ok_def by simp
  moreover have "net.more (put_conn a c' s) = net.more s" by (simp add: put_conn_def)
  moreover have "timers_ok (put_conn a c' s) = timers_ok s" by (rule timers_ok_cong) (simp_all add: put_conn_def)
  ultimately show ?thesis
    using net_ok_loop [OF ok] by (simp add: ok_step_def evolves_def same_chans_eq closed_kept_eq queues_nothing)
qed

text \<open>Changing the events of an open connection.\<close>

lemma ok_step_channel:
  assumes ok: "net_ok X s" and c: "conns s a = Some c" "conn_state c \<noteq> Disconnected"
  shows "\<exists>t. channel_change os me op (conn_channel c) s = Inr t \<and> ok_step s t \<and> conns t = conns s"
proof -
  from net_ok_open [OF ok c] obtain ch where ch: "chans s (conn_channel c) = Some ch" "owner_loop ch = this_loop"
    "registered s (ch_fd ch) = Some (conn_channel c)" "bound s (conn_channel c) (ch_fd ch)" by blast
  let ?x = "ch\<lparr>ch_events := change_events op (ch_events ch)\<rparr>"
  have "changeable op (conn_channel c) ch s" using ch by (simp add: changeable_def)
  from channel_change_ok [OF net_ok_loop [OF ok] ch(1) this, of os me] obtain t where
    t: "channel_change os me op (conn_channel c) s = Inr t" "loop_inv t" "registered t = (registered s)(ch_fd ch \<mapsto> conn_channel c)"
      "same_but_poller (put_chan (conn_channel c) ?x s) t" by blast
  note same = channel_change_same [OF t(1)]
  have conns: "conns t = conns s" by (rule conns_more [OF same_loopD(1) [OF same]])
  have "closed_kept s t"
    unfolding closed_kept_def
  proof (intro allI impI, elim conjE)
    fix b d x assume d: "conns s b = Some d" "conn_state d = Disconnected" "chans s (conn_channel d) = Some x"
    then have "b \<noteq> a" using c by auto
    then have "conn_channel d \<noteq> conn_channel c" using conn_channel_inj [OF ok c(1) d(1)] by blast
    with d(3) have "chans (put_chan (conn_channel c) ?x s) (conn_channel d) = Some x" by simp
    from same_but_poller_chan [OF t(4) this] show "\<exists>ch'. chans t (conn_channel d) = Some ch' \<and> ch_events ch' = ch_events x" by auto
  qed
  moreover have "same_chans s t" using same_but_poller_chans [OF t(4) ch(1)] by simp
  moreover have "net.more t = net.more s" using same_loopD(1) [OF same] by (cases s; cases t) simp
  moreover have "buffers_ok t" using net_ok_buffers [OF ok] conns by (simp add: buffers_ok_def)
  moreover have "registered t = registered s" using t(3) ch(3) by (simp add: fun_upd_idem)
  moreover have "timers_ok t = timers_ok s" by (rule timers_ok_cong [OF same_loopD(6,7) [OF same]])
  ultimately have "ok_step s t"
    using t(2) conns_kept_eq [OF conns] queues_nothing [OF same_loopD(3) [OF same]] same_loopD(2) [OF same]
    by (simp add: ok_step_def evolves_def)
  with t(1) conns show ?thesis by blast
qed

lemma ok_step_assert: "net_ok X s \<Longrightarrow> ok_step s (assert_in_loop_thread il s)"
  by (erule ok_step_calls) (simp add: assert_in_loop_thread_def)

section \<open>Writing\<close>

lemma issue_write_calls:
  assumes "issue_write os fd bytes s = (n, e, t)"
  shows "calls_only s t" "n \<le> int (length bytes)"
proof -
  have "calls_only s (s\<lparr>syscalls := syscalls s @ [Sys_write fd bytes]\<rparr>)"
    unfolding calls_only_def by (intro exI [of _ "[Sys_write fd bytes]"] exI [of _ "[]"]) simp
  then show "calls_only s t" "n \<le> int (length bytes)" using assms by (auto simp: issue_write_eq)
qed

lemma direct_write_safe:
  assumes ok: "net_ok X s" and c: "conns s a = Some c" and dw: "direct_write os me a c ch msg s = (n, t)"
  shows "0 \<le> n \<and> nat n \<le> length msg \<and> ok_step s t \<and> conns t = conns s"
proof (cases "\<not> is_writing ch \<and> readable_bytes (output_buffer c) = 0")
  case False
  then show ?thesis using dw ok_step_refl [OF ok] by (auto simp: direct_write_def)
next
  case True
  obtain m e s1 where w: "issue_write os (ch_fd ch) msg s = (m, e, s1)" by (metis surj_pair)
  note w' = issue_write_calls [OF w]
  have s1: "ok_step s s1" by (rule ok_step_calls [OF ok w'(1)])
  have c1: "conns s1 = conns s" by (rule calls_only_conns [OF w'(1)])
  note ok1 = net_ok_step [OF ok s1]
  consider "n = 0" "calls_only s1 t" | "n = m" "0 \<le> m" "t = s1"
    | "n = m" "0 \<le> m" "write_complete_callback c \<noteq> None" "t = queue_in_loop os me (Conn_write_complete a) s1"
    using dw True w by (auto simp: direct_write_def split: if_splits)
  then show ?thesis
  proof cases
    case 1
    then show ?thesis using ok_step_trans [OF s1 ok_step_calls [OF ok1 1(2)]] calls_only_conns [OF 1(2)] c1 by simp
  next
    case 2
    then show ?thesis using s1 c1 w'(2) by (simp add: nat_le_iff)
  next
    case 3
    have "ok_step s1 t" unfolding 3(4) using ok_step_queue [OF ok1 _ 3(3)] c c1 by simp
    then show ?thesis using 3 ok_step_trans [OF s1] c1 w'(2) by (simp add: nat_le_iff)
  qed
qed

lemma send_in_loop_safe:
  assumes ok: "net_ok X s" and c: "conns s a = Some c" "conn_state c \<noteq> Disconnected" and len: "length msg \<le> max_size"
  shows "length_safe (ok_step s) (send_in_loop os me a msg s)"
proof -
  let ?s0 = "assert_in_loop_thread (is_in_loop_thread me s) s"
  from net_ok_open [OF ok c] obtain ch where ch: "chans s (conn_channel c) = Some ch" by blast
  obtain n s1 where dw: "direct_write os me a c ch msg ?s0 = (n, s1)" by fastforce
  have s0: "ok_step s ?s0" by (rule ok_step_assert [OF ok])
  from direct_write_safe [OF net_ok_step [OF ok s0] _ dw] c(1) have
    d: "0 \<le> n" "nat n \<le> length msg" "ok_step ?s0 s1" "conns s1 = conns s" by simp_all
  note s1 = ok_step_trans [OF s0 d(3)]
  note ok1 = net_ok_step [OF ok s1]
  have c1: "conns s1 a = Some c" using c(1) d(4) by simp
  show ?thesis
  proof (cases "nat n < length msg")
    case False
    then have "send_in_loop os me a msg s = Inr s1"
      using c(1) ch dw d(1) by (simp add: send_in_loop_def Let_def conn_of_def heap_simps)
    with s1 show ?thesis by simp
  next
    case True
    let ?m = "drop (nat n) msg" and ?l = "word_of_nat (length msg - nat n) :: size_t"
    have "length msg - nat n < 2 ^ 64" using len by (simp add: max_size_def)
    then have l: "unat ?l = length ?m" by (simp add: unat_of_nat_no_wrap)
    have run: "send_in_loop os me a msg s = andthen (append_data ?m ?l (output_buffer c)) (\<lambda>b.
        if \<not> is_writing ch then channel_change os me Enable_writing (conn_channel c) (put_conn a (c\<lparr>output_buffer := b\<rparr>) s1)
        else Inr (put_conn a (c\<lparr>output_buffer := b\<rparr>) s1))"
      using c(1) ch dw d(1) True by (simp add: send_in_loop_def Let_def conn_of_def heap_simps)
    have "length_safe buf_inv (append_data ?m ?l (output_buffer c))"
      using net_ok_conn(3) [OF ok c(1)] l len by (intro append_data_safe) simp_all
    then show ?thesis unfolding run
    proof (rule length_safe_andthen)
      fix b assume b: "buf_inv b"
      let ?c = "c\<lparr>output_buffer := b\<rparr>" and ?s2 = "put_conn a (c\<lparr>output_buffer := b\<rparr>) s1"
      have s2: "ok_step s1 ?s2" using ok_step_put [OF ok1 c1, of ?c] net_ok_conn(2) [OF ok c(1)] b by simp
      have "conns ?s2 a = Some ?c" "conn_state ?c \<noteq> Disconnected" using c(2) by simp_all
      from ok_step_channel [OF net_ok_step [OF ok1 s2] this, of os me Enable_writing] obtain t where
        "channel_change os me Enable_writing (conn_channel c) ?s2 = Inr t" "ok_step ?s2 t" by auto
      with ok_step_trans [OF s1 s2] ok_step_trans
      show "length_safe (ok_step s) (if \<not> is_writing ch then channel_change os me Enable_writing (conn_channel c) ?s2 else Inr ?s2)"
        by auto
    qed
  qed
qed

lemma shutdown_in_loop_safe:
  assumes ok: "net_ok X s" and c: "conns s a = Some c"
  shows "\<exists>t. shutdown_in_loop os me a s = Inr t \<and> ok_step s t \<and> conns t = conns s"
proof -
  let ?s0 = "assert_in_loop_thread (is_in_loop_thread me s) s"
  from net_ok_conn(1) [OF ok c] obtain ch where ch: "chans s (conn_channel c) = Some ch" by blast
  have s0: "ok_step s ?s0" by (rule ok_step_assert [OF ok])
  have cs: "calls_only ?s0 (shutdownWrite os (ch_fd ch) ?s0)" by (rule socket_calls_only)
  have "ok_step s (shutdownWrite os (ch_fd ch) ?s0)"
    by (rule ok_step_trans [OF s0 ok_step_calls [OF net_ok_step [OF ok s0] cs]])
  then show ?thesis using c ch s0 calls_only_conns [OF cs]
    by (simp add: shutdown_in_loop_def shutdown_write_def Let_def conn_of_def heap_simps)
qed

lemma write_drained_safe:
  assumes ok: "net_ok X s" and c: "conns s a = Some c" "conn_state c \<noteq> Disconnected"
    and c0: "conn_channel c0 = conn_channel c" "write_complete_callback c0 = write_complete_callback c"
  shows "\<exists>t. write_drained os me a c0 s = Inr t \<and> ok_step s t"
proof -
  from ok_step_channel [OF ok c, of os me Disable_writing] obtain s3 where
    s3: "channel_change os me Disable_writing (conn_channel c) s = Inr s3" "ok_step s s3" "conns s3 = conns s" by blast
  note ok3 = net_ok_step [OF ok s3(2)]
  let ?s4 = "if write_complete_callback c \<noteq> None then queue_in_loop os me (Conn_write_complete a) s3 else s3"
  have s4: "ok_step s3 ?s4" using ok_step_queue [OF ok3] ok_step_refl [OF ok3] c(1) s3(3) by simp
  have "conns ?s4 a = Some c" using c(1) s3(3) by simp
  from shutdown_in_loop_safe [OF net_ok_step [OF ok3 s4] this, of os me] obtain t where
    "shutdown_in_loop os me a ?s4 = Inr t" "ok_step ?s4 t" by blast
  then show ?thesis using s3(1) c0 ok_step_trans [OF s3(2) s4] ok_step_trans
    by (auto simp: write_drained_def Let_def)
qed

lemma conn_handle_write_safe:
  assumes ok: "net_ok X s" and c: "conns s a = Some c" "conn_state c \<noteq> Disconnected"
  shows "\<exists>t. conn_handle_write os me a s = Inr t \<and> ok_step s t"
proof -
  let ?s0 = "assert_in_loop_thread (is_in_loop_thread me s) s" and ?b = "output_buffer c"
  from net_ok_open [OF ok c] obtain ch where ch: "chans s (conn_channel c) = Some ch" by blast
  note inv = net_ok_conn(3) [OF ok c(1)]
  have s0: "ok_step s ?s0" by (rule ok_step_assert [OF ok])
  obtain n e s1 where w: "issue_write os (ch_fd ch) (content ?b) ?s0 = (n, e, s1)" by (metis surj_pair)
  note w' = issue_write_calls [OF w]
  have s1: "ok_step s s1" by (rule ok_step_trans [OF s0 ok_step_calls [OF net_ok_step [OF ok s0] w'(1)]])
  note ok1 = net_ok_step [OF ok s1]
  have c1: "conns s1 a = Some c" using calls_only_conns [OF w'(1)] c(1) by simp
  consider "\<not> is_writing ch" | "is_writing ch" "n \<le> 0" | "is_writing ch" "0 < n" by linarith
  then show ?thesis
  proof cases
    case 1
    then show ?thesis using c(1) ch s0 by (simp add: conn_handle_write_def Let_def conn_of_def heap_simps)
  next
    case 2
    then have "conn_handle_write os me a s = Inr (log_to LOG_SYSERR s1)"
      using c(1) ch w by (simp add: conn_handle_write_def Let_def conn_of_def heap_simps readable_subrange [OF inv])
    then show ?thesis using ok_step_trans [OF s1 ok_step_calls [OF ok1]] by simp
  next
    case 3
    have "unat (word_of_int n :: size_t) = nat n"
      using 3(2) w'(2) content_less [OF inv] by (intro unat_word_of_int_small) simp_all
    with retrieve_ok [OF inv, of "word_of_int n"] w'(2) 3(2) obtain b where
      b: "retrieve (word_of_int n) ?b = Inr b" "buf_inv b" by (auto simp: nat_le_iff)
    let ?c = "c\<lparr>output_buffer := b\<rparr>" and ?s2 = "put_conn a (c\<lparr>output_buffer := b\<rparr>) s1"
    have s2: "ok_step s1 ?s2" using ok_step_put [OF ok1 c1, of ?c] net_ok_conn(2) [OF ok c(1)] b(2) by simp
    from write_drained_safe [OF net_ok_step [OF ok1 s2], of a ?c c os me] c(2) obtain t where
      t: "write_drained os me a c ?s2 = Inr t" "ok_step ?s2 t" by auto
    have "conn_handle_write os me a s = (if readable_bytes b = 0 then write_drained os me a c ?s2 else Inr ?s2)"
      using c(1) ch w 3 b(1) by (simp add: conn_handle_write_def Let_def conn_of_def heap_simps readable_subrange [OF inv])
    then show ?thesis using t ok_step_trans [OF s1 s2] ok_step_trans by (cases "readable_bytes b = 0") auto
  qed
qed

lemma conn_handle_error_safe:
  assumes ok: "net_ok X s" and c: "conns s a = Some c"
  shows "\<exists>t. conn_handle_error os a s = Inr t \<and> ok_step s t \<and> conns t = conns s \<and> length (syscalls t) = Suc (length (syscalls s))"
proof -
  from net_ok_conn(1) [OF ok c] obtain ch where ch: "chans s (conn_channel c) = Some ch" by blast
  let ?t = "log_to LOG_ERROR (snd (getSocketError os (ch_fd ch) s))"
  have cs: "calls_only s ?t" by (rule calls_only_log_iff [OF socket_calls_only(5)])
  moreover have "length (syscalls ?t) = Suc (length (syscalls s))"
    by (simp add: getSocketError_def issue_errno_def issue_def log_to_def Let_def case_prod_beta)
  ultimately show ?thesis using ok_step_calls [OF ok cs] calls_only_conns [OF cs] c ch
    by (simp add: conn_handle_error_def conn_of_def heap_simps)
qed

section \<open>Applications\<close>

text \<open>
  What an application can do: with a connection it was handed, send, shut down its side, switch
  Nagle's algorithm off, and take all input that has arrived; with the loop, set timers, which run code of its own, and cancel
  them, and queue code of its own.  The address of a new timer is part of the operation.
\<close>

datatype 'u app_op =
    App_send addr string
  | App_shutdown addr
  | App_no_delay addr bool
  | App_take addr
  | App_run_after addr real 'u
  | App_run_every addr real 'u
  | App_cancel "addr option"
  | App_queue 'u

fun app_exec :: "os \<Rightarrow> nat \<Rightarrow> 'u app_op \<Rightarrow> ('u, 'z) net_scheme \<Rightarrow> ('u, 'z) net_scheme res" where
  "app_exec os me (App_send a msg) s = send os me a msg s"
| "app_exec os me (App_shutdown a) s = total_shutdown os me a s"
| "app_exec os me (App_no_delay a on) s = set_tcp_no_delay os a on s"
| "app_exec os me (App_take a) s =
     andthen (conn_of a s) (\<lambda>c. andthen (retrieve_as_string (input_buffer c)) (\<lambda>(str, b).
       Inr (put_conn a (c\<lparr>input_buffer := b\<rparr>) s)))"
| "app_exec os me (App_run_after ta d u) s = andthen (run_after os me ta d (User u) s) (\<lambda>(i, t). Inr t)"
| "app_exec os me (App_run_every ta d u) s = andthen (run_every os me ta d (User u) s) (\<lambda>(i, t). Inr t)"
| "app_exec os me (App_cancel i) s = loop_cancel os me i s"
| "app_exec os me (App_queue u) s = Inr (queue_in_loop os me (User u) s)"

text \<open>
  An application is a script: for each of its callbacks, the operations it performs,
  decided from the state it is called in; likewise for its timers and the functors it queues.
\<close>

datatype app_event = On_connection | On_message timestamp | On_write_complete

type_synonym ('u, 's) script = "app_event \<Rightarrow> 'u \<Rightarrow> addr \<Rightarrow> 's \<Rightarrow> 'u app_op list"

definition scripted :: "os \<Rightarrow> nat \<Rightarrow> ('u, ('u, 'z) net_scheme) script \<Rightarrow> ('u, ('u, 'z) net_scheme) app" where
  "scripted os me f =
     \<lparr>on_connection = (\<lambda>u a s. fold_res (app_exec os me) (f On_connection u a s) s),
      on_message = (\<lambda>u a t s. fold_res (app_exec os me) (f (On_message t) u a s) s),
      on_write_complete = (\<lambda>u a s. fold_res (app_exec os me) (f On_write_complete u a s) s),
      on_close = (\<lambda>act a s. Inr s)\<rparr>"

definition timer_code ::
  "os \<Rightarrow> nat \<Rightarrow> ('u \<Rightarrow> ('u, 'z) net_scheme \<Rightarrow> 'u app_op list) \<Rightarrow> 'u closure \<Rightarrow> ('u, 'z) net_scheme \<Rightarrow> ('u, 'z) net_scheme res" where
  "timer_code os me g cl s = (case cl of User u \<Rightarrow> fold_res (app_exec os me) (g u s) s | _ \<Rightarrow> Inr s)"

text \<open>
  The application uses connections it has a pointer to, messages that fit into memory and delays of up to 2000 seconds; new
  timers get memory that is not in use.
\<close>

fun proper_op :: "('u, 'z) net_scheme \<Rightarrow> 'u app_op \<Rightarrow> bool" where
  "proper_op s (App_send a msg) \<longleftrightarrow> conns s a \<noteq> None \<and> length msg \<le> max_size"
| "proper_op s (App_shutdown a) \<longleftrightarrow> conns s a \<noteq> None"
| "proper_op s (App_no_delay a on) \<longleftrightarrow> conns s a \<noteq> None"
| "proper_op s (App_take a) \<longleftrightarrow> conns s a \<noteq> None"
| "proper_op s (App_run_after ta d u) \<longleftrightarrow> timer_heap s ta = None \<and> 0 \<le> d \<and> d \<le> 2000"
| "proper_op s (App_run_every ta d u) \<longleftrightarrow> timer_heap s ta = None \<and> 0 \<le> d \<and> d \<le> 2000"
| "proper_op s (App_cancel i) \<longleftrightarrow> True"
| "proper_op s (App_queue u) \<longleftrightarrow> True"

fun new_timers :: "'u app_op \<Rightarrow> addr list" where
  "new_timers (App_run_after ta d u) = [ta]"
| "new_timers (App_run_every ta d u) = [ta]"
| "new_timers op = []"

definition proper_ops :: "('u, 'z) net_scheme \<Rightarrow> 'u app_op list \<Rightarrow> bool" where
  "proper_ops s ops \<longleftrightarrow> list_all (proper_op s) ops \<and> distinct (concat (map new_timers ops))"

definition proper_script :: "('u, ('u, 'z) net_scheme) script \<Rightarrow> bool" where
  "proper_script f \<longleftrightarrow> (\<forall>e u a s. conns s a \<noteq> None \<longrightarrow> proper_ops s (f e u a s))"

definition proper_timers :: "('u \<Rightarrow> ('u, 'z) net_scheme \<Rightarrow> 'u app_op list) \<Rightarrow> bool" where
  "proper_timers g \<longleftrightarrow> (\<forall>u s. proper_ops s (g u s))"

lemma proper_op_kept:
  assumes "conns_kept s t" and "proper_op s op" and "\<And>a. a \<in> set (new_timers op) \<Longrightarrow> timer_heap s a = None \<Longrightarrow> timer_heap t a = None"
  shows "proper_op t op"
  using assms(2,3) kept_conn [OF assms(1)] by (cases op) (fastforce simp del: not_None_eq)+

lemma send_safe:
  assumes ok: "net_ok X s" and c: "conns s a = Some c" and me: "thread_id s = me" and len: "length msg \<le> max_size"
  shows "length_safe (ok_step s) (send os me a msg s)"
  using send_in_loop_safe [OF ok c _ len, of os me] ok_step_refl [OF ok] c me
  by (cases "conn_state c = Connected") (simp_all add: send_def conn_of_def is_in_loop_thread_def)

lemma total_shutdown_safe:
  assumes ok: "net_ok X s" and c: "conns s a = Some c" and me: "thread_id s = me"
  shows "\<exists>t. total_shutdown os me a s = Inr t \<and> ok_step s t"
proof (cases "conn_state c = Connected")
  case True
  let ?c = "c\<lparr>conn_state := Disconnecting\<rparr>"
  have k: "kept c ?c" using True by (simp add: kept_def)
  have s1: "ok_step s (put_conn a ?c s)" using ok_step_put [OF ok c k] net_ok_conn(2,3) [OF ok c] by simp
  from shutdown_in_loop_safe [OF net_ok_step [OF ok s1], of a ?c os me] obtain t where
    "shutdown_in_loop os me a (put_conn a ?c s) = Inr t" "ok_step (put_conn a ?c s) t" by auto
  then show ?thesis using True c me ok_step_trans [OF s1]
    by (simp add: total_shutdown_def shutdown_eq [of 0, simplified] run_in_loop_def is_in_loop_thread_def)
next
  case False
  then show ?thesis using c ok_step_refl [OF ok]
    by (simp add: total_shutdown_def shutdown_eq [of 0, simplified])
qed

lemma timers_app_safe:
  assumes ok: "net_ok X s" and me: "thread_id s = me" and rnd: "ieee_rounding (os_round os)"
  shows "timer_heap s ta = None \<Longrightarrow> 0 \<le> d \<Longrightarrow> d \<le> 2000 \<Longrightarrow> \<exists>t. app_exec os me (App_run_after ta d u) s = Inr t \<and>
      ok_step s t \<and> timers_grow s t \<and> dom (timer_heap t) = insert ta (dom (timer_heap s))"
    and "timer_heap s ta = None \<Longrightarrow> 0 \<le> d \<Longrightarrow> d \<le> 2000 \<Longrightarrow> \<exists>t. app_exec os me (App_run_every ta d u) s = Inr t \<and>
      ok_step s t \<and> timers_grow s t \<and> dom (timer_heap t) = insert ta (dom (timer_heap s))"
    and "\<exists>t. app_exec os me (App_cancel i) s = Inr t \<and> ok_step s t \<and> timers_grow s t \<and> timer_heap t = timer_heap s"
  using run_after_safe [OF net_ok_timers [OF ok] me _ rnd, of ta d u] loop_cancel_safe [OF net_ok_timers [OF ok] me, of os i]
    ok_step_timers [OF ok] by fastforce+

text \<open>Operations on connections leave the timers alone.\<close>

lemma same_timers_calls: "calls_only s t \<Longrightarrow> same_timers s t"
  by (simp add: same_timers_def calls_onlyD)

lemma same_timers_channel:
  assumes "channel_change os me op b s = Inr t"
  shows "same_timers s t"
  using same_loopD(6,7) [OF channel_change_same [OF assms]] by (simp add: same_timers_def)

lemma same_timers_frame [simp]:
  "same_timers s (put_conn a c t) = same_timers s t" "same_timers (put_conn a c s) t = same_timers s t"
  "same_timers s (assert_in_loop_thread il t) = same_timers s t" "same_timers (assert_in_loop_thread il s) t = same_timers s t"
  "same_timers s (queue_in_loop os me f t) = same_timers s t" "same_timers s (log_to l t) = same_timers s t"
  "same_timers s (shutdown_write os fd t) = same_timers s t"
  using calls_onlyD(6,7) [OF socket_calls_only(2) [of t os fd]] by (simp_all add: same_timers_def put_conn_def log_to_def shutdown_write_def)

lemma direct_write_timers:
  assumes "direct_write os me a c ch msg s = (n, t)"
  shows "same_timers s t"
proof -
  obtain m e s1 where w: "issue_write os (ch_fd ch) msg s = (m, e, s1)" by (metis surj_pair)
  show ?thesis using assms w same_timers_calls [OF issue_write_calls(1) [OF w]]
    by (auto simp: direct_write_def split: if_splits)
qed

lemma send_in_loop_timers:
  assumes "send_in_loop os me a msg s = Inr t"
  shows "same_timers s t"
proof -
  let ?s0 = "assert_in_loop_thread (is_in_loop_thread me s) s"
  from assms obtain c ch where c: "conns s a = Some c" "chans s (conn_channel c) = Some ch"
    by (auto simp: send_in_loop_def Let_def conn_of_def deref_def split: option.splits)
  obtain n s1 where dw: "direct_write os me a c ch msg ?s0 = (n, s1)" by fastforce
  have s1: "same_timers s s1" using direct_write_timers [OF dw] by simp
  let ?put = "\<lambda>b. put_conn a (c\<lparr>output_buffer := b\<rparr>) s1"
  have run: "send_in_loop os me a msg s = cpp_assert (n \<ge> 0) (if nat n < length msg then
      andthen (append_data (drop (nat n) msg) (word_of_nat (length msg - nat n)) (output_buffer c)) (\<lambda>b.
        if \<not> is_writing ch then channel_change os me Enable_writing (conn_channel c) (?put b) else Inr (?put b))
      else Inr s1)"
    using c dw by (simp add: send_in_loop_def Let_def conn_of_def heap_simps)
  show ?thesis
  proof (cases "nat n < length msg")
    case True
    then obtain b where "(if \<not> is_writing ch then channel_change os me Enable_writing (conn_channel c) (?put b) else Inr (?put b)) = Inr t"
      using assms unfolding run by (simp only: cpp_assert_eq_Inr andthen_eq_Inr if_True) blast
    then have "same_timers (?put b) t" using same_timers_channel [of os me Enable_writing "conn_channel c" "?put b" t]
      by (cases "is_writing ch") auto
    then show ?thesis using same_timers_trans [OF s1] by simp
  next
    case False
    then show ?thesis using assms s1 unfolding run by (simp only: cpp_assert_eq_Inr if_False sum.inject)
  qed
qed

lemma timers_ok_put [simp]:
  "timers_ok (put_conn a c s) = timers_ok s" "timers_ok (assert_in_loop_thread il s) = timers_ok s"
  by (intro timers_ok_cong; simp)+

lemma app_exec_timers:
  assumes "app_exec os me op s = Inr t" and "thread_id s = me" and "new_timers op = []" and "\<And>i. op \<noteq> App_cancel i"
  shows "same_timers s t"
proof (cases op)
  case (App_send a msg)
  then show ?thesis using assms(1,2) send_in_loop_timers
    by (auto simp: send_def is_in_loop_thread_def conn_of_def split: option.splits if_splits)
next
  case (App_shutdown a)
  then show ?thesis using assms(1,2)
    by (auto simp: total_shutdown_def shutdown_eq [of 0, simplified] run_in_loop_def is_in_loop_thread_def shutdown_in_loop_def Let_def
        split: option.splits if_splits)
next
  case (App_no_delay a on)
  then show ?thesis using assms(1) by (auto simp: set_tcp_no_delay_def set_no_delay_def intro!: same_timers_calls)
qed (use assms in auto)

lemma app_exec_ok_step:
  assumes ok: "net_ok X s" and me: "thread_id s = me" and a: "conns s a = Some c"
  shows "length msg \<le> max_size \<Longrightarrow> length_safe (ok_step s) (app_exec os me (App_send a msg) s)"
    "length_safe (ok_step s) (app_exec os me (App_shutdown a) s)"
    "length_safe (ok_step s) (app_exec os me (App_no_delay a on) s)"
    "length_safe (ok_step s) (app_exec os me (App_take a) s)"
proof -
  note inv = net_ok_conn(2,3) [OF ok a]
  show "length msg \<le> max_size \<Longrightarrow> length_safe (ok_step s) (app_exec os me (App_send a msg) s)"
    using send_safe [OF ok a me] by simp
  show "length_safe (ok_step s) (app_exec os me (App_shutdown a) s)" using total_shutdown_safe [OF ok a me, of os] by auto
  from net_ok_conn(1) [OF ok a] obtain ch where "chans s (conn_channel c) = Some ch" by blast
  then show "length_safe (ok_step s) (app_exec os me (App_no_delay a on) s)"
    using a ok_step_calls [OF ok] by (simp add: set_tcp_no_delay_def set_no_delay_def conn_of_def heap_simps)
  show "length_safe (ok_step s) (app_exec os me (App_take a) s)"
    using a inv ok_step_put [OF ok, of a c "c\<lparr>input_buffer := retrieve_all (input_buffer c)\<rparr>"]
    by (simp add: conn_of_def retrieve_as_string_eq retrieve_all_ok)
qed

lemma app_exec_safe:
  assumes ok: "net_ok X s" and p: "proper_op s op" and me: "thread_id s = me" and rnd: "ieee_rounding (os_round os)"
  shows "length_safe (\<lambda>t. ok_step s t \<and> timers_grow s t \<and> dom (timer_heap t) = set (new_timers op) \<union> dom (timer_heap s)) (app_exec os me op s)"
proof -
  have conn: ?thesis if "length_safe (ok_step s) (app_exec os me op s)" "new_timers op = []" "\<And>i. op \<noteq> App_cancel i"
    using that(1) app_exec_timers [OF _ me that(2,3), of os] that(2)
    by (cases "app_exec os me op s") (auto simp: same_timers_def intro: timers_grow_eq)
  note tm = timers_app_safe [OF ok me rnd]
  show ?thesis
  proof (cases op)
    case (App_run_after ta d u)
    then show ?thesis using tm(1) [of ta d u] p by (auto simp del: app_exec.simps)
  next
    case (App_run_every ta d u)
    then show ?thesis using tm(2) [of ta d u] p by (auto simp del: app_exec.simps)
  next
    case (App_cancel i)
    then show ?thesis using tm(3) [of i] by (auto simp del: app_exec.simps)
  next
    case (App_queue u)
    then show ?thesis using ok_step_queue_user [OF ok, of os me u] by (intro conn) simp_all
  qed (rule conn; use p app_exec_ok_step [OF ok me] in \<open>auto simp del: app_exec.simps\<close>)+
qed

lemma script_safe:
  assumes "net_ok X s" and "proper_ops s ops" and me: "thread_id s = me" and rnd: "ieee_rounding (os_round os)"
  shows "length_safe (\<lambda>t. ok_step s t \<and> timers_grow s t) (fold_res (app_exec os me) ops s)"
  using assms(1-3)
proof (induction ops arbitrary: s)
  case Nil
  then show ?case by (simp add: ok_step_refl timers_grow_eq)
next
  case (Cons op ops)
  have p: "proper_op s op" "list_all (proper_op s) ops" "distinct (concat (map new_timers ops))"
    "set (new_timers op) \<inter> set (concat (map new_timers ops)) = {}"
    using Cons.prems(2) by (simp_all add: proper_ops_def)
  have "length_safe (\<lambda>t. ok_step s t \<and> timers_grow s t \<and> dom (timer_heap t) = set (new_timers op) \<union> dom (timer_heap s)) (app_exec os me op s)"
    by (rule app_exec_safe [OF Cons.prems(1) p(1) Cons.prems(3) rnd])
  then have "length_safe (\<lambda>t. ok_step s t \<and> timers_grow s t) (andthen (app_exec os me op s) (fold_res (app_exec os me) ops))"
  proof (rule length_safe_andthen, elim conjE)
    fix t assume t: "ok_step s t" "timers_grow s t" and heap: "dom (timer_heap t) = set (new_timers op) \<union> dom (timer_heap s)"
    have "timer_heap t a = None" if "x \<in> set ops" "a \<in> set (new_timers x)" "timer_heap s a = None" for a x
      using heap p(4) that by (auto simp: domIff disjoint_iff)
    then have "list_all (proper_op t) ops"
      using p(2) proper_op_kept [OF ok_stepD(6) [OF t(1)]] by (auto simp: list_all_iff)
    then have "length_safe (\<lambda>u. ok_step t u \<and> timers_grow t u) (fold_res (app_exec os me) ops t)"
      using Cons.IH [OF net_ok_step [OF Cons.prems(1) t(1)]] p(3) Cons.prems(3) ok_stepD(3) [OF t(1)] by (simp add: proper_ops_def)
    then show "length_safe (\<lambda>t. ok_step s t \<and> timers_grow s t) (fold_res (app_exec os me) ops t)"
      by (rule length_safe_mono) (use ok_step_trans [OF t(1)] timers_grow_trans [OF t(2)] in blast)
  qed
  then show ?case by simp
qed

lemma scripted_safe:
  assumes "net_ok X s" and "proper_script f" and "conns s a = Some c" and "thread_id s = me" and "ieee_rounding (os_round os)"
  shows "length_safe (ok_step s) (on_connection (scripted os me f) u a s)"
    "length_safe (ok_step s) (on_message (scripted os me f) u a t s)"
    "length_safe (ok_step s) (on_write_complete (scripted os me f) u a s)"
proof -
  have "length_safe (ok_step s) (fold_res (app_exec os me) (f e u a s) s)" for e
    using script_safe [OF assms(1) _ assms(4,5), of "f e u a s"] assms(2,3) by (auto simp: proper_script_def elim: length_safe_mono)
  then show "length_safe (ok_step s) (on_connection (scripted os me f) u a s)"
    "length_safe (ok_step s) (on_message (scripted os me f) u a t s)"
    "length_safe (ok_step s) (on_write_complete (scripted os me f) u a s)" by (simp_all add: scripted_def)
qed

text \<open>The timer descriptor is readable: the callbacks of the expired timers run, and the timers are in order again.\<close>

lemma timer_expiration_safe:
  assumes ok: "net_ok X s" and me: "thread_id s = me" and g: "proper_timers g" and rnd: "ieee_rounding (os_round os)"
    and instant: "\<not> (\<exists>e \<in> set (timers s). same_key (time_now os s) e)"
  shows "length_safe (ok_step s) (timer_handle_read os me (timer_code os me g) s)"
proof -
  have "length_safe (\<lambda>t. ok_step s t \<and> timers_ok t) (timer_handle_read os me (timer_code os me g) s)"
    using net_ok_timers [OF ok] ok_step_refl [OF ok] rnd instant
  proof (rule timer_handle_read_safe)
    show "ok_step s u" if "ok_step s t" "timers_ok u" "timer_frame t u" for t u
      by (rule ok_step_trans [OF that(1) ok_step_timers [OF net_ok_step [OF ok that(1)] that(3,2)]])
    show "length_safe (\<lambda>u. ok_step s u \<and> timers_ok u \<and> timers_grow t u) (timer_code os me g (User x) t)"
      if t: "ok_step s t" "timers_ok t" for t x
    proof -
      have "length_safe (\<lambda>u. ok_step t u \<and> timers_grow t u) (timer_code os me g (User x) t)"
        using script_safe [OF net_ok_step [OF ok t(1)] _ _ rnd, of "g x t" me] g me ok_stepD(3) [OF t(1)]
        by (simp add: timer_code_def proper_timers_def)
      then show ?thesis
        by (rule length_safe_mono) (use ok_step_trans [OF t(1)] ok_stepD(11) t(2) in blast)
    qed
  qed
  then show ?thesis by (rule length_safe_mono) simp
qed

section \<open>Reading and closing\<close>

lemma conn_handle_close_safe:
  assumes ok: "net_ok X s" and c: "conns s a = Some c" "conn_state c \<noteq> Disconnected" and cb: "conn_close_callback c = Some cb"
  shows "\<exists>t. conn_handle_close app os me a s = on_close app cb a t \<and> ok_step s t \<and> conns t = conns s"
proof -
  let ?s0 = "assert_in_loop_thread (is_in_loop_thread me s) s"
  have s0: "ok_step s ?s0" by (rule ok_step_assert [OF ok])
  have c0: "conns ?s0 a = Some c" using c(1) by simp
  from ok_step_channel [OF net_ok_step [OF ok s0] c0 c(2), of os me Disable_all] obtain t where
    t: "channel_change os me Disable_all (conn_channel c) ?s0 = Inr t" "ok_step ?s0 t" "conns t = conns s" by auto
  from net_ok_open [OF ok c] have "conn_state c = Connected \<or> conn_state c = Disconnecting" by blast
  then show ?thesis using c cb t ok_step_trans [OF s0 t(2)]
    by (intro exI [of _ t]) (simp add: conn_handle_close_def Let_def conn_of_def invoke_def)
qed

text \<open>A readable connection: its message callback is called, it is closed, or an error is logged.\<close>

lemma conn_handle_read_safe:
  assumes ok: "net_ok X s" and c: "conns s a = Some c" and me: "thread_id s = me"
    and fits: "readv_fits (os_readv os (length (syscalls s))) (input_buffer c)"
    and app: "on_message app = on_message (scripted os me f)" "proper_script f" "ieee_rounding (os_round os)"
    and step: "\<And>t. ok_step s t \<Longrightarrow> Q t"
    and close: "\<And>t. ok_step s t \<Longrightarrow> length_safe Q (conn_handle_close app os me a t)"
  shows "length_safe Q (conn_handle_read app os me a tm s)"
proof -
  from net_ok_conn(1) [OF ok c] obtain ch where ch: "chans s (conn_channel c) = Some ch" by blast
  let ?s0 = "snd (issue os (Sys_readv (ch_fd ch)) s)"
  have cs: "calls_only s ?s0" by simp
  note s0 = ok_step_calls [OF ok cs]
  have c0: "conns ?s0 a = Some c" using c calls_only_conns [OF cs] by simp
  have run: "conn_handle_read app os me a tm s =
      andthen (read_fd (os_readv os (length (syscalls s))) (input_buffer c)) (\<lambda>(n, saved_errno, b).
        let s1 = put_conn a (c\<lparr>input_buffer := b\<rparr>) ?s0 in
        if n > 0 then invoke (message_callback c) (\<lambda>cb. on_message app cb a tm) s1
        else if n = 0 then conn_handle_close app os me a s1
        else conn_handle_error os a (log_to LOG_SYSERR s1))"
    using c ch by (simp add: conn_handle_read_def conn_of_def heap_simps)
  have "length_safe (\<lambda>(n, e, b). buf_inv b) (read_fd (os_readv os (length (syscalls s))) (input_buffer c))"
    by (rule read_fd_safe [OF net_ok_conn(2) [OF ok c] fits])
  then show ?thesis unfolding run
  proof (rule length_safe_andthen)
    fix r :: "int \<times> int option \<times> buffer" assume r: "case r of (n, e, b) \<Rightarrow> buf_inv b"
    obtain n e b where nb: "r = (n, e, b)" by (cases r)
    let ?c = "c\<lparr>input_buffer := b\<rparr>" and ?s1 = "put_conn a (c\<lparr>input_buffer := b\<rparr>) ?s0"
    have "ok_step ?s0 ?s1" using ok_step_put [OF net_ok_step [OF ok s0] c0, of ?c] net_ok_conn(3) [OF ok c] r nb by simp
    note s1 = ok_step_trans [OF s0 this]
    note ok1 = net_ok_step [OF ok s1]
    have c1: "conns ?s1 a = Some ?c" by simp
    obtain u where u: "message_callback c = Some u" using net_ok_conn(5) [OF ok c] by blast
    have me1: "thread_id ?s1 = me" using me ok_stepD(3) [OF s1] by simp
    have msg: "length_safe Q (on_message app u a tm ?s1)"
      using scripted_safe(2) [OF ok1 app(2) c1 me1 app(3), of u tm] unfolding app(1)
      by (rule length_safe_mono) (intro step ok_step_trans [OF s1])
    note sl = ok_step_trans [OF s1 ok_step_calls [OF ok1 calls_only_log, of LOG_SYSERR]]
    have "conns (log_to LOG_SYSERR ?s1) a = Some ?c" by simp
    from conn_handle_error_safe [OF net_ok_step [OF ok sl] this, of os] obtain t where
      "conn_handle_error os a (log_to LOG_SYSERR ?s1) = Inr t" "ok_step (log_to LOG_SYSERR ?s1) t" by blast
    then have err: "length_safe Q (conn_handle_error os a (log_to LOG_SYSERR ?s1))"
      using step [OF ok_step_trans [OF sl]] by simp
    show "length_safe Q (case r of (n, saved_errno, b) \<Rightarrow>
        let s1 = put_conn a (c\<lparr>input_buffer := b\<rparr>) ?s0 in
        if n > 0 then invoke (message_callback c) (\<lambda>cb. on_message app cb a tm) s1
        else if n = 0 then conn_handle_close app os me a s1
        else conn_handle_error os a (log_to LOG_SYSERR s1))"
      using msg err close [OF s1] u by (simp add: nb invoke_def Let_def)
  qed
qed

section \<open>Establishing and destroying\<close>

lemma conn_fit_frame:
  assumes "conn_fit X s b d" and "b \<notin> X" "b \<notin> Y" and "same_chans s t"
    and "\<And>fd. registered t fd = Some (conn_channel d) \<longleftrightarrow> registered s fd = Some (conn_channel d)"
  shows "conn_fit Y t b d"
proof -
  from assms(1) obtain ch where ch: "chans s (conn_channel d) = Some ch" "owner_loop ch = this_loop" "conn_callbacks b ch"
    and st: "if registered s (ch_fd ch) = Some (conn_channel d)
         then conn_state d = Connected \<or> conn_state d = Disconnecting else conn_state d = Disconnected"
    using assms(2) unfolding conn_fit_def by auto
  from same_chansD [OF assms(4) ch(1)] obtain y where y: "chans t (conn_channel d) = Some y" "same_chan ch y" by blast
  have "owner_loop y = this_loop" "conn_callbacks b y" "ch_fd y = ch_fd ch"
    using y(2) ch(2,3) conn_callbacks_same [OF y(2)] by (auto simp: same_chan_def)
  then show ?thesis using assms(1,3,5) st y(1) unfolding conn_fit_def by auto
qed

text \<open>The connection at \<open>a\<close> became \<open>c\<close>; then callbacks of the application ran.\<close>

definition replaced :: "addr \<Rightarrow> 'u conn \<Rightarrow> ('u, 'z) net_scheme \<Rightarrow> ('u, 'z) net_scheme \<Rightarrow> bool" where
  "replaced a c s t \<longleftrightarrow>
     net.more t = net.more s \<and> thread_id t = thread_id s \<and> same_chans s t \<and>
     conns_kept (put_conn a c s) t \<and> queues_completes (put_conn a c s) t"

lemma replaced_start:
  assumes "conns t = (conns s)(a \<mapsto> c)" and "same_chans s t" and "same_loop (put_conn a c (assert_in_loop_thread il s)) t"
  shows "replaced a c s t"
proof -
  have "net.more t = net.more s" "thread_id t = thread_id s" "pending_functors t = pending_functors s"
    using same_loopD(1-3) [OF assms(3)] by (cases t; cases s; simp add: put_conn_def assert_in_loop_thread_def log_to_def)+
  then show ?thesis using assms(1,2) by (simp add: replaced_def conns_kept_eq queues_nothing)
qed

lemma replaced_step:
  assumes r: "replaced a c s t" and st: "ok_step t u"
  shows "replaced a c s u"
proof -
  have k: "conns_kept (put_conn a c s) t" "queues_completes (put_conn a c s) t" using r by (simp_all add: replaced_def)
  show ?thesis using r ok_stepD(2,3) [OF st] same_chans_trans [OF _ ok_stepD(5) [OF st], of s]
      conns_kept_trans [OF k(1) ok_stepD(6) [OF st]] queues_completes_trans [OF k ok_stepD(8) [OF st]]
    by (simp add: replaced_def)
qed

lemma replaced_loop:
  assumes r: "replaced a c s t" and eq: "conns u = conns t" and same: "same_chans t u" "same_loop t u"
  shows "replaced a c s u"
proof -
  have "net.more u = net.more t" "thread_id u = thread_id t" "pending_functors u = pending_functors t"
    using same_loopD(1-3) [OF same(2)] by (cases u; cases t; simp)+
  then show ?thesis using r eq same_chans_trans [OF _ same(1), of s]
    by (simp add: replaced_def conns_kept_def queues_completes_def)
qed

lemma connect_established_safe:
  assumes inv: "loop_inv s" "timers_ok s" and new: "conn_new s a c ch" and fd: "0 \<le> ch_fd ch" "registered s (ch_fd ch) = None"
    and others: "\<And>b d. conns s b = Some d \<Longrightarrow> b \<noteq> a \<Longrightarrow> conn_fit {} s b d"
    and unreg: "\<And>b d. conns s b = Some d \<Longrightarrow> b \<noteq> a \<Longrightarrow> conn_channel d \<noteq> conn_channel c"
    and fit: "buf_inv (input_buffer c)" "connect_callback c \<noteq> None" "message_callback c \<noteq> None" "conn_callbacks a ch"
    and me: "thread_id s = me" and app: "on_connection app = on_connection (scripted os me f)" "proper_script f" "ieee_rounding (os_round os)"
  shows "length_safe (\<lambda>t. net_ok {} t \<and> replaced a (c\<lparr>conn_state := Connected\<rparr>) s t \<and>
      registered t = (registered s)(ch_fd ch \<mapsto> conn_channel c)) (connect_established app os me a s)"
proof -
  let ?s0 = "assert_in_loop_thread (is_in_loop_thread me s) s" and ?c = "c\<lparr>conn_state := Connected\<rparr>"
  let ?s1 = "put_conn a ?c ?s0" and ?b = "conn_channel c"
  let ?x = "ch\<lparr>ch_events := change_events Enable_reading (ch_events ch)\<rparr>"
  have s0: "loop_inv ?s0" "registered ?s0 = registered s" "chans ?s0 = chans s"
    using inv(1) same_netD [OF same_net_assert [of s]] by simp_all
  then have s1: "loop_inv ?s1" "chans ?s1 ?b = Some ch" "owner_loop ch = this_loop" "ch_index ch = -1"
    "0 \<le> ch_fd ch" "registered ?s1 (ch_fd ch) = None"
    using new fd by (simp_all add: conn_new_def)
  from enable_reading_new [OF s1, of os me] obtain s2 where
    s2: "channel_change os me Enable_reading ?b ?s1 = Inr s2" "loop_inv s2" "registered s2 = (registered s)(ch_fd ch \<mapsto> ?b)"
      "same_but_poller (put_chan ?b ?x ?s1) s2"
    using s0(2) by auto
  note same = channel_change_same [OF s2(1)]
  have sc: "same_chans s s2" using same_but_poller_chans [OF s2(4) s1(2)] s0(3) by (simp add: same_chans_def)
  have conns2: "conns s2 = (conns s)(a \<mapsto> ?c)" using channel_change_conns [OF s2(1)] by simp
  have ok2: "net_ok {} s2"
    unfolding net_ok_def
  proof (intro conjI allI impI)
    fix b d assume d: "conns s2 b = Some d"
    show "conn_fit {} s2 b d"
    proof (cases "b = a")
      case True
      then have d: "d = ?c" using d conns2 by simp
      from same_chansD [OF sc, of ?b ch] new obtain y where y: "chans s2 ?b = Some y" "same_chan ch y" by (auto simp: conn_new_def)
      have "owner_loop y = this_loop" "conn_callbacks a y" "ch_fd y = ch_fd ch"
        using y(2) s1(3) fit(4) conn_callbacks_same [OF y(2)] by (auto simp: same_chan_def)
      then show ?thesis using True d fit y(1) s2(3) new unfolding conn_fit_def by (auto simp: conn_new_def)
    next
      case False
      then have d: "conns s b = Some d" using d conns2 by simp
      have ne: "conn_channel d \<noteq> ?b" by (rule unreg [OF d False])
      have "registered s2 f = Some (conn_channel d) \<longleftrightarrow> registered s f = Some (conn_channel d)" for f
        unfolding s2(3) using ne fd(2) by (cases "f = ch_fd ch") simp_all
      with others [OF d False] sc show ?thesis using conn_fit_frame [of "{}" s b d "{}" s2] by blast
    qed
  qed (use s2(2) inv(2) timers_ok_cong [OF same_loopD(6,7) [OF same]] in simp_all)
  obtain u where u: "connect_callback c = Some u" using fit(2) by blast
  have run: "connect_established app os me a s = on_connection app u a s2"
    using new u s2(1) by (simp add: connect_established_def conn_new_def conn_of_def Let_def invoke_def)
  have c2: "conns s2 a = Some ?c" using conns2 by simp
  have rep: "replaced a ?c s s2" by (rule replaced_start [OF conns2 sc same])
  then have "thread_id s2 = me" using me by (simp add: replaced_def)
  then have "length_safe (ok_step s2) (on_connection app u a s2)"
    using scripted_safe(1) [OF ok2 app(2) c2 _ app(3)] app(1) by simp
  then show ?thesis unfolding run
  proof (rule length_safe_mono)
    fix t assume t: "ok_step s2 t"
    show "net_ok {} t \<and> replaced a ?c s t \<and> registered t = (registered s)(ch_fd ch \<mapsto> ?b)"
      using net_ok_step [OF ok2 t] replaced_step [OF rep t] ok_stepD(4) [OF t] s2(3) by simp
  qed
qed

text \<open>\<^verbatim>\<open>connect_destoryed\<close> in two parts: the channel is switched off, and after the callback it is removed.\<close>

lemma switched_off:
  assumes ok: "net_ok {} s" and c: "conns s a = Some c" "conn_state c \<noteq> Disconnected"
  shows "\<exists>t. channel_change os me Disable_all (conn_channel c)
      (put_conn a (c\<lparr>conn_state := Disconnected\<rparr>) (assert_in_loop_thread (is_in_loop_thread me s) s)) = Inr t \<and>
    net_ok {a} t \<and> replaced a (c\<lparr>conn_state := Disconnected\<rparr>) s t \<and> conns t a = Some (c\<lparr>conn_state := Disconnected\<rparr>) \<and>
    registered t = registered s"
proof -
  let ?s0 = "assert_in_loop_thread (is_in_loop_thread me s) s" and ?c = "c\<lparr>conn_state := Disconnected\<rparr>"
  let ?s1 = "put_conn a ?c ?s0" and ?b = "conn_channel c"
  from net_ok_open [OF ok c] obtain ch where ch: "chans s ?b = Some ch" "conn_callbacks a ch" "owner_loop ch = this_loop"
      "registered s (ch_fd ch) = Some ?b" "bound s ?b (ch_fd ch)" by blast
  have s0: "same_net s ?s0" by simp
  have "loop_inv ?s1" "bound ?s1 ?b (ch_fd ch)"
    using net_ok_loop [OF ok] ch(5) same_netD [OF s0] bound_same_net [OF s0] by auto
  from channel_change_bound [OF this, of os me Disable_all] obtain t where
    t: "channel_change os me Disable_all ?b ?s1 = Inr t" "loop_inv t" "registered t = registered s"
      "same_chans ?s1 t" "same_loop ?s1 t" "\<forall>ch. chans t ?b = Some ch \<longrightarrow> is_none_event ch"
    using same_netD [OF s0] by auto
  have sc: "same_chans s t" using t(4) by (simp add: same_chans_def)
  have ct: "conns t = (conns s)(a \<mapsto> ?c)" using channel_change_conns [OF t(1)] by simp
  have at: "\<exists>y. chans t ?b = Some y \<and> owner_loop y = this_loop \<and> conn_callbacks a y \<and> ch_fd y = ch_fd ch"
    using same_chansD [OF sc ch(1)] ch(2,3) conn_callbacks_same by (fastforce simp: same_chan_def)
  have "net_ok {a} t"
    unfolding net_ok_def
  proof (intro conjI allI impI)
    fix b d assume d: "conns t b = Some d"
    show "conn_fit {a} t b d"
    proof (cases "b = a")
      case True
      then show ?thesis using d ct at t(3,6) ch(4) net_ok_conn(2-5) [OF ok c(1)] unfolding conn_fit_def by auto
    next
      case False
      then have "conn_fit {} s b d" using d ct ok by (simp add: net_ok_def)
      then show ?thesis by (rule conn_fit_frame) (use False sc t(3) in auto)
    qed
  qed (use t(2) net_ok_timers [OF ok] timers_ok_cong [OF same_loopD(6,7) [OF t(5)]] in simp_all)
  then show ?thesis using t(1,3) ct replaced_start [OF ct sc t(5)] by auto
qed

lemma channel_removed:
  assumes ok: "net_ok {a} s" and c: "conns s a = Some c"
  shows "\<exists>t. loop_remove_channel os me (conn_channel c) s = Inr t \<and> net_ok {} t \<and> conns t = conns s \<and> same_chans s t \<and> same_loop s t \<and>
    (\<forall>f b. registered t f = Some b \<longrightarrow> registered s f = Some b)"
proof -
  let ?b = "conn_channel c"
  have fit: "conn_fit {a} s a c" using ok c by (simp add: net_ok_def)
  then obtain ch where ch: "chans s ?b = Some ch" "owner_loop ch = this_loop" "conn_callbacks a ch" "is_none_event ch"
      "registered s (ch_fd ch) = Some ?b" unfolding conn_fit_def by auto
  then obtain t where t: "loop_remove_channel os me ?b s = Inr t" "loop_inv t" "registered t = (registered s)(ch_fd ch := None)"
      "same_chans s t" "same_loop s t"
    using loop_remove_channel_bound [OF net_ok_loop [OF ok], of ?b "ch_fd ch" os me] by (auto simp: bound_def)
  have ct: "conns t = conns s" by (rule loop_remove_channel_conns [OF t(1)])
  have "net_ok {} t"
    unfolding net_ok_def
  proof (intro conjI allI impI)
    fix b d assume d: "conns t b = Some d"
    then have d0: "conns s b = Some d" and fd: "conn_fit {a} s b d" using ok ct by (simp_all add: net_ok_def)
    show "conn_fit {} t b d"
    proof (cases "b = a")
      case True
      from same_chansD [OF t(4) ch(1)] obtain z where z: "chans t ?b = Some z" "same_chan ch z" by blast
      then have "owner_loop z = this_loop" "conn_callbacks a z" "ch_fd z = ch_fd ch"
        using ch(2,3) conn_callbacks_same [OF z(2)] by (auto simp: same_chan_def)
      then show ?thesis using fit True d0 c z(1) t(3) unfolding conn_fit_def by auto
    next
      case False
      with conn_channel_inj [OF ok c d0] have "conn_channel d \<noteq> ?b" by auto
      then show ?thesis by (intro conn_fit_frame [OF fd]) (use False t(3,4) ch(5) in auto)
    qed
  qed (use t(2) net_ok_timers [OF ok] timers_ok_cong [OF same_loopD(6,7) [OF t(5)]] in simp_all)
  moreover have "registered s f = Some b" if "registered t f = Some b" for f b using that t(3) by (simp split: if_splits)
  ultimately show ?thesis using t(1,4,5) ct by blast
qed

lemma connect_destroyed_safe:
  assumes ok: "net_ok {} s" and c: "conns s a = Some c" "conn_state c \<noteq> Disconnected"
    and me: "thread_id s = me" and app: "on_connection app = on_connection (scripted os me f)" "proper_script f" "ieee_rounding (os_round os)"
  shows "length_safe (\<lambda>t. net_ok {} t \<and> replaced a (c\<lparr>conn_state := Disconnected\<rparr>) s t \<and>
      (\<forall>f b. registered t f = Some b \<longrightarrow> registered s f = Some b)) (connect_destroyed app os me a s)"
proof -
  let ?c = "c\<lparr>conn_state := Disconnected\<rparr>" and ?b = "conn_channel c"
  from switched_off [OF ok c, of os me] obtain s2 where
    s2: "channel_change os me Disable_all ?b (put_conn a ?c (assert_in_loop_thread (is_in_loop_thread me s) s)) = Inr s2"
      "net_ok {a} s2" "replaced a ?c s s2" "conns s2 a = Some ?c" "registered s2 = registered s" by blast
  have "thread_id s2 = me" using s2(3) me by (simp add: replaced_def)
  then have call: "length_safe (ok_step s2) (on_connection app u a s2)" for u
    using scripted_safe(1) [OF s2(2) app(2) s2(4) _ app(3)] app(1) by simp
  obtain u where u: "connect_callback c = Some u" using net_ok_conn(4) [OF ok c(1)] by blast
  have "conn_state c = Connected \<or> conn_state c = Disconnecting" using net_ok_open [OF ok c] by blast
  then have run: "connect_destroyed app os me a s = andthen (on_connection app u a s2) (loop_remove_channel os me ?b)"
    using c(1) u s2(1) by (simp add: connect_destroyed_def conn_of_def Let_def invoke_def)
  show ?thesis unfolding run
    using call
  proof (rule length_safe_andthen)
    fix s3 assume s3: "ok_step s2 s3"
    from kept_conn [OF ok_stepD(6) [OF s3] s2(4)] obtain e where e: "conns s3 a = Some e" "kept ?c e" by blast
    from channel_removed [OF net_ok_step [OF s2(2) s3] e(1), of os me] keptD(2) [OF e(2)] obtain t where
      t: "loop_remove_channel os me ?b s3 = Inr t" "net_ok {} t" "conns t = conns s3" "same_chans s3 t" "same_loop s3 t"
        "\<forall>f b. registered t f = Some b \<longrightarrow> registered s3 f = Some b" by auto
    with replaced_loop [OF replaced_step [OF s2(3) s3] t(3-5)] ok_stepD(4) [OF s3] s2(5)
    show "length_safe (\<lambda>t. net_ok {} t \<and> replaced a ?c s t \<and>
        (\<forall>f b. registered t f = Some b \<longrightarrow> registered s f = Some b)) (loop_remove_channel os me ?b s3)" by simp
  qed
qed

end
