(* ===== verification/Server_Loop.thy ===== *)
theory Server_Loop
  imports Server_Turn Conn_Safety
begin

text \<open>
  A server under load.  \<^verbatim>\<open>TcpServer\<close> with its acceptor, its connections and its loop, an
  application that uses the library in all its callbacks (\<open>Conn_Safety\<close>), and a kernel that reports
  any set of ready channels: every turn of the loop ends as it should.
\<close>

section \<open>The invariant\<close>

text \<open>Queued destructions, in order.\<close>

fun destroys :: "'u closure list \<Rightarrow> addr list" where
  "destroys [] = []"
| "destroys (Conn_connect_destroyed a # fs) = a # destroys fs"
| "destroys (f # fs) = destroys fs"

lemma destroys_append [simp]: "destroys (fs @ gs) = destroys fs @ destroys gs"
  by (induction fs rule: destroys.induct) simp_all

lemma destroys_completes: "\<forall>f \<in> set fs. completes s f \<Longrightarrow> destroys fs = []"
  by (induction fs) (auto simp: completes_def)

text \<open>
  The connections of a server; \<open>cl\<close> are those on the way out.  Every connection that is not
  disconnected is either on its way out or in the map under its own name.
\<close>

definition map_ok :: "addr list \<Rightarrow> ('u, 'z) server_scheme \<Rightarrow> bool" where
  "map_ok cl s \<longleftrightarrow> distinct cl \<and>
     (\<forall>n a. connections s n = Some a \<longrightarrow>
        a \<notin> set cl \<and> (\<exists>c. conns s a = Some c \<and> conn_name c = n \<and> conn_state c \<noteq> Disconnected)) \<and>
     (\<forall>a \<in> set cl. \<exists>c. conns s a = Some c \<and> conn_state c \<noteq> Disconnected) \<and>
     (\<forall>a c. conns s a = Some c \<longrightarrow> conn_close_callback c = Some Server_remove_connection \<and>
        (conn_state c \<noteq> Disconnected \<and> a \<notin> set cl \<longrightarrow> connections s (conn_name c) = Some a))"

definition names_ok :: "('u, 'z) server_scheme \<Rightarrow> bool" where
  "names_ok s \<longleftrightarrow> 1 \<le> next_conn_id s \<and> next_conn_id s \<le> INT_MAX \<and>
     (\<forall>n \<in> dom (connections s). \<exists>k. 1 \<le> k \<and> k < next_conn_id s \<and> n = server_name s @ conn_suffix k)"

text \<open>The channels a server's loop knows: the acceptor's, the connections', and the loop's own two.\<close>

definition reader :: "'u closure \<Rightarrow> 'u closure channel \<Rightarrow> bool" where
  "reader f ch \<longleftrightarrow> read_callback ch = Some f \<and> write_callback ch = None \<and> error_callback ch = None \<and> close_callback ch = None"

definition known_channels :: "('u, 'z) server_scheme \<Rightarrow> bool" where
  "known_channels s \<longleftrightarrow>
     (\<exists>ch. chans s (accept_channel s) = Some ch \<and> reader Acceptor_handle_read_once ch) \<and>
     (\<forall>fd b. registered s fd = Some b \<longrightarrow>
        b = accept_channel s \<or> (\<exists>a c. conns s a = Some c \<and> conn_channel c = b) \<or>
        (\<exists>ch. chans s b = Some ch \<and> (reader EventLoop_handle_read ch \<or> reader TimerQueue_handle_read ch)))"

definition server_set :: "('u, 'z) server_scheme \<Rightarrow> bool" where
  "server_set s \<longleftrightarrow> pool_loops (server_pool s) = [] \<and> server_connect_callback s \<noteq> None \<and>
     server_message_callback s \<noteq> None \<and> new_connection_callback s"

definition srv_ok :: "nat \<Rightarrow> addr list \<Rightarrow> ('u, 'z) server_scheme \<Rightarrow> bool" where
  "srv_ok me cl s \<longleftrightarrow> net_ok {} s \<and> thread_id s = me \<and> server_set s \<and> map_ok cl s \<and> names_ok s \<and> known_channels s"

definition functors_fit :: "('u, 'z) server_scheme \<Rightarrow> 'u closure list \<Rightarrow> bool" where
  "functors_fit s fs \<longleftrightarrow> (\<forall>f \<in> set fs. completes s f \<or> (\<exists>a. f = Conn_connect_destroyed a))"

text \<open>A server while it handles events, and between two turns.\<close>

definition serving :: "nat \<Rightarrow> addr list \<Rightarrow> ('u, 'z) server_scheme \<Rightarrow> bool" where
  "serving me cl s \<longleftrightarrow> srv_ok me cl s \<and> functors_fit s (pending_functors s) \<and> destroys (pending_functors s) = cl"

abbreviation at_rest :: "nat \<Rightarrow> ('u, 'z) server_scheme \<Rightarrow> bool" where
  "at_rest me \<equiv> serving me []"

section \<open>Operations of connections keep it\<close>

lemma map_ok_kept:
  assumes ok: "map_ok cl s" and conns: "conns_kept s t" and eq: "connections t = connections s"
  shows "map_ok cl t"
  unfolding map_ok_def
proof (intro conjI allI impI ballI)
  show "distinct cl" using ok by (simp add: map_ok_def)
  have keep: "\<exists>c'. conns t a = Some c' \<and> conn_name c' = conn_name c \<and> conn_state c' \<noteq> Disconnected"
    if "conns s a = Some c" "conn_state c \<noteq> Disconnected" for a c
    using kept_conn [OF conns that(1)] that(2) keptD(1,7) by metis
  fix n a assume "connections t n = Some a"
  then obtain c where c: "a \<notin> set cl" "conns s a = Some c" "conn_name c = n" "conn_state c \<noteq> Disconnected"
    using ok eq unfolding map_ok_def by metis
  then show "a \<notin> set cl" "\<exists>c. conns t a = Some c \<and> conn_name c = n \<and> conn_state c \<noteq> Disconnected"
    using keep by auto
next
  fix a assume "a \<in> set cl"
  then obtain c where "conns s a = Some c" "conn_state c \<noteq> Disconnected" using ok unfolding map_ok_def by blast
  then show "\<exists>c. conns t a = Some c \<and> conn_state c \<noteq> Disconnected"
    using kept_conn [OF conns] keptD(7) by metis
next
  fix a c' assume "conns t a = Some c'"
  from kept_conn_back [OF conns this] obtain c where c: "conns s a = Some c" "kept c c'" by blast
  then show "conn_close_callback c' = Some Server_remove_connection" using ok keptD(5) [OF c(2)] unfolding map_ok_def by metis
  assume "conn_state c' \<noteq> Disconnected \<and> a \<notin> set cl"
  then show "connections t (conn_name c') = Some a"
    using ok c keptD(1,7) [OF c(2)] eq unfolding map_ok_def by metis
qed

lemma reader_same: "same_chan x y \<Longrightarrow> reader f y = reader f x"
  by (simp add: same_chan_def same_dispatch_def reader_def)

lemma known_channels_kept:
  assumes ok: "known_channels s" and conns: "conns_kept s t" and eq: "accept_channel t = accept_channel s"
    and chans: "same_chans s t" 
    and reg: "\<And>fd b. registered t fd = Some b \<Longrightarrow> registered s fd = Some b \<or> (\<exists>a c. conns s a = Some c \<and> conn_channel c = b)"
  shows "known_channels t"
  unfolding known_channels_def
proof (intro conjI allI impI)
  have read: "\<exists>y. chans t b = Some y \<and> reader f y" if "chans s b = Some x" "reader f x" for b x f
    using same_chansD [OF chans that(1)] that(2) reader_same by blast
  then show "\<exists>ch. chans t (accept_channel t) = Some ch \<and> reader Acceptor_handle_read_once ch"
    using ok eq unfolding known_channels_def by metis
  fix fd b assume "registered t fd = Some b"
  with reg [OF this] ok consider "b = accept_channel s" | a c where "conns s a = Some c" "conn_channel c = b"
    | x where "chans s b = Some x" "reader EventLoop_handle_read x \<or> reader TimerQueue_handle_read x"
    unfolding known_channels_def by metis
  then show "b = accept_channel t \<or> (\<exists>a c. conns t a = Some c \<and> conn_channel c = b) \<or>
      (\<exists>ch. chans t b = Some ch \<and> (reader EventLoop_handle_read ch \<or> reader TimerQueue_handle_read ch))"
  proof cases
    case 2
    from kept_conn [OF conns 2(1)] 2(2) keptD(2) show ?thesis by metis
  next
    case 3
    then show ?thesis using read by blast
  qed (simp add: eq)
qed

lemma functors_fit_kept: "functors_fit s fs \<Longrightarrow> conns_kept s t \<Longrightarrow> functors_fit t fs"
  by (auto simp: functors_fit_def completes_kept)

lemma srv_ok_step:
  assumes ok: "srv_ok me cl s" and step: "ok_step s t"
  shows "srv_ok me cl t"
proof -
  note more = more_fields [OF ok_stepD(2) [OF step]] and d = ok_stepD [OF step]
  have "net_ok {} t" using net_ok_step [OF _ step] ok by (simp add: srv_ok_def)
  moreover have "map_ok cl t" using map_ok_kept [OF _ d(6) more(1)] ok by (simp add: srv_ok_def)
  moreover have "known_channels t" using known_channels_kept [OF _ d(6) more(7) d(5)] d(4) ok by (simp add: srv_ok_def)
  moreover have "server_set t" "names_ok t" "thread_id t = me"
    using ok more d(3) by (simp_all add: srv_ok_def server_set_def names_ok_def)
  ultimately show ?thesis by (simp add: srv_ok_def)
qed

lemma queues_fit:
  assumes "queues_completes s t" and "conns_kept s t" and "functors_fit s (pending_functors s)"
  shows "functors_fit t (pending_functors t)" "destroys (pending_functors t) = destroys (pending_functors s)"
proof -
  from assms(1) obtain fs where fs: "pending_functors t = pending_functors s @ fs" "\<forall>f \<in> set fs. completes s f"
    unfolding queues_completes_def by blast
  show "destroys (pending_functors t) = destroys (pending_functors s)" using fs destroys_completes [OF fs(2)] by simp
  show "functors_fit t (pending_functors t)"
    using fs assms(2,3) by (auto simp: functors_fit_def completes_kept)
qed

lemma serving_step:
  assumes "serving me cl s" and "ok_step s t"
  shows "serving me cl t"
  using assms srv_ok_step [of me cl s t] queues_fit [OF ok_stepD(8,6) [OF assms(2)]] by (simp add: serving_def)

section \<open>Frames\<close>

text \<open>The fields the invariant speaks of.\<close>

lemma net_ok_cong:
  fixes s t :: "('u, 'z) net_scheme"
  assumes "chans t = chans s" and "loop_poller t = loop_poller s" and "conns t = conns s"
    and "timers t = timers s" and "timer_heap t = timer_heap s"
  shows "net_ok X t \<longleftrightarrow> net_ok X s"
proof -
  have "same_net s t" using assms by (simp add: same_net_def)
  from same_netD [OF this] assms timers_ok_cong [of t s] show ?thesis by (simp add: net_ok_def conn_fit_def)
qed

definition same_serving :: "('u, 'z) server_scheme \<Rightarrow> ('u, 'z) server_scheme \<Rightarrow> bool" where
  "same_serving s t \<longleftrightarrow> loop_poller t = loop_poller s \<and> conns t = conns s \<and> thread_id t = thread_id s \<and>
     pending_functors t = pending_functors s \<and> timers t = timers s \<and> timer_heap t = timer_heap s \<and>
     connections t = connections s \<and> next_conn_id t = next_conn_id s \<and> server_name t = server_name s \<and> server_pool t = server_pool s \<and> server_connect_callback t = server_connect_callback s \<and>
     server_message_callback t = server_message_callback s \<and> accept_channel t = accept_channel s \<and>
     new_connection_callback t = new_connection_callback s \<and> server_write_callback t = server_write_callback s"

lemma same_serving_calls: "calls_only s t \<Longrightarrow> same_serving s t"
  by (auto simp: calls_only_def same_serving_def)

lemma serving_same:
  assumes "same_serving s t" and "chans t = chans s"
  shows "serving me cl t \<longleftrightarrow> serving me cl s"
proof -
  have "registered t = registered s" using assms by (simp add: same_serving_def registered_def)
  then show ?thesis using assms net_ok_cong [of t s "{}"]
    by (simp add: serving_def srv_ok_def same_serving_def server_set_def map_ok_def names_ok_def known_channels_def
        functors_fit_def completes_def)
qed

text \<open>Marks the loop leaves in a channel: the events returned and that it is being handled.\<close>

definition alike :: "'c channel \<Rightarrow> 'c channel \<Rightarrow> bool" where
  "alike x y \<longleftrightarrow> y = x\<lparr>ch_revents := ch_revents y, event_handling := event_handling y\<rparr>"

lemma alikeD:
  assumes "alike x y"
  shows "ch_fd y = ch_fd x" "owner_loop y = owner_loop x" "ch_events y = ch_events x" "ch_index y = ch_index x"
    "conn_callbacks a y = conn_callbacks a x" "reader f y = reader f x"
  using assms by (cases x; cases y; simp add: alike_def conn_callbacks_def reader_def)+

definition remarked :: "('u, 'z) server_scheme \<Rightarrow> ('u, 'z) server_scheme \<Rightarrow> bool" where
  "remarked s t \<longleftrightarrow> (\<forall>b x. chans s b = Some x \<longrightarrow> (\<exists>y. chans t b = Some y \<and> alike x y))"

lemma remarkedD: "remarked s t \<Longrightarrow> chans s b = Some x \<Longrightarrow> \<exists>y. chans t b = Some y \<and> alike x y"
  unfolding remarked_def by blast

lemma conn_fit_remarked:
  assumes "conn_fit X s a c" and "remarked s t" and "registered t = registered s"
  shows "conn_fit X t a c"
proof -
  from assms(1) obtain ch where ch: "chans s (conn_channel c) = Some ch" unfolding conn_fit_def by blast
  from remarkedD [OF assms(2) this] obtain y where y: "chans t (conn_channel c) = Some y" "alike ch y" by blast
  show ?thesis using assms(1,3) ch y(1) alikeD [OF y(2)] by (auto simp: conn_fit_def is_none_event_def split: if_splits)
qed

lemma serving_remarked:
  assumes ok: "serving me cl s" and rm: "remarked s t" and inv: "loop_inv t" and reg: "registered t = registered s"
    and eq: "same_serving (s\<lparr>loop_poller := loop_poller t\<rparr>) t"
  shows "serving me cl t"
proof -
  have conns: "conns t = conns s" and "timers_ok t = timers_ok s"
    using eq timers_ok_cong [of t s] by (simp_all add: same_serving_def)
  then have "net_ok {} t" using ok inv conn_fit_remarked [OF _ rm reg]
    by (simp add: serving_def srv_ok_def net_ok_def)
  moreover have "known_channels t"
    unfolding known_channels_def
  proof (intro conjI allI impI)
    have acc: "accept_channel t = accept_channel s" using eq by (simp add: same_serving_def)
    have k: "known_channels s" using ok by (simp add: serving_def srv_ok_def)
    have read: "\<exists>y. chans t b = Some y \<and> reader f y" if "chans s b = Some x" "reader f x" for b x f
      using remarkedD [OF rm that(1)] that(2) alikeD(6) by blast
    then show "\<exists>ch. chans t (accept_channel t) = Some ch \<and> reader Acceptor_handle_read_once ch"
      using k acc unfolding known_channels_def by metis
    fix fd b assume "registered t fd = Some b"
    with reg k read show "b = accept_channel t \<or> (\<exists>a c. conns t a = Some c \<and> conn_channel c = b) \<or>
        (\<exists>ch. chans t b = Some ch \<and> (reader EventLoop_handle_read ch \<or> reader TimerQueue_handle_read ch))"
      unfolding known_channels_def conns acc by metis
  qed
  ultimately show ?thesis using ok eq conns
    by (simp add: serving_def srv_ok_def same_serving_def server_set_def map_ok_def names_ok_def
        functors_fit_def completes_def)
qed

lemma serving_mark:
  assumes ok: "serving me cl s" and ch: "chans s b = Some ch"
  shows "serving me cl (put_chan b (ch\<lparr>event_handling := h\<rparr>) s)"
proof (rule serving_remarked [OF ok])
  have "impl_inv (loop_poller s) s" using ok by (simp add: serving_def srv_ok_def net_ok_def loop_inv_def)
  then have "impl_inv (loop_poller s) (put_chan b (ch\<lparr>event_handling := h\<rparr>) s)" using ch by (rule impl_inv_put) simp_all
  then show "loop_inv (put_chan b (ch\<lparr>event_handling := h\<rparr>) s)" by (simp add: loop_inv_def)
  show "remarked s (put_chan b (ch\<lparr>event_handling := h\<rparr>) s)" using ch by (auto simp: remarked_def alike_def)
qed (simp_all add: registered_def same_serving_def put_chan_def)

section \<open>Closing a connection\<close>

lemma server_close_safe:
  assumes ok: "serving me cl s" and c: "conns s a = Some c" "conn_state c \<noteq> Disconnected" "a \<notin> set cl"
    and app: "app = server_app os me user_app"
  shows "\<exists>t. conn_handle_close app os me a s = Inr t \<and> serving me (cl @ [a]) t \<and> same_chans s t \<and> conns t = conns s \<and>
    accept_channel t = accept_channel s \<and> server_write_callback t = server_write_callback s"
proof -
  have net: "net_ok {} s" and map: "map_ok cl s" using ok by (simp_all add: serving_def srv_ok_def)
  have cb: "conn_close_callback c = Some Server_remove_connection" and n: "connections s (conn_name c) = Some a"
    using map c unfolding map_ok_def by blast+
  from conn_handle_close_safe [OF net c(1,2) cb, of app os me] obtain s1 where
    s1: "conn_handle_close app os me a s = on_close app Server_remove_connection a s1" "ok_step s s1" "conns s1 = conns s" by blast
  have ok1: "serving me cl s1" by (rule serving_step [OF ok s1(2)])
  have me: "thread_id s1 = me" and map1: "map_ok cl s1" and n1: "connections s1 (conn_name c) = Some a"
    using ok1 more_fields(1) [OF ok_stepD(2) [OF s1(2)]] n by (simp_all add: serving_def srv_ok_def)
  let ?u = "s1\<lparr>connections := (connections s1)(conn_name c := None)\<rparr>"
  let ?t = "queue_in_loop os me (Conn_connect_destroyed a) ?u"
  have run: "conn_handle_close app os me a s = Inr ?t"
    using s1(1,3) c(1) n1 me unfolding app
    by (simp add: server_app_def remove_connection_def run_in_loop_def is_in_loop_thread_def
        remove_connection_in_loop_def Let_def conn_of_def assert_in_loop_thread_def)
  have f: "conns ?t = conns s" "chans ?t = chans s1" "loop_poller ?t = loop_poller s1" "thread_id ?t = me"
      "connections ?t = (connections s1)(conn_name c := None)" "next_conn_id ?t = next_conn_id s1" "server_name ?t = server_name s1"
      "server_pool ?t = server_pool s1" "server_connect_callback ?t = server_connect_callback s1"
      "server_message_callback ?t = server_message_callback s1" "accept_channel ?t = accept_channel s1"
      "new_connection_callback ?t = new_connection_callback s1" "pending_functors ?t = pending_functors s1 @ [Conn_connect_destroyed a]"
      "server_write_callback ?t = server_write_callback s1"
    using s1(3) me by (simp_all add: queue_in_loop_def Let_def wakeup_def issue_def log_to_def)
  have map': "map_ok (cl @ [a]) ?t"
    unfolding map_ok_def
  proof (intro conjI allI impI ballI)
    show "distinct (cl @ [a])" using map c(3) by (simp add: map_ok_def)
    fix m b assume "connections ?t m = Some b"
    then have m: "m \<noteq> conn_name c" "connections s1 m = Some b" using f(5) by (auto split: if_splits)
    then obtain d where d: "b \<notin> set cl" "conns s1 b = Some d" "conn_name d = m" "conn_state d \<noteq> Disconnected"
      using map1 unfolding map_ok_def by metis
    have "b \<noteq> a" using m(1) d(2,3) c(1) s1(3) by auto
    then show "b \<notin> set (cl @ [a])" "\<exists>d. conns ?t b = Some d \<and> conn_name d = m \<and> conn_state d \<noteq> Disconnected"
      using d s1(3) f(1) by auto
  next
    fix b assume "b \<in> set (cl @ [a])"
    then show "\<exists>d. conns ?t b = Some d \<and> conn_state d \<noteq> Disconnected"
      using map c(1,2) unfolding map_ok_def f(1) by auto
  next
    fix b d assume d: "conns ?t b = Some d"
    then show "conn_close_callback d = Some Server_remove_connection" using map unfolding map_ok_def f(1) by blast
    assume o: "conn_state d \<noteq> Disconnected \<and> b \<notin> set (cl @ [a])"
    then have "connections s1 (conn_name d) = Some b" using map1 d s1(3) unfolding map_ok_def f(1) by simp
    then show "connections ?t (conn_name d) = Some b" using o n1 unfolding f(5) by auto
  qed
  have "names_ok ?t" "server_set ?t" "known_channels ?t" "net_ok {} ?t"
    using ok1 f s1(3) net_ok_cong [of ?t s1 "{}"] by (auto simp: serving_def srv_ok_def names_ok_def server_set_def known_channels_def registered_def)
  moreover have "functors_fit ?t (pending_functors ?t)" "destroys (pending_functors ?t) = cl @ [a]"
    using ok1 f(1,13) s1(3) by (auto simp: serving_def functors_fit_def completes_def)
  ultimately have "serving me (cl @ [a]) ?t" using map' f(4) by (simp add: serving_def srv_ok_def)
  then show ?thesis using run f(1,2,11,14) ok_stepD(5) [OF s1(2)] more_fields(7,9) [OF ok_stepD(2) [OF s1(2)]]
    by (intro exI [of _ ?t]) (simp add: same_chans_def)
qed

section \<open>Events of a connection\<close>

text \<open>
  Masks the kernel reports for the events a connection asks for: a hang-up comes with input or
  without priority data and half-close, which are reported on request only.
\<close>

definition plain :: "cint \<Rightarrow> bool" where
  "plain ev \<longleftrightarrow> \<not> (hup_only ev \<and> read_event ev)"

text \<open>
  The connections after an operation: old ones with their channel and their write-complete callback, and new ones with the
  callback the server gives them and a channel that is not being handled.
\<close>

definition idle :: "('u, 'z) reactor_scheme \<Rightarrow> addr \<Rightarrow> bool" where
  "idle t b \<longleftrightarrow> (\<exists>y. chans t b = Some y \<and> \<not> event_handling y)"

definition inherits :: "('u, 'z) server_scheme \<Rightarrow> ('u, 'z) server_scheme \<Rightarrow> bool" where
  "inherits s t \<longleftrightarrow> server_write_callback t = server_write_callback s \<and>
     (\<forall>a d. conns t a = Some d \<longrightarrow>
        (\<exists>c. conns s a = Some c \<and> conn_channel d = conn_channel c \<and> write_complete_callback d = write_complete_callback c) \<or>
        write_complete_callback d = server_write_callback s \<and> idle t (conn_channel d))"

lemma idle_same:
  assumes ch: "same_chans s t" and b: "idle s b"
  shows "idle t b"
proof -
  from b obtain x where x: "chans s b = Some x" "\<not> event_handling x" unfolding idle_def by blast
  from same_chansD [OF ch x(1)] x(2) show ?thesis by (auto simp: idle_def same_chan_def)
qed

lemma inheritsE:
  assumes "inherits s t" and "conns t a = Some d"
  obtains c where "conns s a = Some c" "conn_channel d = conn_channel c" "write_complete_callback d = write_complete_callback c"
    | "write_complete_callback d = server_write_callback s" "idle t (conn_channel d)"
  using assms unfolding inherits_def by blast

lemma inheritsI:
  assumes "server_write_callback t = server_write_callback s"
    and "\<And>a d. conns t a = Some d \<Longrightarrow>
        (\<exists>c. conns s a = Some c \<and> conn_channel d = conn_channel c \<and> write_complete_callback d = write_complete_callback c) \<or>
        write_complete_callback d = server_write_callback s \<and> idle t (conn_channel d)"
  shows "inherits s t"
  using assms unfolding inherits_def by blast

lemma inherits_trans:
  assumes st: "inherits s t" and tu: "inherits t u" and ch: "same_chans t u"
  shows "inherits s u"
proof (rule inheritsI)
  have wb: "server_write_callback t = server_write_callback s" using st by (simp add: inherits_def)
  then show "server_write_callback u = server_write_callback s" using tu by (simp add: inherits_def)
  fix a d assume "conns u a = Some d"
  from inheritsE [OF tu this]
  show "(\<exists>c. conns s a = Some c \<and> conn_channel d = conn_channel c \<and> write_complete_callback d = write_complete_callback c) \<or>
        write_complete_callback d = server_write_callback s \<and> idle u (conn_channel d)"
  proof cases
    case (1 c)
    from inheritsE [OF st 1(1)] 1(2,3) idle_same [OF ch] show ?thesis by metis
  next
    case 2
    then show ?thesis using wb by simp
  qed
qed

lemma inherits_kept:
  assumes "conns_kept s t" and "server_write_callback t = server_write_callback s"
  shows "inherits s t"
  by (rule inheritsI [OF assms(2)]) (use kept_conn_back [OF assms(1)] keptD(2,6) in metis)

text \<open>What handling the channel at \<open>b\<close> leaves of the rest.\<close>

definition carries :: "addr \<Rightarrow> ('u, 'z) server_scheme \<Rightarrow> ('u, 'z) server_scheme \<Rightarrow> bool" where
  "carries b s t \<longleftrightarrow>
     (\<forall>b' x. b' \<noteq> b \<longrightarrow> chans s b' = Some x \<longrightarrow> (\<exists>y. chans t b' = Some y \<and> same_chan x y)) \<and>
     (\<forall>a c. conns s a = Some c \<longrightarrow> (\<exists>c'. conns t a = Some c' \<and> kept c c')) \<and>
     accept_channel t = accept_channel s \<and> inherits s t \<and> idle t b"

definition stays :: "('u, 'z) server_scheme \<Rightarrow> ('u, 'z) server_scheme \<Rightarrow> bool" where
  "stays s t \<longleftrightarrow> same_chans s t \<and> (\<forall>a c. conns s a = Some c \<longrightarrow> (\<exists>c'. conns t a = Some c' \<and> kept c c')) \<and>
     accept_channel t = accept_channel s \<and> inherits s t"

lemma staysD:
  assumes "stays s t"
  shows "chans s b = Some x \<Longrightarrow> \<exists>y. chans t b = Some y \<and> same_chan x y"
    "conns s a = Some c \<Longrightarrow> \<exists>c'. conns t a = Some c' \<and> kept c c'" "accept_channel t = accept_channel s" "inherits s t"
  using assms same_chansD unfolding stays_def by blast+

lemma stays_trans:
  assumes "stays s t" and "stays t u"
  shows "stays s u"
  unfolding stays_def
proof (intro conjI allI impI)
  show "same_chans s u" using assms same_chans_trans unfolding stays_def by blast
  show "accept_channel u = accept_channel s" using assms by (simp add: stays_def)
  show "inherits s u" using assms inherits_trans unfolding stays_def by blast
  fix a c assume "conns s a = Some c"
  from staysD(2) [OF assms(1) this] obtain d where d: "conns t a = Some d" "kept c d" by blast
  from staysD(2) [OF assms(2) d(1)] d(2) kept_trans show "\<exists>c'. conns u a = Some c' \<and> kept c c'" by blast
qed

lemma stays_step:
  assumes "ok_step s t"
  shows "stays s t"
  unfolding stays_def
  using ok_stepD(5) [OF assms] kept_conn [OF ok_stepD(6) [OF assms]] more_fields(7,9) [OF ok_stepD(2) [OF assms]]
    inherits_kept [OF ok_stepD(6) [OF assms]] by blast

lemma stays_eq:
  "same_chans s t \<Longrightarrow> conns t = conns s \<Longrightarrow> accept_channel t = accept_channel s \<Longrightarrow>
   server_write_callback t = server_write_callback s \<Longrightarrow> stays s t"
  unfolding stays_def using kept_refl by (auto simp: inherits_def)

text \<open>Marking a channel before its callbacks and after.\<close>

lemma carries_marked:
  assumes ch: "chans s b = Some ch" and st: "stays (put_chan b (ch\<lparr>event_handling := True\<rparr>) s) t" and y: "\<not> event_handling y"
  shows "carries b s (put_chan b y t)"
  unfolding carries_def
proof (intro conjI allI impI)
  show "accept_channel (put_chan b y t) = accept_channel s" using staysD(3) [OF st] by (simp add: put_chan_def)
  show "idle (put_chan b y t) b" using y by (simp add: idle_def)
  show "inherits s (put_chan b y t)" using staysD(4) [OF st] y by (auto simp: inherits_def idle_def put_chan_def)
  fix b' x assume "b' \<noteq> b" "chans s b' = Some x"
  with staysD(1) [OF st, of b' x] show "\<exists>z. chans (put_chan b y t) b' = Some z \<and> same_chan x z" by auto
next
  fix a c assume "conns s a = Some c"
  with staysD(2) [OF st, of a c] show "\<exists>c'. conns (put_chan b y t) a = Some c' \<and> kept c c'" by (simp add: put_chan_def)
qed

text \<open>One guarded callback of a channel.\<close>

lemma fire_eq:
  "chans t b = Some y \<Longrightarrow> fire b g cb run t = (if g (ch_revents y) then (case cb y of None \<Rightarrow> Inr t | Some f \<Rightarrow> run f t) else Inr t)"
  by (simp add: fire_def heap_simps)

text \<open>The channel at \<open>b\<close>, with the events \<open>r\<close>, belongs to the open connection \<open>a\<close>.\<close>

definition conn_at :: "addr \<Rightarrow> addr \<Rightarrow> cint \<Rightarrow> ('u, 'z) server_scheme \<Rightarrow> bool" where
  "conn_at a b r s \<longleftrightarrow> (\<exists>y. chans s b = Some y \<and> ch_revents y = r \<and> conn_callbacks a y) \<and>
     (\<exists>d. conns s a = Some d \<and> conn_state d \<noteq> Disconnected)"

lemma conn_atE:
  assumes "conn_at a b r s"
  obtains y d where "chans s b = Some y" "ch_revents y = r" "conn_callbacks a y" "conns s a = Some d" "conn_state d \<noteq> Disconnected"
  using assms unfolding conn_at_def by blast

lemma conn_at_stays:
  assumes at: "conn_at a b r s" and st: "stays s t"
  shows "conn_at a b r t"
proof -
  from at obtain y d where y: "chans s b = Some y" "ch_revents y = r" "conn_callbacks a y"
    and d: "conns s a = Some d" "conn_state d \<noteq> Disconnected" by (rule conn_atE)
  from staysD(1) [OF st y(1)] obtain x where x: "chans t b = Some x" "same_chan y x" by blast
  have "ch_revents x = r" using x(2) y(2) by (simp add: same_chan_def same_dispatch_def)
  moreover have "\<exists>e. conns t a = Some e \<and> conn_state e \<noteq> Disconnected"
    using staysD(2) [OF st d(1)] d(2) keptD(7) by metis
  ultimately show ?thesis using x(1) y(3) conn_callbacks_same [OF x(2)] unfolding conn_at_def by blast
qed

lemma serving_net: "serving me cl s \<Longrightarrow> net_ok {} s" "serving me cl s \<Longrightarrow> thread_id s = me"
  by (simp_all add: serving_def srv_ok_def)

lemma stays_refl: "stays s s"
  by (rule stays_eq) (simp_all add: same_chans_eq)

text \<open>The four callbacks, in the order \<^verbatim>\<open>Channel::handle_event\<close> calls them.\<close>

lemma fire_close:
  assumes at: "conn_at a b r s" and ok: "serving me cl s" and a: "a \<notin> set cl" and app: "app = server_app os me user_app"
  shows "\<exists>t. fire b hup_only close_callback (server_call app os me user) s = Inr t \<and> stays s t \<and>
    (if hup_only r then serving me (cl @ [a]) t else t = s)"
proof -
  from at obtain y d where y: "chans s b = Some y" "ch_revents y = r" "conn_callbacks a y"
    and d: "conns s a = Some d" "conn_state d \<noteq> Disconnected" by (rule conn_atE)
  have "fire b hup_only close_callback (server_call app os me user) s = (if hup_only r then conn_handle_close app os me a s else Inr s)"
    using y(2,3) by (simp add: fire_eq [OF y(1)] conn_callbacks_def server_call_def conn_call_def)
  with server_close_safe [OF ok d a app] stays_eq stays_refl show ?thesis by fastforce
qed

lemma fire_error:
  assumes at: "conn_at a b r s" and ok: "serving me cl s"
  shows "\<exists>t. fire b error_event error_callback (server_call app os me user) s = Inr t \<and> stays s t \<and> serving me cl t \<and>
    conns t = conns s \<and> length (syscalls t) = length (syscalls s) + (if error_event r then 1 else 0)"
proof -
  from at obtain y d where y: "chans s b = Some y" "ch_revents y = r" "conn_callbacks a y" and d: "conns s a = Some d"
    by (rule conn_atE)
  have "fire b error_event error_callback (server_call app os me user) s = (if error_event r then conn_handle_error os a s else Inr s)"
    using y(2,3) by (simp add: fire_eq [OF y(1)] conn_callbacks_def server_call_def conn_call_def)
  with conn_handle_error_safe [OF serving_net(1) [OF ok] d, of os] ok serving_step stays_step stays_refl show ?thesis by fastforce
qed

lemma fire_read:
  assumes at: "conn_at a b r s" and ok: "serving me cl s" and a: "a \<notin> set cl"
    and c: "conns s a = Some c" "readv_fits (os_readv os (length (syscalls s))) (input_buffer c)"
    and app: "app = server_app os me (scripted os me f)" "proper_script f" "ieee_rounding (os_round os)"
  shows "length_safe (\<lambda>t. stays s t \<and> (serving me cl t \<or> serving me (cl @ [a]) t))
    (fire b read_event read_callback (\<lambda>g. server_call_read app os me user fresh g tm) s)"
proof -
  from at obtain y where y: "chans s b = Some y" "ch_revents y = r" "conn_callbacks a y" by (rule conn_atE)
  have run: "fire b read_event read_callback (\<lambda>g. server_call_read app os me user fresh g tm) s =
      (if read_event r then conn_handle_read app os me a tm s else Inr s)"
    using y(2,3) by (simp add: fire_eq [OF y(1)] conn_callbacks_def server_call_read_def conn_call_read_def)
  have step: "stays s u \<and> (serving me cl u \<or> serving me (cl @ [a]) u)" if "ok_step s u" for u
    using that serving_step [OF ok] stays_step by blast
  have close: "length_safe (\<lambda>t. stays s t \<and> (serving me cl t \<or> serving me (cl @ [a]) t)) (conn_handle_close app os me a u)"
    if u: "ok_step s u" for u
  proof -
    have st: "stays s u" by (rule stays_step [OF u])
    from conn_at_stays [OF at st] obtain d where d: "conns u a = Some d" "conn_state d \<noteq> Disconnected" by (rule conn_atE)
    from server_close_safe [OF serving_step [OF ok u] d a app(1)] stays_trans [OF st stays_eq] show ?thesis by force
  qed
  have msg: "on_message app = on_message (scripted os me f)" by (simp add: app(1) server_app_def)
  from conn_handle_read_safe [OF serving_net(1) [OF ok] c(1) serving_net(2) [OF ok] c(2) msg app(2,3) step close, of tm]
  show ?thesis using ok unfolding run by (simp add: stays_refl)
qed

lemma fire_write:
  assumes at: "conn_at a b r s" and ok: "serving me cl s"
  shows "\<exists>t. fire b write_event write_callback (server_call app os me user) s = Inr t \<and> stays s t \<and> serving me cl t"
proof -
  from at obtain y d where y: "chans s b = Some y" "ch_revents y = r" "conn_callbacks a y"
    and d: "conns s a = Some d" "conn_state d \<noteq> Disconnected" by (rule conn_atE)
  have "fire b write_event write_callback (server_call app os me user) s = (if write_event r then conn_handle_write os me a s else Inr s)"
    using y(2,3) by (simp add: fire_eq [OF y(1)] conn_callbacks_def server_call_def conn_call_def)
  with conn_handle_write_safe [OF serving_net(1) [OF ok] d, of os me] ok serving_step stays_step stays_refl show ?thesis by fastforce
qed

lemma handle_conn_event:
  fixes s :: "('u, 'z) server_scheme"
  assumes ok: "serving me cl s" and c: "conns s a = Some c" "conn_channel c = b" "conn_state c \<noteq> Disconnected" "a \<notin> set cl"
    and ch: "chans s b = Some ch" "plain (ch_revents ch)"
    and fits: "read_event (ch_revents ch) \<Longrightarrow>
      readv_fits (os_readv os (length (syscalls s) + (if error_event (ch_revents ch) then 1 else 0))) (input_buffer c)"
    and app: "app = server_app os me (scripted os me f)" "proper_script f" "ieee_rounding (os_round os)"
  shows "length_safe (\<lambda>t. (serving me cl t \<or> serving me (cl @ [a]) t) \<and> carries b s t)
    (handle_event (server_call app os me user) (server_call_read app os me user fresh) tm b s)"
proof -
  let ?r = "ch_revents ch" and ?run = "server_call app os me user" and ?read = "\<lambda>g. server_call_read app os me user fresh g tm"
  define s1 where "s1 = put_chan b (ch\<lparr>event_handling := True\<rparr>) s"
  have ok1: "serving me cl s1" unfolding s1_def by (rule serving_mark [OF ok ch(1)])
  have s1: "conns s1 = conns s" "syscalls s1 = syscalls s" by (simp_all add: s1_def put_chan_def)
  have at1: "conn_at a b ?r s1"
    using net_ok_conn(1) [OF serving_net(1) [OF ok] c(1)] c ch(1) by (auto simp: conn_at_def s1_def put_chan_def conn_callbacks_def)
  from fire_close [OF at1 ok1 c(4) app(1), of user] obtain s2 where
    s2: "fire b hup_only close_callback ?run s1 = Inr s2" "stays s1 s2" "if hup_only ?r then serving me (cl @ [a]) s2 else s2 = s1" by blast
  define cl2 where "cl2 = (if hup_only ?r then cl @ [a] else cl)"
  have ok2: "serving me cl2 s2" using s2(3) ok1 by (simp add: cl2_def split: if_splits)
  from fire_error [OF conn_at_stays [OF at1 s2(2)] ok2, of app os user] obtain s3 where
    s3: "fire b error_event error_callback ?run s2 = Inr s3" "stays s2 s3" "serving me cl2 s3" "conns s3 = conns s2"
      "length (syscalls s3) = length (syscalls s2) + (if error_event ?r then 1 else 0)" by blast
  have st3: "stays s1 s3" by (rule stays_trans [OF s2(2) s3(2)])
  note at3 = conn_at_stays [OF at1 st3]
  have read: "length_safe (\<lambda>t. stays s1 t \<and> (serving me cl t \<or> serving me (cl @ [a]) t)) (fire b read_event read_callback ?read s3)"
  proof (cases "read_event ?r")
    case True
    then have "\<not> hup_only ?r" using ch(2) by (simp add: plain_def)
    then have e: "cl2 = cl" "s2 = s1" using s2(3) by (simp_all add: cl2_def)
    have r3: "serving me cl s3" "conns s3 a = Some c" "readv_fits (os_readv os (length (syscalls s3))) (input_buffer c)"
      using s3(3-5) s1 c(1) fits [OF True] unfolding e by simp_all
    from fire_read [OF at3 r3(1) c(4) r3(2,3) app] show ?thesis by (rule length_safe_mono) (use stays_trans [OF st3] in blast)
  next
    case False
    from at3 obtain y where "chans s3 b = Some y" "ch_revents y = ?r" by (rule conn_atE)
    then show ?thesis using False st3 s3(3) by (auto simp: fire_eq cl2_def split: if_splits)
  qed
  have rest: "length_safe (\<lambda>u. (serving me cl u \<or> serving me (cl @ [a]) u) \<and> carries b s u)
      (andthen (fire b write_event write_callback ?run t) (modify_chan b (\<lambda>ch. ch\<lparr>event_handling := False\<rparr>)))"
    if t: "stays s1 t" "serving me cl' t" "cl' = cl \<or> cl' = cl @ [a]" for t cl'
  proof -
    from fire_write [OF conn_at_stays [OF at1 t(1)] t(2), of app os user] obtain u where
      u: "fire b write_event write_callback ?run t = Inr u" "stays t u" "serving me cl' u" by blast
    have st: "stays s1 u" by (rule stays_trans [OF t(1) u(2)])
    from conn_at_stays [OF at1 st] obtain y where y: "chans u b = Some y" by (rule conn_atE)
    have "carries b s (put_chan b (y\<lparr>event_handling := False\<rparr>) u)" using carries_marked [OF ch(1)] st unfolding s1_def by simp
    then show ?thesis using u(1) serving_mark [OF u(3) y, of False] t(3) by (auto simp: modify_chan_Some [OF y])
  qed
  show ?thesis
    unfolding handle_event_def modify_chan_Some [OF ch(1)] andthen_simps s1_def [symmetric] s2(1) s3(1)
    by (rule length_safe_andthen [OF read]) (use rest in blast)
qed

section \<open>Accepting\<close>

text \<open>
  What the environment owes an accepting server: the descriptor is not in use, the objects are
  allocated at free addresses, and fewer than \<^verbatim>\<open>INT_MAX\<close> connections came before.
\<close>

definition can_accept :: "(('u, 'z) server_scheme \<Rightarrow> addr \<times> addr) \<Rightarrow> int \<Rightarrow> ('u, 'z) server_scheme \<Rightarrow> bool" where
  "can_accept fresh fd s \<longleftrightarrow> registered s fd = None \<and> next_conn_id s < INT_MAX \<and>
     (\<forall>t. conns t = conns s \<and> dom (chans t) = dom (chans s) \<longrightarrow>
        conns s (fst (fresh t)) = None \<and> chans s (snd (fresh t)) = None)"

lemma map_ok_insert:
  assumes ok: "map_ok cl s" and new: "conns s a = None" "connections s n = None"
    and c: "conn_name c = n" "conn_close_callback c = Some Server_remove_connection" "conn_state c \<noteq> Disconnected"
    and t: "connections t = (connections s)(n \<mapsto> a)" "conns t = (conns s)(a \<mapsto> c)"
  shows "map_ok cl t"
  unfolding map_ok_def t
proof (intro conjI allI impI ballI)
  show "distinct cl" using ok by (simp add: map_ok_def)
  have old: "b \<noteq> a" if "conns s b = Some d" for b d using that new(1) by auto
  fix m b assume m: "((connections s)(n \<mapsto> a)) m = Some b"
  have "a \<notin> set cl" using ok new(1) unfolding map_ok_def by fastforce
  with m ok show "b \<notin> set cl" unfolding map_ok_def by (auto split: if_splits)
  show "\<exists>d. ((conns s)(a \<mapsto> c)) b = Some d \<and> conn_name d = m \<and> conn_state d \<noteq> Disconnected"
  proof (cases "m = n")
    case True
    then show ?thesis using m c by simp
  next
    case False
    then have "connections s m = Some b" using m by simp
    then obtain d where "conns s b = Some d" "conn_name d = m" "conn_state d \<noteq> Disconnected"
      using ok unfolding map_ok_def by blast
    then show ?thesis using old by auto
  qed
next
  fix b assume "b \<in> set cl"
  then show "\<exists>d. ((conns s)(a \<mapsto> c)) b = Some d \<and> conn_state d \<noteq> Disconnected"
    using ok c(3) unfolding map_ok_def by auto
next
  fix b d assume d: "((conns s)(a \<mapsto> c)) b = Some d"
  then show "conn_close_callback d = Some Server_remove_connection"
    using ok c(2) unfolding map_ok_def by (auto split: if_splits)
  assume o: "conn_state d \<noteq> Disconnected \<and> b \<notin> set cl"
  show "((connections s)(n \<mapsto> a)) (conn_name d) = Some b"
  proof (cases "b = a")
    case True
    then show ?thesis using d c(1) by auto
  next
    case False
    then have "connections s (conn_name d) = Some b" using d o ok unfolding map_ok_def by simp
    then show ?thesis using new(2) by auto
  qed
qed

text \<open>Adding connections and channels.\<close>

lemma functors_fit_grow:
  assumes "functors_fit s fs" and "\<And>a c. conns s a = Some c \<Longrightarrow> conns t a = Some c"
  shows "functors_fit t fs"
  using assms unfolding functors_fit_def completes_def by metis

lemma known_channels_grow:
  assumes ok: "known_channels s" and conns: "\<And>a c. conns s a = Some c \<Longrightarrow> \<exists>c'. conns t a = Some c' \<and> conn_channel c' = conn_channel c"
    and chans: "\<And>b x. chans s b = Some x \<Longrightarrow> chans t b = Some x"
    and eq: "accept_channel t = accept_channel s" "registered t = registered s"
  shows "known_channels t"
  unfolding known_channels_def eq
proof (intro conjI allI impI)
  show "\<exists>ch. chans t (accept_channel s) = Some ch \<and> reader Acceptor_handle_read_once ch"
    using ok chans unfolding known_channels_def by blast
  fix g b assume "registered s g = Some b"
  with ok consider "b = accept_channel s" | a c where "conns s a = Some c" "conn_channel c = b"
    | x where "chans s b = Some x" "reader EventLoop_handle_read x \<or> reader TimerQueue_handle_read x"
    unfolding known_channels_def by metis
  then show "b = accept_channel s \<or> (\<exists>a c. conns t a = Some c \<and> conn_channel c = b) \<or>
      (\<exists>ch. chans t b = Some ch \<and> (reader EventLoop_handle_read ch \<or> reader TimerQueue_handle_read ch))"
    by cases (use conns chans in fastforce)+
qed

lemma name_free:
  assumes "names_ok s" and "next_conn_id s < INT_MAX"
  shows "connections s (server_name s @ conn_suffix (next_conn_id s)) = None"
proof (rule ccontr)
  assume "connections s (server_name s @ conn_suffix (next_conn_id s)) \<noteq> None"
  then obtain k where "1 \<le> k" "k < next_conn_id s" "server_name s @ conn_suffix (next_conn_id s) = server_name s @ conn_suffix k"
    using assms(1) unfolding names_ok_def by blast
  then show False using conn_suffix_inj [of k "next_conn_id s"] assms(2) by simp
qed

lemma names_ok_insert:
  assumes ok: "names_ok s" and id: "next_conn_id s < INT_MAX" and n: "n = server_name s @ conn_suffix (next_conn_id s)"
    and t: "connections t = (connections s)(n \<mapsto> a)" "next_conn_id t = next_conn_id s + 1" "server_name t = server_name s"
  shows "names_ok t"
  unfolding names_ok_def t
proof (intro conjI ballI)
  show "1 \<le> next_conn_id s + 1" "next_conn_id s + 1 \<le> INT_MAX" using ok id by (simp_all add: names_ok_def)
  fix m assume m: "m \<in> dom ((connections s)(n \<mapsto> a))"
  show "\<exists>k. 1 \<le> k \<and> k < next_conn_id s + 1 \<and> m = server_name s @ conn_suffix k"
  proof (cases "m = n")
    case True
    then show ?thesis using ok n by (intro exI [of _ "next_conn_id s"]) (simp add: names_ok_def)
  next
    case False
    then obtain k where "1 \<le> k" "k < next_conn_id s" "m = server_name s @ conn_suffix k"
      using m ok unfolding names_ok_def by auto
    then show ?thesis by (intro exI [of _ k]) simp
  qed
qed

lemma prepared_established:
  fixes s :: "('u, 'z) server_scheme"
  assumes ok: "serving me cl s" and fresh: "chans s cha = None" and fd: "0 \<le> fd" "registered s fd = None"
    and p: "prepared s a cha fd cb S c ch" and app: "app = server_app os me (scripted os me f)" "proper_script f" "ieee_rounding (os_round os)"
  shows "length_safe (\<lambda>t. net_ok {} t \<and> replaced a (c\<lparr>conn_state := Connected\<rparr>) S t \<and>
      registered t = (registered s)(fd \<mapsto> cha)) (connect_established app os me a S)"
proof -
  have srv: "net_ok {} s" "thread_id s = me" "server_set s" using ok by (simp_all add: serving_def srv_ok_def)
  note S = preparedD [OF p] and L = prepared_loop [OF p net_ok_loop [OF srv(1)] fresh]
  have "conn_fit {} S b d" if "conns S b = Some d" "b \<noteq> a" for b d
    using that S(8) srv(1) conn_fit_frame [of "{}" s b d "{}" S] L(2,3) by (simp add: net_ok_def)
  moreover have "conn_channel d \<noteq> conn_channel c" if "conns S b = Some d" "b \<noteq> a" for b d
    using net_ok_conn(1) [OF srv(1), of b d] that S(5,8) fresh by auto
  moreover have "message_callback c \<noteq> None" using S(12) srv(3) by (simp add: server_set_def)
  moreover have "thread_id S = me" using S(11) srv(2) by (simp add: same_server_def)
  moreover have "on_connection app = on_connection (scripted os me f)" by (simp add: app(1) server_app_def)
  moreover have "timers_ok S" using timers_ok_cong [OF S(17,18)] net_ok_timers [OF srv(1)] by simp
  ultimately show ?thesis
    using connect_established_safe [of S a c ch me app os f] S L(1,2) fd app(2,3) by simp
qed

text \<open>With the new connection entered, the invariant of the server holds again.\<close>

lemma established_serving:
  fixes s :: "('u, 'z) server_scheme"
  assumes ok: "serving me cl s" and fresh: "chans s cha = None" "conns s a = None" and id: "next_conn_id s < INT_MAX"
    and p: "prepared s a cha fd cb S c ch"
    and net: "net_ok {} t" and rep: "replaced a (c\<lparr>conn_state := Connected\<rparr>) S t" and reg: "registered t = (registered s)(fd \<mapsto> cha)"
  shows "serving me cl t \<and> stays s t"
proof
  let ?n = "server_name s @ conn_suffix (next_conn_id s)" and ?U = "put_conn a (c\<lparr>conn_state := Connected\<rparr>) S"
  have srv: "net_ok {} s" "thread_id s = me" "map_ok cl s" "names_ok s" "known_channels s" "server_set s"
    using ok by (simp_all add: serving_def srv_ok_def)
  note S = preparedD [OF p] and L = prepared_loop [OF p net_ok_loop [OF srv(1)] fresh(1)]
  have rep': "net.more t = net.more ?U" "thread_id t = me" "same_chans S t" "conns_kept ?U t" "queues_completes ?U t"
    using rep S(11) srv(2) by (simp_all add: replaced_def same_server_def put_conn_def)
  note more = more_fields [OF rep'(1)]
  have U: "connections ?U = (connections s)(?n \<mapsto> a)" "next_conn_id ?U = next_conn_id s + 1" "server_name ?U = server_name s"
      "conns ?U = (conns s)(a \<mapsto> c\<lparr>conn_state := Connected\<rparr>)" "accept_channel ?U = accept_channel s"
      "pending_functors ?U = pending_functors s"
    using S(8,11,15) by (simp_all add: same_server_def put_conn_def)
  have old: "conns ?U b = Some d" if "conns s b = Some d" for b d using that U(4) fresh(2) by auto
  have "map_ok cl ?U"
    using map_ok_insert [OF srv(3) fresh(2) name_free [OF srv(4) id] _ _ _ U(1,4)] S(3,4) by simp
  then have "map_ok cl t" by (rule map_ok_kept [OF _ rep'(4) more(1)])
  moreover have "names_ok t" using names_ok_insert [OF srv(4) id refl] more(1-3) U(1-3) by simp
  moreover have "server_set t"
    using srv(6) S(11,14,16) more(4,5,6,8) by (simp add: server_set_def same_server_def put_conn_def)
  moreover have "chans ?U b = Some y" if "chans s b = Some y" for b y using that S(10) fresh(1) by auto
  then have "known_channels ?U" using old by (intro known_channels_grow [OF srv(5)]) (auto simp: U(5) L(2))
  moreover have "registered t g = Some b \<Longrightarrow> registered ?U g = Some b \<or> (\<exists>a c. conns ?U a = Some c \<and> conn_channel c = b)" for g b
    using reg L(2) S(5) U(4) by (auto split: if_splits)
  ultimately have "srv_ok me cl t"
    using net rep'(2) known_channels_kept [OF _ rep'(4) more(7)] rep'(3) by (simp add: srv_ok_def same_chans_def)
  moreover have "functors_fit ?U (pending_functors ?U)" "destroys (pending_functors ?U) = cl"
    using ok U(4,6) fresh(2) functors_fit_grow [of s "pending_functors s" ?U] by (fastforce simp: serving_def)+
  with queues_fit [OF rep'(5,4)] have "functors_fit t (pending_functors t)" "destroys (pending_functors t) = cl" by simp_all
  ultimately show "serving me cl t" by (simp add: serving_def)
  show "stays s t"
    unfolding stays_def
  proof (intro conjI allI impI)
    show "same_chans s t" by (rule same_chans_trans [OF L(3) rep'(3)])
    show "accept_channel t = accept_channel s" using more(7) U(5) by simp
    show "\<exists>d. conns t b = Some d \<and> kept e d" if "conns s b = Some e" for b e using kept_conn [OF rep'(4) old [OF that]] .
    have wb: "server_write_callback ?U = server_write_callback s" using S(21) by (simp add: put_conn_def)
    have cha: "idle S cha" using S(10,19) by (simp add: idle_def)
    show "inherits s t"
    proof (rule inherits_trans)
      show "inherits s ?U"
      proof (rule inheritsI [OF wb])
        fix b e assume e: "conns ?U b = Some e"
        have "idle ?U cha" using cha by (simp add: idle_def put_conn_def)
        with e S(5,20) show "(\<exists>d. conns s b = Some d \<and> conn_channel e = conn_channel d \<and> write_complete_callback e = write_complete_callback d) \<or>
            write_complete_callback e = server_write_callback s \<and> idle ?U (conn_channel e)"
          unfolding U(4) by (cases "b = a") auto
      qed
      show "inherits ?U t" by (rule inherits_kept [OF rep'(4) more(9)])
      show "same_chans ?U t" using rep'(3) by (simp add: same_chans_def put_conn_def)
    qed
  qed
qed

text \<open>The new connection, in the map under its name and registered; the application may have shut it down already.\<close>

definition arrived :: "addr \<Rightarrow> addr \<Rightarrow> int \<Rightarrow> ('u, 'z) server_scheme \<Rightarrow> ('u, 'z) server_scheme \<Rightarrow> bool" where
  "arrived a cha fd s t \<longleftrightarrow> (let n = server_name s @ conn_suffix (next_conn_id s) in
     connections t = (connections s)(n \<mapsto> a) \<and> registered t = (registered s)(fd \<mapsto> cha) \<and>
     (\<exists>c. conns t a = Some c \<and> conn_channel c = cha \<and> conn_name c = n \<and> (conn_state c = Connected \<or> conn_state c = Disconnecting)))"

lemma established_arrived:
  fixes s :: "('u, 'z) server_scheme"
  assumes p: "prepared s a cha fd cb S c ch" and rep: "replaced a (c\<lparr>conn_state := Connected\<rparr>) S t" and reg: "registered t = (registered s)(fd \<mapsto> cha)"
  shows "arrived a cha fd s t"
proof -
  note S = preparedD [OF p]
  let ?U = "put_conn a (c\<lparr>conn_state := Connected\<rparr>) S"
  have r: "net.more t = net.more ?U" "conns_kept ?U t" using rep by (simp_all add: replaced_def put_conn_def)
  have "conns ?U a = Some (c\<lparr>conn_state := Connected\<rparr>)" by simp
  from kept_conn [OF r(2) this] obtain d where d: "conns t a = Some d" "kept (c\<lparr>conn_state := Connected\<rparr>) d" by blast
  have "connections t = connections ?U" by (rule more_fields(1) [OF r(1)])
  then show ?thesis using keptD(1,2,8) [OF d(2)] d(1) S(4,5,11) reg by (auto simp: arrived_def Let_def same_server_def put_conn_def)
qed

lemma new_connection_arrives:
  fixes s :: "('u, 'z) server_scheme"
  assumes ok: "serving me cl s" and fresh: "chans s cha = None" "conns s a = None"
    and fd: "0 \<le> fd" "registered s fd = None" and id: "next_conn_id s < INT_MAX"
    and app: "app = server_app os me (scripted os me f)" "proper_script f" "ieee_rounding (os_round os)"
  shows "length_safe (\<lambda>t. serving me cl t \<and> stays s t \<and> arrived a cha fd s t) (new_connection app os me a cha fd peer s)"
proof -
  from ok obtain cb where pool: "pool_loops (server_pool s) = []" and cb: "server_connect_callback s = Some cb"
    by (auto simp: serving_def srv_ok_def server_set_def)
  from new_connection_eq [OF pool id cb fresh(1), of app os me a fd peer] obtain S c ch where
    run: "new_connection app os me a cha fd peer s = connect_established app os me a S" and p: "prepared s a cha fd cb S c ch" by blast
  show ?thesis unfolding run
    using prepared_established [OF ok fresh(1) fd p app]
    by (rule length_safe_mono) (use established_serving [OF ok fresh id p] established_arrived [OF p] in blast)
qed

lemma new_connection_safe:
  fixes s :: "('u, 'z) server_scheme"
  assumes ok: "serving me cl s" and fresh: "chans s cha = None" "conns s a = None"
    and fd: "0 \<le> fd" "registered s fd = None" and id: "next_conn_id s < INT_MAX"
    and app: "app = server_app os me (scripted os me f)" "proper_script f" "ieee_rounding (os_round os)"
  shows "length_safe (\<lambda>t. serving me cl t \<and> stays s t) (new_connection app os me a cha fd peer s)"
  using new_connection_arrives [OF assms] by (rule length_safe_mono) blast

lemma Socket_accept_calls:
  assumes "Socket_accept os lfd peer s = (fd, e, peer', t)"
  shows "calls_only s t" "fd = os_ret os (length (syscalls s))"
  using assms socket_calls_only(9) [of s os lfd]
  by (auto simp: Socket_accept_def sockets_accept_def issue_errno_def issue_def Let_def case_prod_beta)

lemma reject_same: "same_serving s (reject_with_idle_fd os s)" "chans (reject_with_idle_fd os s) = chans s"
  by (simp_all add: reject_with_idle_fd_def issue_def Let_def same_serving_def)

lemma stays_same: "same_serving s t \<Longrightarrow> chans t = chans s \<Longrightarrow> stays s t"
  by (rule stays_eq) (simp_all add: same_serving_def same_chans_eq)

lemma serving_calls:
  assumes "serving me cl s" and "calls_only s t"
  shows "serving me cl t \<and> stays s t"
  using assms serving_same [OF same_serving_calls [OF assms(2)] calls_onlyD(1) [OF assms(2)]]
    stays_same [OF same_serving_calls [OF assms(2)] calls_onlyD(1) [OF assms(2)]] by blast

lemma handle_accept:
  fixes s :: "('u, 'z) server_scheme"
  assumes ok: "serving me cl s"
    and env: "0 \<le> os_ret os (length (syscalls s)) \<Longrightarrow> can_accept fresh (os_ret os (length (syscalls s))) s"
    and app: "app = server_app os me (scripted os me f)" "proper_script f" "ieee_rounding (os_round os)"
  shows "length_safe (\<lambda>t. serving me cl t \<and> stays s t)
    (handle_read_once os me (\<lambda>fd peer s. new_connection app os me (fst (fresh s)) (snd (fresh s)) fd peer s) s)"
proof -
  let ?new = "\<lambda>fd peer s. new_connection app os me (fst (fresh s)) (snd (fresh s)) fd peer s"
  have me: "thread_id s = me" and cb: "new_connection_callback s"
    using ok by (simp_all add: serving_def srv_ok_def server_set_def)
  obtain fd e peer s1 where acc: "Socket_accept os (accept_fd s) (InetAddress_port 0) s = (fd, e, peer, s1)"
    by (metis surj_pair)
  note c1 = Socket_accept_calls [OF acc]
  have run: "handle_read_once os me ?new s = (if fd \<ge> 0 then dispatch_connection os ?new fd peer s1
      else Inr (if e = EMFILE then reject_with_idle_fd os (log_to LOG_SYSERR s1) else log_to LOG_SYSERR s1))"
    using me acc by (simp add: handle_read_once_def is_in_loop_thread_def Let_def)
  show ?thesis
  proof (cases "fd \<ge> 0")
    case False
    let ?l = "log_to LOG_SYSERR s1"
    have l: "serving me cl ?l \<and> stays s ?l" by (rule serving_calls [OF ok calls_only_log_iff [OF c1(1)]])
    then have "serving me cl (reject_with_idle_fd os ?l) \<and> stays s (reject_with_idle_fd os ?l)"
      using serving_same [OF reject_same] stays_trans [OF _ stays_same [OF reject_same]] by blast
    with l False show ?thesis unfolding run by simp
  next
    case True
    obtain r s2 where p: "issue os (Sys_poll_one fd) s1 = (r, s2)" by fastforce
    then have c2: "calls_only s s2" using calls_only_trans [OF c1(1) calls_only_issue, of os "Sys_poll_one fd"] by simp
    note ok2 = serving_calls [OF ok c2]
    have s2: "conns s2 = conns s" "chans s2 = chans s" "registered s2 = registered s" "next_conn_id s2 = next_conn_id s"
        "new_connection_callback s2"
      using c2 cb by (auto simp: calls_only_def registered_def)
    have env': "can_accept fresh fd s" using env True c1(2) by simp
    then have "registered s2 fd = None" "next_conn_id s2 < INT_MAX" "conns s2 (fst (fresh s2)) = None" "chans s2 (snd (fresh s2)) = None"
      using s2 by (simp_all add: can_accept_def)
    then have "length_safe (\<lambda>t. serving me cl t \<and> stays s2 t) (?new fd peer s2)"
      using new_connection_safe [OF _ _ _ True _ _ app] ok2 by blast
    then have new: "length_safe (\<lambda>t. serving me cl t \<and> stays s t) (?new fd peer s2)"
      by (rule length_safe_mono) (use ok2 stays_trans in blast)
    have "serving me cl (sockets_close os fd s2) \<and> stays s (sockets_close os fd s2)"
      by (rule serving_calls [OF ok calls_only_trans [OF c2 socket_calls_only(1)]])
    with new True p s2(5) show ?thesis unfolding run by (simp add: dispatch_connection_def)
  qed
qed

text \<open>A channel with a read callback only.\<close>

lemma handle_reader_with:
  assumes ok: "serving me cl s" and ch: "chans s b = Some ch" "reader g ch"
    and run: "\<And>s1. s1 = put_chan b (ch\<lparr>event_handling := True\<rparr>) s \<Longrightarrow> serving me cl s1 \<Longrightarrow> read_event (ch_revents ch) \<Longrightarrow>
      length_safe (\<lambda>t. serving me cl t \<and> stays s1 t \<and> Q t) (rd g tm s1)"
    and Q: "\<not> read_event (ch_revents ch) \<Longrightarrow> Q (put_chan b (ch\<lparr>event_handling := True\<rparr>) s)" "\<And>t y. Q t \<Longrightarrow> Q (put_chan b y t)"
  shows "length_safe (\<lambda>t. serving me cl t \<and> carries b s t \<and> Q t) (handle_event rn rd tm b s)"
proof -
  let ?x = "ch\<lparr>event_handling := True\<rparr>" and ?s1 = "put_chan b (ch\<lparr>event_handling := True\<rparr>) s"
  have ok1: "serving me cl ?s1" by (rule serving_mark [OF ok ch(1)])
  have x: "chans ?s1 b = Some ?x" "close_callback ?x = None" "error_callback ?x = None" "read_callback ?x = Some g"
    using ch(2) by (simp_all add: reader_def)
  have read: "length_safe (\<lambda>t. serving me cl t \<and> stays ?s1 t \<and> Q t) (fire b read_event read_callback (\<lambda>c. rd c tm) ?s1)"
    using run [OF refl ok1] ok1 stays_eq [of ?s1 ?s1] Q(1) x by (simp add: fire_eq [OF x(1)] same_chans_eq)
  have fire: "handle_event rn rd tm b s = andthen (fire b read_event read_callback (\<lambda>c. rd c tm) ?s1)
      (\<lambda>s4. andthen (fire b write_event write_callback rn s4) (modify_chan b (\<lambda>ch. ch\<lparr>event_handling := False\<rparr>)))"
    using x(2,3) by (simp add: handle_event_def modify_chan_Some [OF ch(1)] fire_eq [OF x(1), of hup_only] fire_eq [OF x(1), of error_event])
  show ?thesis unfolding fire
    using read
  proof (rule length_safe_andthen)
    fix t assume t: "serving me cl t \<and> stays ?s1 t \<and> Q t"
    then obtain y where y: "chans t b = Some y" "same_chan ?x y" using staysD(1) [of ?s1 t b ?x] x(1) by blast
    have "write_callback y = None" using y(2) ch(2) by (simp add: same_chan_def same_dispatch_def reader_def)
    with y(1) t serving_mark [OF _ y(1)] carries_marked [OF ch(1), of t] Q(2)
    show "length_safe (\<lambda>t. serving me cl t \<and> carries b s t \<and> Q t)
        (andthen (fire b write_event write_callback rn t) (modify_chan b (\<lambda>ch. ch\<lparr>event_handling := False\<rparr>)))"
      by (simp add: fire_eq heap_simps)
  qed
qed

lemma handle_reader:
  assumes ok: "serving me cl s" and ch: "chans s b = Some ch" "reader g ch"
    and run: "\<And>s1. s1 = put_chan b (ch\<lparr>event_handling := True\<rparr>) s \<Longrightarrow> serving me cl s1 \<Longrightarrow> read_event (ch_revents ch) \<Longrightarrow>
      length_safe (\<lambda>t. serving me cl t \<and> stays s1 t) (rd g tm s1)"
  shows "length_safe (\<lambda>t. serving me cl t \<and> carries b s t) (handle_event rn rd tm b s)"
  using handle_reader_with [OF ok ch, where rd = rd and tm = tm and Q = "\<lambda>t. True" and rn = rn] run by simp

end
