(* ===== verification/Conn_Lifetime.thy ===== *)
theory Conn_Lifetime
  imports Server_Turn
begin

text \<open>
  When a connection of a server is freed.  The functor that destroys a connection holds the last reference the library has;
  functors live in the local vector of \<^verbatim>\<open>EventLoop::do_pending_functors\<close>, so it goes away when that function returns.  The
  functors that call the write-complete callback hold no reference but a raw \<^verbatim>\<open>this\<close>: one that is queued late finds the connection gone.
\<close>

section \<open>The end of a batch of functors\<close>

text \<open>
  The destructor of the vector \<^verbatim>\<open>functors\<close>: with the functor of \<^verbatim>\<open>connect_destoryed\<close> goes the reference to its connection, which is freed
  unless the application holds another one (\<open>held\<close>).
\<close>

definition drop_functor ::
  "os \<Rightarrow> (('u, 'z) net_scheme \<Rightarrow> addr \<Rightarrow> bool) \<Rightarrow> 'u closure \<Rightarrow> ('u, 'z) net_scheme \<Rightarrow> ('u, 'z) net_scheme res" where
  "drop_functor os held f s =
     (case f of Conn_connect_destroyed a \<Rightarrow> if held s a then Inr s else TcpConnection_dtor os a s | _ \<Rightarrow> Inr s)"

definition run_functors ::
  "('u, ('u, 'z) server_scheme) app \<Rightarrow> os \<Rightarrow> nat \<Rightarrow> ('u closure \<Rightarrow> ('u, 'z) server_scheme \<Rightarrow> ('u, 'z) server_scheme res) \<Rightarrow>
   (('u, 'z) server_scheme \<Rightarrow> addr \<Rightarrow> bool) \<Rightarrow> ('u, 'z) server_scheme \<Rightarrow> ('u, 'z) server_scheme res" where
  "run_functors app os me user held s =
     andthen (do_pending_functors (server_call app os me user) s) (fold_res (drop_functor os held) (pending_functors s))"

text \<open>The body of the \<^verbatim>\<open>while\<close> in \<^verbatim>\<open>EventLoop::loop\<close> for the loop of a server.\<close>

definition server_loop_once ::
  "('u, ('u, 'z) server_scheme) app \<Rightarrow> os \<Rightarrow> nat \<Rightarrow> ('u closure \<Rightarrow> ('u, 'z) server_scheme \<Rightarrow> ('u, 'z) server_scheme res) \<Rightarrow>
   (('u, 'z) server_scheme \<Rightarrow> addr \<times> addr) \<Rightarrow> (('u, 'z) server_scheme \<Rightarrow> addr \<Rightarrow> bool) \<Rightarrow> poll_result \<Rightarrow>
   ('u, 'z) server_scheme \<Rightarrow> ('u, 'z) server_scheme res" where
  "server_loop_once app os me user fresh held r s =
     (let s1 = s\<lparr>active_channels := []\<rparr> in
      andthen (poller_poll_impl (os_clock os) r (active_channels s1) (loop_poller s1, s1))
        (\<lambda>(t, active, p, s2).
          let s3 = s2\<lparr>loop_poller := p, active_channels := active, poll_return_time := t\<rparr> in
          andthen (fold_res (handle_event (server_call app os me user) (server_call_read app os me user fresh) t) active s3)
            (run_functors app os me user held)))"

lemma drop_functor_simps [simp]:
  "drop_functor os held (Conn_connect_destroyed a) s = (if held s a then Inr s else TcpConnection_dtor os a s)"
  "drop_functor os held (Conn_write_complete a) s = Inr s" "drop_functor os held (User u) s = Inr s"
  by (simp_all add: drop_functor_def)

text \<open>If the application keeps its connections, nothing is freed, and the turn is that of \<open>loop_once\<close>.\<close>

lemma drop_functors_held: "fold_res (drop_functor os (\<lambda>s a. True)) fs s = Inr s"
  by (induction fs) (simp_all add: drop_functor_def split: closure.split)

lemma server_loop_once_held:
  "server_loop_once app os me user fresh (\<lambda>s a. True) r s =
     loop_once os (\<lambda>_. r) (server_call app os me user) (server_call_read app os me user fresh) s"
proof -
  have "run_functors app os me user (\<lambda>s a. True) = do_pending_functors (server_call app os me user)"
    by (intro ext) (auto simp: run_functors_def drop_functors_held andthen_def split: sum.split)
  then show ?thesis by (simp add: server_loop_once_def loop_once_def)
qed

section \<open>A functor that outlives its connection\<close>

lemma connect_destroyed_chans:
  assumes ok: "conns_ok cb (a # cl) s" and q: "quiet_callback app cb" and c: "conns s a = Some c"
    and ch: "chans s (conn_channel c) = Some ch"
  shows "\<exists>t y. connect_destroyed app os me a s = Inr t \<and> same_server s t \<and> conns t = (conns s)(a \<mapsto> c\<lparr>conn_state := Disconnected\<rparr>) \<and>
    chans t (conn_channel c) = Some y \<and> event_handling y = event_handling ch"
proof -
  from ok c obtain fd where f: "conn_state c = Connected \<or> conn_state c = Disconnecting" "connect_callback c = Some cb"
      "bound s (conn_channel c) fd" by (auto simp: conns_ok_def open_conn_def)
  have inv: "loop_inv s" using ok by (simp add: conns_ok_def)
  from connect_destroyed_ok [OF inv c f(3,1,2) quiet_callback_ok [OF q], of os me] obtain t where
    t: "connect_destroyed app os me a s = Inr t" "conns t = (conns s)(a \<mapsto> c\<lparr>conn_state := Disconnected\<rparr>)" "same_chans s t" by blast
  moreover from destroy_ok [OF ok q, of os me] t(1) have "same_server s t" by auto
  ultimately show ?thesis using same_chansD [OF t(3) ch] by (auto simp: same_chan_def)
qed

lemma dtor_eq:
  assumes "conns s a = Some c" and "chans s (conn_channel c) = Some ch" and "\<not> event_handling ch"
  shows "TcpConnection_dtor os a s =
    Inr ((Socket_dtor os (ch_fd ch) (s\<lparr>chans := (chans s)(conn_channel c := None)\<rparr>))\<lparr>conns := (conns s)(a := None)\<rparr>)"
  using assms calls_only_conns [OF socket_calls_only(1), of os "ch_fd ch" "s\<lparr>chans := (chans s)(conn_channel c := None)\<rparr>"]
  by (simp add: TcpConnection_dtor_def conn_of_def destroy_chan_def heap_simps Let_def Socket_dtor_def)

text \<open>A message that the kernel takes whole: the write-complete callback is queued.\<close>

lemma send_whole:
  assumes "conns s a = Some c" "chans s (conn_channel c) = Some ch" "conn_state c = Connected" "thread_id s = me"
    and "\<not> is_writing ch" "readable_bytes (output_buffer c) = 0" "write_complete_callback c \<noteq> None"
    and "int (length msg) \<le> os_ret os (length (syscalls s))"
  shows "send os me a msg s = Inr (queue_in_loop os me (Conn_write_complete a) (s\<lparr>syscalls := syscalls s @ [Sys_write (ch_fd ch) msg]\<rparr>))"
  using assms
  by (simp add: send_def conn_of_def is_in_loop_thread_def send_in_loop_def Let_def assert_in_loop_thread_def heap_simps
      direct_write_def issue_write_eq)

section \<open>Properties\<close>

text \<open>
  C4.  A write-complete callback that sends can leave a functor behind that uses a freed connection.  In a server whose
  connection callback leaves the library alone, take a batch of functors in which the write-complete callback of a connection comes before its
  destruction; a message was sent and the peer hung up in one turn.  If that callback sends once more and the
  kernel takes the message whole, \<^verbatim>\<open>send_in_loop\<close> queues another functor with the raw \<^verbatim>\<open>this\<close> of the connection.  At the end of the
  batch the connection is freed, unless the application holds a reference, and the functors of the next turn dereference it.
\<close>

theorem write_complete_dangles:
  fixes s :: "('u, 'z) server_scheme"
  assumes "conns_ok cb [a] s" and "thread_id s = me" and "quiet_callback user_app cb"
    and "pending_functors s = [Conn_write_complete a, Conn_connect_destroyed a]"
    and "conns s a = Some c" and "conn_state c = Connected" and "write_complete_callback c = Some u"
    and "chans s (conn_channel c) = Some ch" and "\<not> event_handling ch" and "\<not> is_writing ch" and "readable_bytes (output_buffer c) = 0"
    and "on_write_complete user_app = (\<lambda>u b. send os me b msg)" and "int (length msg) \<le> os_ret os (length (syscalls s))"
    and "app = server_app os me user_app"
  shows "\<exists>t. run_functors app os me user (\<lambda>s b. False) s = Inr t \<and> conns t a = None \<and>
    pending_functors t = [Conn_write_complete a] \<and> run_functors app os me user (\<lambda>s b. False) t = Inl Bad_deref"
proof -
  let ?run = "server_call app os me user" and ?s = "s\<lparr>calling_pending_functors := True, pending_functors := []\<rparr>"
  let ?w = "queue_in_loop os me (Conn_write_complete a) (?s\<lparr>syscalls := syscalls s @ [Sys_write (ch_fd ch) msg]\<rparr>)"
  have first: "?run (Conn_write_complete a) ?s = Inr ?w"
    using send_whole [of ?s a c ch me msg os] assms
    by (simp add: server_call_def conn_call_def conn_write_complete_def conn_of_def invoke_def server_app_def)
  have q: "quiet_callback app cb" unfolding assms(14) by (rule quiet_server_app [OF assms(3)])
  have w: "conns ?w = conns s" "chans ?w = chans s" "pending_functors ?w = [Conn_write_complete a]" "thread_id ?w = me"
    using assms(2) by (simp_all add: conns_more [of ?w s])
  have "conns_ok cb [a] ?w"
  proof (rule conns_ok_frame [OF assms(1)])
    have "loop_inv s" using assms(1) by (simp add: conns_ok_def)
    then show "loop_inv ?w" by (rule loop_inv_agree) simp_all
  qed (use w(1,2) in \<open>simp_all add: registered_def same_targets_chans same_chans_eq more_fields [of ?w s] queue_in_loop_def wakeup_def Let_def issue_def log_to_def\<close>)
  from connect_destroyed_chans [OF this q, of c ch os me] w(1,2) assms(5,8) obtain t y where
    t: "connect_destroyed app os me a ?w = Inr t" "same_server ?w t" "conns t = (conns s)(a \<mapsto> c\<lparr>conn_state := Disconnected\<rparr>)"
      "chans t (conn_channel c) = Some y" "\<not> event_handling y" using assms(9) by auto
  let ?t = "t\<lparr>calling_pending_functors := False\<rparr>"
  have batch: "do_pending_functors ?run s = Inr ?t"
    using first t(1) assms(4) by (simp add: do_pending_functors_def Let_def)
  let ?d = "(Socket_dtor os (ch_fd y) (?t\<lparr>chans := (chans t)(conn_channel c := None)\<rparr>))\<lparr>conns := (conns t)(a := None)\<rparr>"
  have "TcpConnection_dtor os a ?t = Inr ?d" using dtor_eq [of ?t a "c\<lparr>conn_state := Disconnected\<rparr>" y os] t(3-5) by simp
  then have freed: "run_functors app os me user (\<lambda>s b. False) s = Inr ?d" using batch assms(4) by (simp add: run_functors_def)
  have d: "conns ?d a = None" "pending_functors ?d = [Conn_write_complete a]"
    using t(2) w(3) by (simp_all add: same_server_def Socket_dtor_def sockets_close_def issue_def log_to_def Let_def case_prod_beta)
  then have "run_functors app os me user (\<lambda>s b. False) ?d = Inl Bad_deref"
    by (simp add: run_functors_def do_pending_functors_def Let_def server_call_def conn_call_def conn_write_complete_def conn_of_def)
  with freed d show ?thesis by blast
qed

section \<open>Examples\<close>

text \<open>The server of the examples, its one connection on the way out after a message was sent on it.\<close>

definition doomed_conn :: "nat conn" where
  "doomed_conn = (sample_conn Connected empty_buffer)\<lparr>conn_name := ''srv'' @ conn_suffix 1,
     conn_close_callback := Some Server_remove_connection, write_complete_callback := Some 1\<rparr>"

definition doomed_server :: "nat server" where
  "doomed_server = busy_server\<lparr>connections := Map.empty, conns := [30 \<mapsto> doomed_conn],
     pending_functors := [Conn_write_complete 30, Conn_connect_destroyed 30]\<rparr>"

definition chatty_app :: "os \<Rightarrow> (nat, nat server) app" where
  "chatty_app os = silent_app\<lparr>on_write_complete := (\<lambda>u a. send os 7 a ''more'')\<rparr>"

lemma doomed_server: "conns_ok 0 [30] doomed_server"
proof -
  let ?s = doomed_server
  have li: "loop_inv ?s"
    by (simp add: loop_inv_def ep_inv_def doomed_server_def busy_server_def sample_server_def sample_channel_def Channel_ctor_def)
  moreover have "bound ?s 20 5"
    by (simp add: bound_def registered_def doomed_server_def busy_server_def sample_server_def sample_channel_def Channel_ctor_def)
  then have "open_conn 0 ?s 30 (''srv'' @ conn_suffix 1)"
    unfolding open_conn_def by (intro exI [of _ doomed_conn] exI [of _ 5])
      (simp add: doomed_server_def doomed_conn_def busy_server_def sample_server_def conn_callbacks_def)
  ultimately show ?thesis
    unfolding conns_ok_def
    by (auto simp: doomed_server_def busy_server_def sample_server_def EventLoopThreadPool_ctor_def INT_MAX_def)
qed

theorem write_complete_dangles_witness:
  "\<exists>t. run_functors (server_app (sample_os 0\<lparr>os_ret := \<lambda>_. 9\<rparr>) 7 (chatty_app (sample_os 0\<lparr>os_ret := \<lambda>_. 9\<rparr>)))
      (sample_os 0\<lparr>os_ret := \<lambda>_. 9\<rparr>) 7 (\<lambda>cl s. Inr s) (\<lambda>s b. False) doomed_server = Inr t \<and> conns t 30 = None \<and>
    run_functors (server_app (sample_os 0\<lparr>os_ret := \<lambda>_. 9\<rparr>) 7 (chatty_app (sample_os 0\<lparr>os_ret := \<lambda>_. 9\<rparr>)))
      (sample_os 0\<lparr>os_ret := \<lambda>_. 9\<rparr>) 7 (\<lambda>cl s. Inr s) (\<lambda>s b. False) t = Inl Bad_deref"
proof -
  let ?os = "sample_os 0\<lparr>os_ret := \<lambda>_. 9\<rparr>"
  let ?ch = "(sample_channel POLLIN)\<lparr>read_callback := Some (Conn_handle_read 30), write_callback := Some (Conn_handle_write 30),
      error_callback := Some (Conn_handle_error 30), close_callback := Some (Conn_handle_close 30)\<rparr>"
  have h: "thread_id doomed_server = 7" "quiet_callback (chatty_app ?os) 0"
    "pending_functors doomed_server = [Conn_write_complete 30, Conn_connect_destroyed 30]"
    "conns doomed_server 30 = Some doomed_conn" "conn_state doomed_conn = Connected" "write_complete_callback doomed_conn = Some 1"
    "chans doomed_server (conn_channel doomed_conn) = Some ?ch" "\<not> event_handling ?ch" "\<not> is_writing ?ch"
    "readable_bytes (output_buffer doomed_conn) = 0" "on_write_complete (chatty_app ?os) = (\<lambda>u b. send ?os 7 b ''more'')"
    "int (length ''more'') \<le> os_ret ?os (length (syscalls doomed_server))"
    using silent_app
    by (simp_all add: doomed_server_def doomed_conn_def busy_server_def sample_server_def chatty_app_def quiet_callback_def sample_channel_def
        Channel_ctor_def is_writing_def has_event_bit k_write_event_def empty_buffer_def readable_bytes_def sample_conn_def)
      (simp_all add: poll_masks bit_simps)
  from write_complete_dangles [OF doomed_server h refl, of "\<lambda>cl s. Inr s"] show ?thesis by blast
qed

end
