(* ===== verification/Poll_Phase.thy ===== *)
theory Poll_Phase
  imports Event_Loop
begin

text \<open>
  The first part of a turn of \<^verbatim>\<open>EventLoop::loop\<close>, the call of \<^verbatim>\<open>poll\<close>, over both pollers: what the waiting
  system call may answer, and what the poller makes of it.
\<close>

section \<open>Events stored in channels\<close>

text \<open>
  \<open>t\<close> is \<open>s\<close> but for the returned events of the channels \<open>bs\<close>; \<open>Q b ev\<close> holds of the events \<open>ev\<close> stored
  in each channel \<open>b\<close> of them.
\<close>

definition reported :: "(addr \<Rightarrow> cint \<Rightarrow> bool) \<Rightarrow> addr list \<Rightarrow> ('c, 'z) heap_scheme \<Rightarrow> ('c, 'z) heap_scheme \<Rightarrow> bool" where
  "reported Q bs s t \<longleftrightarrow> t = s\<lparr>chans := chans t\<rparr> \<and>
     (\<forall>b x. chans s b = Some x \<longrightarrow> (\<exists>r. chans t b = Some (x\<lparr>ch_revents := r\<rparr>) \<and> (Q b r \<or> b \<notin> set bs \<and> r = ch_revents x)))"

lemma reportedD:
  "reported Q bs s t \<Longrightarrow> chans s b = Some x \<Longrightarrow>
   \<exists>r. chans t b = Some (x\<lparr>ch_revents := r\<rparr>) \<and> (Q b r \<or> b \<notin> set bs \<and> r = ch_revents x)"
  unfolding reported_def by blast

lemma reported_refl: "reported Q [] s s"
proof -
  have "chans s b = Some x \<Longrightarrow> chans s b = Some (x\<lparr>ch_revents := ch_revents x\<rparr>)" for b x by simp
  then show ?thesis unfolding reported_def by fastforce
qed

lemma reported_Cons:
  assumes a: "chans s a = Some ch" "Q a ev" and rest: "reported Q bs (put_chan a (ch\<lparr>ch_revents := ev\<rparr>) s) t"
  shows "reported Q (a # bs) s t"
  unfolding reported_def
proof (intro conjI allI impI)
  let ?u = "put_chan a (ch\<lparr>ch_revents := ev\<rparr>) s"
  have "t = ?u\<lparr>chans := chans t\<rparr>" using rest unfolding reported_def by blast
  then show "t = s\<lparr>chans := chans t\<rparr>" by (simp add: put_chan_def)
  fix b x assume x: "chans s b = Some x"
  show "\<exists>r. chans t b = Some (x\<lparr>ch_revents := r\<rparr>) \<and> (Q b r \<or> b \<notin> set (a # bs) \<and> r = ch_revents x)"
  proof (cases "b = a")
    case True
    then show ?thesis using reportedD [OF rest, of a "ch\<lparr>ch_revents := ev\<rparr>"] a x by auto
  next
    case False
    then show ?thesis using reportedD [OF rest, of b x] x by auto
  qed
qed

lemma epoll_fill_reported:
  assumes "\<And>ev a. (ev, a) \<in> set evs \<Longrightarrow> Q a ev \<and> (\<exists>ch. chans s a = Some ch \<and> cm (ch_fd ch) = Some a)"
  shows "\<exists>t. epoll_fill_active_channels cm evs active s = Inr (active @ map snd evs, t) \<and> reported Q (map snd evs) s t"
  using assms
proof (induction evs arbitrary: active s)
  case Nil
  then show ?case by (simp add: reported_refl)
next
  case (Cons e evs)
  obtain ev a where e: "e = (ev, a)" by (cases e)
  with Cons.prems obtain ch where ch: "Q a ev" "chans s a = Some ch" "cm (ch_fd ch) = Some a" by force
  let ?u = "put_chan a (ch\<lparr>ch_revents := ev\<rparr>) s"
  have live: "\<exists>y. chans ?u b = Some y \<and> cm (ch_fd y) = Some b" if "chans s b = Some x" "cm (ch_fd x) = Some b" for b x
    using that ch(2) by auto
  have "Q b r \<and> (\<exists>y. chans ?u b = Some y \<and> cm (ch_fd y) = Some b)" if "(r, b) \<in> set evs" for r b
    using Cons.prems [of r b] that live [of b] by (metis list.set_intros(2))
  from Cons.IH [OF this, of "active @ [a]"] obtain t where
    "epoll_fill_active_channels cm evs (active @ [a]) ?u = Inr (active @ map snd (e # evs), t)" "reported Q (map snd evs) ?u t"
    using e by auto
  then show ?case using e ch reported_Cons [OF ch(2), of Q ev] by (simp add: heap_simps)
qed

lemma poll_fill_reported:
  assumes "\<And>pfd. pfd \<in> set fds \<Longrightarrow> ready pfd \<Longrightarrow> slot_live cm s pfd \<and> Q (the (cm (pfd_fd pfd))) (scast (pfd_revents pfd))"
    and "num = int (length (filter ready fds))"
  shows "\<exists>t. poll_fill_active_channels cm fds num active s = Inr (active @ ready_channels cm fds, t) \<and>
    reported Q (ready_channels cm fds) s t"
  using assms
proof (induction fds arbitrary: num active s)
  case Nil
  then show ?case by (simp add: ready_channels_def reported_refl)
next
  case (Cons pfd fds)
  show ?case
  proof (cases "ready pfd")
    case False
    with Cons show ?thesis by (simp add: ready_def ready_channels_def)
  next
    case True
    with Cons.prems(1) obtain a ch where
      a: "cm (pfd_fd pfd) = Some a" "chans s a = Some ch" "ch_fd ch = pfd_fd pfd" "Q a (scast (pfd_revents pfd))"
      by (force simp: slot_live_def)
    let ?u = "put_chan a (ch\<lparr>ch_revents := scast (pfd_revents pfd)\<rparr>) s"
    have "\<exists>t. (if num - 1 = 0 then Inr (active @ [a], ?u) else poll_fill_active_channels cm fds (num - 1) (active @ [a]) ?u) =
        Inr ((active @ [a]) @ ready_channels cm fds, t) \<and> reported Q (ready_channels cm fds) ?u t"
    proof (cases "filter ready fds = []")
      case True
      with Cons.prems(2) \<open>ready pfd\<close> show ?thesis by (simp add: ready_channels_def reported_refl)
    next
      case False
      have "\<exists>t. poll_fill_active_channels cm fds (num - 1) (active @ [a]) ?u =
          Inr ((active @ [a]) @ ready_channels cm fds, t) \<and> reported Q (ready_channels cm fds) ?u t"
        using Cons.prems \<open>ready pfd\<close> slot_live_put [OF _ a(2)] by (intro Cons.IH) auto
      with False Cons.prems(2) \<open>ready pfd\<close> show ?thesis by simp
    qed
    then obtain t where t: "(if num - 1 = 0 then Inr (active @ [a], ?u) else poll_fill_active_channels cm fds (num - 1) (active @ [a]) ?u) =
        Inr ((active @ [a]) @ ready_channels cm fds, t)" "reported Q (ready_channels cm fds) ?u t" by blast
    from reported_Cons [OF a(2,4) t(2)] t(1) True a show ?thesis
      by (auto simp: ready_def ready_channels_def heap_simps Let_def)
  qed
qed

lemma poll_fill_none: "filter ready fds = [] \<Longrightarrow> poll_fill_active_channels cm fds num active s = Inr (active, s)"
  by (induction fds) (auto simp: ready_def split: if_splits)

section \<open>Invariants\<close>

lemma ep_inv_reported: "ep_inv p s \<Longrightarrow> reported Q bs s t \<Longrightarrow> ep_inv (p\<lparr>events_size := n\<rparr>) t"
  unfolding ep_inv_def using reportedD [of Q bs s t] by fastforce

lemma poll_inv_reported:
  assumes inv: "poll_inv p s" and rep: "reported Q bs s t" and len: "length rs = length (poll_fds p)"
  shows "poll_inv (p\<lparr>poll_fds := store_revents rs (poll_fds p)\<rparr>) t"
  unfolding poll_inv_def
proof (intro conjI allI impI)
  let ?p = "p\<lparr>poll_fds := store_revents rs (poll_fds p)\<rparr>"
  have len': "length (store_revents rs (poll_fds p)) = length (poll_fds p)" using len by (simp add: store_revents_def)
  fix fd a assume "poll_channels ?p fd = Some a"
  then obtain ch where ch: "chans s a = Some ch" "ch_fd ch = fd" "0 \<le> fd" "slot_ok (poll_fds p) ch"
    using poll_invD [OF inv] by fastforce
  from reportedD [OF rep ch(1)] obtain r where r: "chans t a = Some (ch\<lparr>ch_revents := r\<rparr>)" by blast
  have "slot_ok (poll_fds ?p) (ch\<lparr>ch_revents := r\<rparr>)"
    using ch(4) len' nth_store_revents [OF len, of "nat (ch_index ch)"]
    by (auto simp: slot_ok_def real_fd_def is_none_event_def split: if_splits)
  with r ch(2,3) show "\<exists>ch. chans t a = Some ch \<and> ch_fd ch = fd \<and> 0 \<le> fd \<and> slot_ok (poll_fds ?p) ch" by simp
next
  let ?p = "p\<lparr>poll_fds := store_revents rs (poll_fds p)\<rparr>"
  fix i assume "i < length (poll_fds ?p)"
  then have i: "i < length (poll_fds p)" by (simp add: store_revents_def)
  from poll_inv_slot [OF inv i] obtain a ch where
    ch: "poll_channels p (real_fd (poll_fds p ! i)) = Some a" "chans s a = Some ch" "ch_index ch = int i" by blast
  from reportedD [OF rep ch(2)] ch(1,3) nth_store_revents [OF len i]
  show "\<exists>a ch. poll_channels ?p (real_fd (poll_fds ?p ! i)) = Some a \<and> chans t a = Some ch \<and> ch_index ch = int i"
    by (auto simp: real_fd_def)
qed

text \<open>The channels of distinct slots are distinct.\<close>

lemma ready_channels_distinct:
  assumes inv: "poll_inv p s" and ans: "poll_answer (poll_fds p) rs n"
  shows "distinct (ready_channels (poll_channels p) (store_revents rs (poll_fds p)))"
proof -
  let ?fds = "store_revents rs (poll_fds p)" and ?ch = "\<lambda>pfd. the (poll_channels p (pfd_fd pfd))"
  have len: "length rs = length (poll_fds p)" using ans by (simp add: poll_answer_def)
  have "i = j" if ij: "i < length ?fds" "j < length ?fds" and r: "ready (?fds ! i)" "ready (?fds ! j)"
    and eq: "?ch (?fds ! i) = ?ch (?fds ! j)" for i j
  proof -
    have fd: "poll_channels p (real_fd (poll_fds p ! k)) = Some (?ch (?fds ! k))" "k < length (poll_fds p)"
      if "k < length ?fds" "ready (?fds ! k)" for k
    proof -
      show k: "k < length (poll_fds p)" using that(1) by (simp add: store_revents_def)
      then have "\<not> pfd_fd (poll_fds p ! k) < 0"
        using that(2) ans nth_store_revents [OF len k] by (auto simp: poll_answer_def ready_def)
      then show "poll_channels p (real_fd (poll_fds p ! k)) = Some (?ch (?fds ! k))"
        using poll_inv_slot [OF inv k] nth_store_revents [OF len k] by (auto simp: real_fd_def)
    qed
    note fi = fd [OF ij(1) r(1)] and fj = fd [OF ij(2) r(2)]
    from poll_inv_slot [OF inv fi(2)] poll_inv_slot [OF inv fj(2)] fi(1) fj(1) eq show "i = j" by auto
  qed
  then have "inj_on (\<lambda>i. ?ch (?fds ! i)) {i. i < length ?fds \<and> ready (?fds ! i)}" by (auto simp: inj_on_def)
  moreover have "map ?ch (filter ready ?fds) = map (\<lambda>i. ?ch (?fds ! i)) (filter (\<lambda>i. ready (?fds ! i)) [0..<length ?fds])"
    by (subst map_nth [symmetric], simp only: filter_map map_map o_def)
  ultimately show ?thesis unfolding ready_channels_def by (simp add: distinct_map inj_on_def)
qed

section \<open>What the kernel answers\<close>

text \<open>
  The answer of the waiting call as documented: \<^verbatim>\<open>epoll_wait\<close> fails, or reports each ready descriptor once,
  at most as many as the array holds; \<^verbatim>\<open>poll\<close> fails, or answers as \<open>poll_answer\<close> says.  \<open>Q b ev\<close>: the
  channel \<open>b\<close> may be reported with the events \<open>ev\<close>.
\<close>

definition wait_ok :: "(addr \<Rightarrow> cint \<Rightarrow> bool) \<Rightarrow> poll_result \<Rightarrow> poller_impl \<Rightarrow> bool" where
  "wait_ok Q r p = (case p of
     Use_epoll q \<Rightarrow> (case snd r of Inl _ \<Rightarrow> True
        | Inr evs \<Rightarrow> length evs \<le> events_size q \<and> distinct (map snd evs) \<and>
            (\<forall>(ev, b) \<in> set evs. Q b ev \<and> b \<in> Map.ran (ep_channels q)))
   | Use_poll q \<Rightarrow> (case fst r of (n, rs) \<Rightarrow>
        length rs = length (poll_fds q) \<and>
        (n < 0 \<or> poll_answer (poll_fds q) rs n \<and>
           (\<forall>i < length rs. rs ! i \<noteq> 0 \<longrightarrow> Q (the (poll_channels q (pfd_fd (poll_fds q ! i)))) (scast (rs ! i))))))"

text \<open>The channels an answer names, in its order.\<close>

definition answered :: "poll_result \<Rightarrow> poller_impl \<Rightarrow> addr list" where
  "answered r p = (case p of
     Use_epoll q \<Rightarrow> (case snd r of Inl _ \<Rightarrow> [] | Inr evs \<Rightarrow> map snd evs)
   | Use_poll q \<Rightarrow> (case fst r of (n, rs) \<Rightarrow>
        if n < 0 then [] else ready_channels (poll_channels q) (store_revents rs (poll_fds q))))"

definition clocked :: "('c, 'z) heap_scheme \<Rightarrow> ('c, 'z) heap_scheme \<Rightarrow> bool" where
  "clocked s u \<longleftrightarrow> u = s\<lparr>clock_reads := Suc (clock_reads s), logs := logs u\<rparr>"

lemma clockedD: "clocked s u \<Longrightarrow> chans u = chans s \<and> heap.more u = heap.more s"
  by (cases s; cases u; simp add: clocked_def)

lemma clocked_simps:
  "clocked s (s\<lparr>clock_reads := Suc (clock_reads s)\<rparr>)" "clocked s (log_to l (s\<lparr>clock_reads := Suc (clock_reads s)\<rparr>))"
  by (simp_all add: clocked_def log_to_def)

lemma epoll_phase:
  assumes Use_epoll: "p = Use_epoll q" and inv: "impl_inv p s" and ans: "wait_ok Q r p"
  shows "\<exists>tm active p' u t. poller_poll_impl clk r [] (p, s) = Inr (tm, active, p', t) \<and> clocked s u \<and>
    active = answered r p \<and> reported Q active u t \<and> distinct active \<and> set active \<subseteq> Map.ran (impl_reg p) \<and>
    impl_reg p' = impl_reg p \<and> impl_inv p' t"
proof -
  let ?s = "s\<lparr>clock_reads := Suc (clock_reads s)\<rparr>"
  have ep: "ep_inv q ?s" using inv Use_epoll by (simp add: ep_inv_def)
  show ?thesis
  proof (cases "snd r")
    case (Inl e)
    let ?t = "log_to LOG_SYSERR ?s"
    have "poller_poll_impl clk r [] (p, s) = Inr (timestamp_at (clk (clock_reads s)), [], p, ?t)"
      using Use_epoll Inl by (simp add: poller_poll_impl_def epoller_poll_def read_clock_def)
    moreover have "impl_inv p ?t" using ep Use_epoll by (simp add: ep_inv_def log_to_def)
    ultimately show ?thesis using clocked_simps(2) [of s LOG_SYSERR] reported_refl [of Q ?t] Use_epoll Inl by (fastforce simp: answered_def)
  next
    case (Inr evs)
    then have evs: "length evs \<le> events_size q" "distinct (map snd evs)"
        "\<And>ev b. (ev, b) \<in> set evs \<Longrightarrow> Q b ev \<and> b \<in> Map.ran (ep_channels q)"
      using ans Use_epoll by (auto simp: wait_ok_def)
    have "Q b ev \<and> (\<exists>ch. chans ?s b = Some ch \<and> ep_channels q (ch_fd ch) = Some b)" if "(ev, b) \<in> set evs" for ev b
    proof -
      from evs(3) [OF that] obtain fd where "Q b ev" "ep_channels q fd = Some b" unfolding Map.ran_def by blast
      with ep_invD [OF ep this(2)] show ?thesis by auto
    qed
    from epoll_fill_reported [of evs Q ?s "ep_channels q" "[]", OF this] obtain t where
      t: "epoll_fill_active_channels (ep_channels q) evs [] ?s = Inr (map snd evs, t)" "reported Q (map snd evs) ?s t" by auto
    let ?n = "if evs \<noteq> [] \<and> length evs = events_size q then events_size q * 2 else events_size q"
    have run: "poller_poll_impl clk r [] (p, s) =
        Inr (timestamp_at (clk (clock_reads s)), map snd evs, Use_epoll (q\<lparr>events_size := ?n\<rparr>), t)"
      using Use_epoll Inr evs(1) t(1) by (auto simp: poller_poll_impl_def epoller_poll_def read_clock_def)
    have sub: "set (map snd evs) \<subseteq> Map.ran (impl_reg p)" using evs(3) Use_epoll by auto
    show ?thesis
      by (rule exI [of _ "timestamp_at (clk (clock_reads s))"], rule exI [of _ "map snd evs"],
          rule exI [of _ "Use_epoll (q\<lparr>events_size := ?n\<rparr>)"], rule exI [of _ ?s], rule exI [of _ t])
         (use run t(2) evs(2) sub ep_inv_reported [OF ep t(2)] clocked_simps(1) [of s] Use_epoll Inr in \<open>simp add: answered_def\<close>)
  qed
qed

lemma poll_poll_phase:
  assumes Use_poll: "p = Use_poll q" and inv: "impl_inv p s" and ans: "wait_ok Q r p"
  shows "\<exists>tm active p' u t. poller_poll_impl clk r [] (p, s) = Inr (tm, active, p', t) \<and> clocked s u \<and>
    active = answered r p \<and> reported Q active u t \<and> distinct active \<and> set active \<subseteq> Map.ran (impl_reg p) \<and>
    impl_reg p' = impl_reg p \<and> impl_inv p' t"
proof -
  obtain n rs e where r: "r = ((n, rs), e)" by (metis surj_pair)
  let ?s = "s\<lparr>clock_reads := Suc (clock_reads s)\<rparr>" and ?fds = "store_revents rs (poll_fds q)"
  let ?q = "q\<lparr>poll_fds := store_revents rs (poll_fds q)\<rparr>"
  have pi: "poll_inv q ?s" using inv Use_poll by (simp cong: poll_inv_cong)
  have len: "length rs = length (poll_fds q)" using ans Use_poll r by (simp add: wait_ok_def)
  show ?thesis
  proof (cases "n < 0")
    case True
    let ?t = "log_to LOG_SYSERR ?s"
    have "poller_poll_impl clk r [] (p, s) = Inr (timestamp_at (clk (clock_reads s)), [], Use_poll ?q, ?t)"
      using Use_poll True r by (simp add: poller_poll_impl_def poller_poll_def read_clock_def)
    moreover have "poll_inv q ?t" using pi by (simp add: log_to_def cong: poll_inv_cong)
    then have "impl_inv (Use_poll ?q) ?t" using poll_inv_reported [OF _ reported_refl len, of ?t] by simp
    ultimately show ?thesis using clocked_simps(2) [of s LOG_SYSERR] reported_refl [of Q ?t] Use_poll True r by (fastforce simp: answered_def)
  next
    case False
    then have pa: "poll_answer (poll_fds q) rs n"
      and Q: "\<And>i. i < length rs \<Longrightarrow> rs ! i \<noteq> 0 \<Longrightarrow> Q (the (poll_channels q (pfd_fd (poll_fds q ! i)))) (scast (rs ! i))"
      using ans Use_poll r by (auto simp: wait_ok_def)
    have live: "slot_live (poll_channels q) ?s pfd \<and> Q (the (poll_channels q (pfd_fd pfd))) (scast (pfd_revents pfd))"
      if "pfd \<in> set ?fds" "ready pfd" for pfd
    proof -
      from that(1) obtain i where i: "i < length (poll_fds q)" "pfd = (poll_fds q ! i)\<lparr>pfd_revents := rs ! i\<rparr>"
        using len nth_store_revents [OF len] by (auto simp: in_set_conv_nth store_revents_def)
      then have "rs ! i \<noteq> 0" using that(2) by (auto simp: ready_def)
      with i show ?thesis using poll_inv_slot_live [OF pi pa that] Q [of i] len by simp
    qed
    have num: "n = int (length (filter ready ?fds))"
      using pa count_ready [OF len] by (auto simp: poll_answer_def in_set_conv_nth)
    let ?active = "ready_channels (poll_channels q) ?fds"
    from poll_fill_reported [OF live num, of "[]"] obtain t where
      t: "poll_fill_active_channels (poll_channels q) ?fds n [] ?s = Inr (?active, t)" "reported Q ?active ?s t" by auto
    have "?active = [] \<and> t = ?s" if "n = 0"
      using that num t(1) poll_fill_none [of ?fds "poll_channels q" n "[]" ?s] by auto
    then have run: "poller_poll_impl clk r [] (p, s) = Inr (timestamp_at (clk (clock_reads s)), ?active, Use_poll ?q, t)"
      using Use_poll False r t(1) by (cases "n = 0") (simp_all add: poller_poll_impl_def poller_poll_def read_clock_def)
    have "set ?active \<subseteq> Map.ran (poll_channels q)"
      using live by (fastforce simp: ready_channels_def slot_live_def Map.ran_def)
    moreover note poll_inv_reported [OF pi t(2) len] ready_channels_distinct [OF pi pa]
    ultimately show ?thesis
      by (intro exI [of _ "timestamp_at (clk (clock_reads s))"] exI [of _ ?active] exI [of _ "Use_poll ?q"] exI [of _ ?s] exI [of _ t])
         (use run t(2) clocked_simps(1) [of s] Use_poll False r in \<open>simp add: answered_def\<close>)
  qed
qed

lemma poll_phase:
  assumes inv: "impl_inv p s" and ans: "wait_ok Q r p"
  shows "\<exists>tm active p' u t. poller_poll_impl clk r [] (p, s) = Inr (tm, active, p', t) \<and> clocked s u \<and>
    active = answered r p \<and> reported Q active u t \<and> distinct active \<and> set active \<subseteq> Map.ran (impl_reg p) \<and>
    impl_reg p' = impl_reg p \<and> impl_inv p' t"
  using epoll_phase [OF _ assms] poll_poll_phase [OF _ assms] by (cases p) blast+

section \<open>Properties\<close>

text \<open>
  C24.  The \<^verbatim>\<open>poll\<close> call of a turn, through either poller, hands on what the kernel reports and nothing else: for every
  documented answer of the waiting call, failures among them, no assertion fails; the active channels are those the answer names, in its
  order, distinct and registered, each carries events the kernel reported for it, and nothing else changes but the clock and the error log.  The registrations
  and the poller's invariant are kept, also when the array of \<^verbatim>\<open>epoll\<close> events is enlarged.
\<close>

theorem poll_reports:
  assumes "impl_inv p s" and "wait_ok Q r p"
  shows "\<exists>tm active p' u t. poller_poll_impl clk r [] (p, s) = Inr (tm, active, p', t) \<and> clocked s u \<and>
    active = answered r p \<and> reported Q active u t \<and> distinct active \<and> set active \<subseteq> Map.ran (impl_reg p) \<and>
    impl_reg p' = impl_reg p \<and> impl_inv p' t"
  using assms by (rule poll_phase)

text \<open>Both channels of a \<^verbatim>\<open>poll\<close> poller are ready, with different events.\<close>

theorem poll_reports_witness:
  "\<exists>tm active p' u t. poller_poll_impl (\<lambda>_. 7) ((2, [16, 1]), Inl ()) [] (Use_poll (two_poller 5 1), two_chans POLLIN) =
       Inr (tm, active, p', t) \<and> active = [10, 20] \<and>
     reported (\<lambda>b ev. b = 10 \<and> ev = POLLHUP \<or> b = 20 \<and> ev = POLLIN) active u t \<and> distinct active \<and> impl_inv p' t"
proof -
  have "poll_answer (poll_fds (two_poller 5 1)) [16, 1] 2"
    by (auto simp: poll_answer_def two_poller_def less_Suc_eq nth_Cons split: nat.splits)
  then have wait: "wait_ok (\<lambda>b ev. b = 10 \<and> ev = POLLHUP \<or> b = 20 \<and> ev = POLLIN) ((2, [16, 1]), Inl ()) (Use_poll (two_poller 5 1))"
    by (auto simp: wait_ok_def two_poller_def less_Suc_eq poll_masks)
  have inv: "impl_inv (Use_poll (two_poller 5 1)) (two_chans POLLIN)" using two_poller_inv(1) by simp
  have "answered ((2, [16, 1]), Inl ()) (Use_poll (two_poller 5 1)) = [10, 20]"
    by (simp add: answered_def ready_channels_def store_revents_def two_poller_def ready_def)
  with poll_reports [OF inv wait, of "\<lambda>_. 7"] show ?thesis by auto
qed

end
