(* ===== verification/Echo.thy ===== *)
theory Echo
  imports Conn_Safety
begin

text \<open>
  An application on top of the library: it sends back whatever it receives.  Reading, the message callback, sending,
  buffering and the writability events together return every byte, in order.
\<close>

section \<open>The application\<close>

fun echo :: "('u, ('u, 'z) net_scheme) script" where
  "echo (On_message t) u a s = (case conns s a of
     None \<Rightarrow> []
   | Some c \<Rightarrow> if length (content (input_buffer c)) \<le> max_size then [App_send a (content (input_buffer c)), App_take a] else [])"
| "echo e u a s = []"

lemma echo_proper: "proper_script echo"
  unfolding proper_script_def
proof (intro allI impI)
  fix e u a and s :: "('u, 'z) net_scheme" assume "conns s a \<noteq> None"
  then show "proper_ops s (echo e u a s)"
    by (cases e) (auto simp: proper_ops_def split: option.splits)
qed

text \<open>
  A connection of this application between two events: open, everything that came in was taken, and both vectors can grow
  by another \<open>n\<close> bytes.
\<close>

definition echoing :: "nat \<Rightarrow> addr \<Rightarrow> nat \<Rightarrow> ('u, 'z) net_scheme \<Rightarrow> 'u conn \<Rightarrow> 'u closure channel \<Rightarrow> bool" where
  "echoing me a n s c ch \<longleftrightarrow> net_ok {} s \<and> thread_id s = me \<and> conn_live s a c ch \<and> conn_state c = Connected \<and>
     content (input_buffer c) = [] \<and> length (buffer_bytes (input_buffer c)) + n \<le> max_size \<and> room (output_buffer c) n"

text \<open>Such a connection on descriptor \<open>fd\<close> with the stream \<open>bytes\<close>.\<close>

definition echoed :: "os \<Rightarrow> nat \<Rightarrow> addr \<Rightarrow> nat \<Rightarrow> int \<Rightarrow> string \<Rightarrow> ('u, 'z) net_scheme \<Rightarrow> bool" where
  "echoed os me a n fd bytes t \<longleftrightarrow> (\<exists>c ch. echoing me a n t c ch \<and> ch_fd ch = fd \<and> stream os t c ch = bytes)"

lemma echoedI: "echoing me a n t c ch \<Longrightarrow> ch_fd ch = fd \<Longrightarrow> stream os t c ch = bytes \<Longrightarrow> echoed os me a n fd bytes t"
  by (auto simp: echoed_def)

text \<open>The two events.  The answer of \<^verbatim>\<open>readv\<close> comes with the event.\<close>

datatype echo_event = Readable timestamp readv_result | Writable

fun echo_do :: "os \<Rightarrow> nat \<Rightarrow> addr \<Rightarrow> echo_event \<Rightarrow> ('u, 'z) net_scheme \<Rightarrow> ('u, 'z) net_scheme res" where
  "echo_do os me a (Readable t r) s = conn_handle_read (scripted (os\<lparr>os_readv := \<lambda>_. r\<rparr>) me echo) (os\<lparr>os_readv := \<lambda>_. r\<rparr>) me a t s"
| "echo_do os me a Writable s = conn_handle_write os me a s"

fun echo_input :: "echo_event \<Rightarrow> string" where
  "echo_input (Readable t (Readv_bytes bytes)) = bytes"
| "echo_input _ = []"

text \<open>
  What \<^verbatim>\<open>readv\<close> answers while the peer has not closed its side: an error, or at least one byte and at most as many as the two
  buffers it is given hold, the free part of the input buffer and the 65536 bytes on the stack.  \<open>inputs_fit\<close>: so it does at every event
  of a run.
\<close>

fun input_fits :: "addr \<Rightarrow> echo_event \<Rightarrow> ('u, 'z) net_scheme \<Rightarrow> bool" where
  "input_fits a (Readable t r) s \<longleftrightarrow> r \<noteq> Readv_bytes [] \<and> (\<forall>c. conns s a = Some c \<longrightarrow> readv_fits r (input_buffer c))"
| "input_fits a Writable s \<longleftrightarrow> True"

fun inputs_fit :: "os \<Rightarrow> nat \<Rightarrow> addr \<Rightarrow> echo_event list \<Rightarrow> ('u, 'z) net_scheme \<Rightarrow> bool" where
  "inputs_fit os me a [] s \<longleftrightarrow> True"
| "inputs_fit os me a (e # es) s \<longleftrightarrow> input_fits a e s \<and>
     (case echo_do os me a e s of Inl _ \<Rightarrow> True | Inr t \<Rightarrow> inputs_fit os me a es t)"

text \<open>Short reads fit at any time.\<close>

lemma short_inputs_fit:
  fixes s :: "('u, 'z) net_scheme"
  assumes "\<forall>t bytes. Readable t (Readv_bytes bytes) \<in> set es \<longrightarrow> bytes \<noteq> [] \<and> length bytes \<le> extra_buff_size"
  shows "inputs_fit os me a es s"
  using assms
proof (induction es arbitrary: s)
  case (Cons e es s)
  then have "input_fits a e s" by (cases e) (fastforce simp: readv_fits_def)+
  moreover have "inputs_fit os me a es t" for t :: "('u, 'z) net_scheme" by (rule Cons.IH) (use Cons.prems in auto)
  ultimately show ?case by (simp split: sum.split del: echo_do.simps)
qed simp

lemma stream_readv [simp]: "stream (os\<lparr>os_readv := f\<rparr>) s c ch = stream os s c ch"
proof -
  have "taken (os\<lparr>os_readv := f\<rparr>) = taken os" by (intro ext) (simp add: taken_def split: syscall.split)
  then show ?thesis by (simp add: stream_def accepted_def)
qed

lemma conn_live_input:
  assumes live: "conn_live s a c ch" and t: "same_net s t"
  shows "conn_live (put_conn a (c\<lparr>input_buffer := b\<rparr>) t) a (c\<lparr>input_buffer := b\<rparr>) ch"
  using live conn_live_same_net [OF t, of a c ch] by (simp add: conn_live_def)

text \<open>The message callback sends the input and takes it from the buffer.\<close>

lemma echo_message:
  assumes ok: "net_ok {} s" and me: "thread_id s = me" and live: "conn_live s a c ch" and st: "conn_state c = Connected"
    and room: "length (buffer_bytes (input_buffer c)) + n \<le> max_size" "room (output_buffer c) (length (content (input_buffer c)) + n)"
  shows "\<exists>t. on_message (scripted os me echo) u a tm s = Inr t \<and>
    echoed os me a n (ch_fd ch) (stream os s c ch @ content (input_buffer c)) t"
proof -
  let ?msg = "content (input_buffer c)"
  have c: "conns s a = Some c" using live by (simp add: conn_live_def)
  note inv = net_ok_conn(2) [OF ok c]
  have len: "length ?msg \<le> max_size" using inv by (auto simp: content_def buf_inv_def)
  have send: "send os me a ?msg s = send_in_loop os me a ?msg s"
    using c st me by (simp add: send_def conn_of_def is_in_loop_thread_def)
  have "room (output_buffer c) (length ?msg)" by (rule room_mono [OF room(2)]) simp
  from send_in_loop_ok [OF live this, of os me] obtain t d ch' where
    t: "send_in_loop os me a ?msg s = Inr t" "conn_live t a d ch'" "same_conn c d" "input_buffer d = input_buffer c"
      "ch_fd ch' = ch_fd ch" "stream os t d ch' = stream os s c ch @ ?msg" "room (output_buffer d) n"
    using room(2) by blast
  have "ok_step s t" using send_in_loop_safe [OF ok c _ len, of os me] st t(1) by simp
  note ok' = net_ok_step [OF ok this] and me' = ok_stepD(3) [OF this]
  let ?e = "d\<lparr>input_buffer := retrieve_all (input_buffer c)\<rparr>" and ?t = "put_conn a (d\<lparr>input_buffer := retrieve_all (input_buffer c)\<rparr>) t"
  have d: "conns t a = Some d" using t(2) by (simp add: conn_live_def)
  have run: "on_message (scripted os me echo) u a tm s = Inr ?t"
    using c d len t(1,4) retrieve_as_string_eq [OF inv] by (simp add: scripted_def send conn_of_def)
  have "ok_step t ?t" using ok_step_put [OF ok' d, of ?e] net_ok_conn(3) [OF ok' d] retrieve_all_ok [OF inv] by simp
  then have "net_ok {} ?t" by (rule net_ok_step [OF ok'])
  moreover have "conn_live ?t a ?e ch'" using t(2) by (simp add: conn_live_def)
  ultimately have "echoing me a n ?t ?e ch'"
    using me me' st same_connD [OF t(3)] t(7) room(1) retrieve_all_ok [OF inv] by (simp add: echoing_def retrieve_all_def)
  moreover have "stream os ?t ?e ch' = stream os s c ch @ ?msg" using t(6) by (simp add: stream_def)
  ultimately show ?thesis using run t(5) by (blast intro: echoedI)
qed

section \<open>Events\<close>

text \<open>Reading, up to the choice by the number of bytes read.\<close>

lemma echo_read:
  fixes os :: os and me :: nat and tm :: timestamp
  assumes ok: "net_ok {} s" and live: "conn_live s a c ch" and u: "message_callback c = Some u"
    and b: "read_fd r (input_buffer c) = Inr (n, e, b)"
  defines "os' \<equiv> os\<lparr>os_readv := \<lambda>_. r\<rparr>"
  defines "s1 \<equiv> put_conn a (c\<lparr>input_buffer := b\<rparr>) (snd (issue os' (Sys_readv (ch_fd ch)) s))"
  shows "echo_do os me a (Readable tm r) s =
      (if n > 0 then on_message (scripted os' me echo) u a tm s1
       else if n = 0 then conn_handle_close (scripted os' me echo) os' me a s1
       else conn_handle_error os' a (log_to LOG_SYSERR s1))"
    and "buf_inv b \<Longrightarrow> net_ok {} s1" and "buf_inv b \<Longrightarrow> thread_id s1 = thread_id s"
    and "conn_live s1 a (c\<lparr>input_buffer := b\<rparr>) ch" and "stream os s1 (c\<lparr>input_buffer := b\<rparr>) ch = stream os s c ch"
proof -
  let ?s0 = "snd (issue os' (Sys_readv (ch_fd ch)) s)" and ?c = "c\<lparr>input_buffer := b\<rparr>"
  have c: "conns s a = Some c" and ch: "chans s (conn_channel c) = Some ch" using live by (simp_all add: conn_live_def)
  have cs: "calls_only s ?s0" by simp
  note s0 = ok_step_calls [OF ok cs]
  note ok0 = net_ok_step [OF ok s0]
  have c0: "conns ?s0 a = Some c" using c calls_only_conns [OF cs] by simp
  show "echo_do os me a (Readable tm r) s =
      (if n > 0 then on_message (scripted os' me echo) u a tm s1
       else if n = 0 then conn_handle_close (scripted os' me echo) os' me a s1
       else conn_handle_error os' a (log_to LOG_SYSERR s1))"
    unfolding s1_def os'_def using c ch u b by (simp add: conn_handle_read_def conn_of_def heap_simps invoke_def Let_def)
  show "net_ok {} s1" "thread_id s1 = thread_id s" if "buf_inv b"
  proof -
    have "ok_step ?s0 s1" unfolding s1_def using ok_step_put [OF ok0 c0, of ?c] net_ok_conn(3) [OF ok c] that by simp
    then show "net_ok {} s1" "thread_id s1 = thread_id s" using net_ok_step [OF ok0] ok_stepD(3) [OF ok_step_trans [OF s0]] by auto
  qed
  show "conn_live s1 a ?c ch" unfolding s1_def by (rule conn_live_input [OF live same_net_calls [OF cs]])
  show "stream os s1 ?c ch = stream os s c ch" unfolding s1_def by (simp add: stream_def issue_def accepted_snoc taken_def)
qed

lemma echo_readable:
  assumes e: "echoing me a (length bytes + n) s c ch" and r: "bytes \<noteq> []" "readv_fits (Readv_bytes bytes) (input_buffer c)"
  shows "\<exists>t. echo_do os me a (Readable tm (Readv_bytes bytes)) s = Inr t \<and>
      echoed os me a n (ch_fd ch) (stream os s c ch @ bytes) t"
proof -
  have ok: "net_ok {} s" and me: "thread_id s = me" and live: "conn_live s a c ch" and st: "conn_state c = Connected"
    and nil: "content (input_buffer c) = []" and room: "length (buffer_bytes (input_buffer c)) + (length bytes + n) \<le> max_size"
      "room (output_buffer c) (length bytes + n)" using e by (simp_all add: echoing_def)
  have c: "conns s a = Some c" using live by (simp add: conn_live_def)
  obtain u where u: "message_callback c = Some u" using net_ok_conn(5) [OF ok c] by blast
  from read_fd_grows [OF net_ok_conn(2) [OF ok c], of bytes] r(2) room(1) [unfolded add.assoc [symmetric]] obtain b where
    b: "read_fd (Readv_bytes bytes) (input_buffer c) = Inr (int (length bytes), None, b)" "buf_inv b"
      "content b = bytes" "length (buffer_bytes b) \<le> length (buffer_bytes (input_buffer c)) + length bytes"
    using nil by (auto simp: readv_fits_def)
  note s1 = echo_read [OF ok live u b(1), of os]
  let ?os = "os\<lparr>os_readv := \<lambda>_. Readv_bytes bytes\<rparr>"
  have "\<exists>t. on_message (scripted ?os me echo) u a tm (put_conn a (c\<lparr>input_buffer := b\<rparr>) (snd (issue ?os (Sys_readv (ch_fd ch)) s))) = Inr t \<and>
      echoed ?os me a n (ch_fd ch) (stream os s c ch @ bytes) t"
    using echo_message [OF s1(2) [OF b(2)] _ s1(4), of me n ?os u tm] s1(3) [OF b(2)] s1(5) me st room b(3,4) by simp
  then show ?thesis using s1(1) [of me tm] r(1) by (simp add: echoed_def)
qed

lemma echo_read_error:
  assumes e: "echoing me a n s c ch"
  shows "\<exists>t. echo_do os me a (Readable tm (Readv_error err)) s = Inr t \<and> echoed os me a n (ch_fd ch) (stream os s c ch) t"
proof -
  have ok: "net_ok {} s" and me: "thread_id s = me" and live: "conn_live s a c ch" using e by (simp_all add: echoing_def)
  have c: "conns s a = Some c" using live by (simp add: conn_live_def)
  obtain u where u: "message_callback c = Some u" using net_ok_conn(5) [OF ok c] by blast
  have b: "read_fd (Readv_error err) (input_buffer c) = Inr (-1, Some err, input_buffer c)" by simp
  let ?os = "os\<lparr>os_readv := \<lambda>_. Readv_error err\<rparr>"
  let ?l = "log_to LOG_SYSERR (put_conn a c (snd (issue ?os (Sys_readv (ch_fd ch)) s)))"
  let ?t = "log_to LOG_ERROR (snd (getSocketError ?os (ch_fd ch) ?l))"
  note s1 = echo_read [OF ok live u b, of os, simplified]
  note inv = net_ok_conn(2) [OF ok c]
  have ct: "calls_only (put_conn a c (snd (issue ?os (Sys_readv (ch_fd ch)) s))) ?t"
    by (rule calls_only_trans [OF calls_only_log calls_only_log_iff [OF socket_calls_only(5)]])
  note st = ok_step_calls [OF s1(2) [OF inv] ct]
  have two: "accepted os fd (cs @ [x, y]) = accepted os fd (cs @ [x]) @ taken os fd (Suc (length cs), y)" for fd cs x y
    using accepted_snoc [of os fd "cs @ [x]" y] by simp
  have "conn_handle_error ?os a ?l = Inr ?t"
    using s1(4) by (simp add: conn_handle_error_def conn_of_def heap_simps conn_live_def log_to_def)
  moreover have "echoing me a n ?t c ch"
    using e net_ok_step [OF s1(2) [OF inv] st] ok_stepD(3) [OF st] s1(3) [OF inv]
      conn_live_same_net [OF same_net_calls [OF ct], of a c ch] s1(4) by (simp add: echoing_def)
  moreover have "stream os ?t c ch = stream os s c ch"
    using s1(5) by (simp add: stream_def getSocketError_def issue_errno_def issue_def two accepted_snoc taken_def Let_def case_prod_beta log_to_def)
  ultimately show ?thesis using s1(1) [of me tm] by (auto intro: echoedI)
qed

lemma echo_writable:
  assumes e: "echoing me a n s c ch"
  shows "\<exists>t. echo_do os me a Writable s = Inr t \<and> echoed os me a n (ch_fd ch) (stream os s c ch) t"
proof -
  have ok: "net_ok {} s" and me: "thread_id s = me" and live: "conn_live s a c ch" and st: "conn_state c = Connected"
    and room: "room (output_buffer c) n" using e by (simp_all add: echoing_def)
  have c: "conns s a = Some c" using live by (simp add: conn_live_def)
  from conn_handle_write_ok [OF live, of os me] obtain t c' ch' where
    t: "conn_handle_write os me a s = Inr t" "conn_live t a c' ch'" "same_conn c c'" "input_buffer c' = input_buffer c"
      "ch_fd ch' = ch_fd ch" "stream os t c' ch' = stream os s c ch" "room (output_buffer c') n"
    using room unfolding wrote_def by blast
  have s: "ok_step s t" using conn_handle_write_safe [OF ok c, of os me] st t(1) by simp
  have "echoing me a n t c' ch'"
    using e net_ok_step [OF ok s] ok_stepD(3) [OF s] t(2,4,7) same_connD [OF t(3)] by (simp add: echoing_def)
  with t show ?thesis by (auto intro: echoedI)
qed

lemma echo_step:
  assumes e: "echoing me a (length (echo_input e) + n) s c ch" and o: "input_fits a e s"
  shows "\<exists>t. echo_do os me a e s = Inr t \<and> echoed os me a n (ch_fd ch) (stream os s c ch @ echo_input e) t"
proof (cases e)
  case (Readable tm r)
  have "conns s a = Some c" using e by (simp add: echoing_def conn_live_def)
  with Readable show ?thesis
    using e o echo_readable [of me a _ n s c ch os tm] echo_read_error [of me a n s c ch os tm] by (cases r) (simp_all del: echo_do.simps)
next
  case Writable
  then show ?thesis using e echo_writable [of me a n s c ch os] by (simp del: echo_do.simps)
qed

lemma echo_steps:
  assumes "echoed os me a (length (concat (map echo_input es))) fd bytes s" and "inputs_fit os me a es s"
  shows "\<exists>t. fold_res (echo_do os me a) es s = Inr t \<and> echoed os me a 0 fd (bytes @ concat (map echo_input es)) t"
  using assms
proof (induction es arbitrary: s bytes)
  case (Cons e es)
  from Cons.prems(1) obtain c ch where
    "echoing me a (length (echo_input e) + length (concat (map echo_input es))) s c ch" "ch_fd ch = fd" "stream os s c ch = bytes"
    by (auto simp: echoed_def)
  moreover have "input_fits a e s" using Cons.prems(2) by simp
  ultimately obtain t where
    "echo_do os me a e s = Inr t" "echoed os me a (length (concat (map echo_input es))) fd (bytes @ echo_input e) t"
    using echo_step [of me a e _ s c ch os] by blast
  with Cons.IH [of "bytes @ echo_input e" t] Cons.prems(2) show ?case by (simp del: echo_do.simps)
qed simp

lemma echo_writes:
  "fold_res (echo_do os me a) (replicate n Writable) s = fold_res (conn_handle_write os me) (replicate n a) s"
proof (induction n arbitrary: s)
  case (Suc n)
  then show ?case by (cases "conn_handle_write os me a s") simp_all
qed simp

section \<open>Properties\<close>

text \<open>
  C3.  An application that sends back what it receives, on a connection of which the peer has not closed its side, as long as both
  buffers can hold what arrives.  Whatever arrives, in whatever pieces \<^verbatim>\<open>readv\<close> can deliver (\<open>inputs_fit\<close>), with failed reads in between, and
  however the kernel takes the answers: no assertion fails, and in the end all bytes
  that came in have gone to the kernel or wait in the output buffer, in order and behind what was there before; nothing is
  left in the input buffer.  If the kernel takes at least a byte each time, as many more writability events as bytes are
  waiting hand the rest over: the kernel then has exactly what came in.
\<close>

theorem echo_returns_input:
  assumes "net_ok {} s" and "conn_live s a c ch" and "conn_state c = Connected"
    and "content (input_buffer c) = []" and "inputs_fit os (thread_id s) a es s"
    and "length (buffer_bytes (input_buffer c)) + length (concat (map echo_input es)) \<le> max_size"
    and "room (output_buffer c) (length (concat (map echo_input es)))"
  shows "\<exists>t d. fold_res (echo_do os (thread_id s) a) es s = Inr t \<and> conns t a = Some d \<and> content (input_buffer d) = [] \<and>
    accepted os (ch_fd ch) (syscalls t) @ content (output_buffer d) =
      accepted os (ch_fd ch) (syscalls s) @ content (output_buffer c) @ concat (map echo_input es) \<and>
    ((\<forall>k. 1 \<le> os_ret os k) \<longrightarrow>
      (\<exists>v. fold_res (echo_do os (thread_id s) a) (replicate (length (content (output_buffer d))) Writable) t = Inr v \<and>
        accepted os (ch_fd ch) (syscalls v) =
          accepted os (ch_fd ch) (syscalls s) @ content (output_buffer c) @ concat (map echo_input es)))"
proof -
  have "echoed os (thread_id s) a (length (concat (map echo_input es))) (ch_fd ch) (stream os s c ch) s"
    using assms by (intro echoedI [of _ _ _ _ c ch]) (simp_all add: echoing_def)
  from echo_steps [OF this assms(5)] obtain t d dh where
    t: "fold_res (echo_do os (thread_id s) a) es s = Inr t" "echoing (thread_id s) a 0 t d dh" "ch_fd dh = ch_fd ch"
      "stream os t d dh = stream os s c ch @ concat (map echo_input es)" by (auto simp: echoed_def)
  have live: "conn_live t a d dh" using t(2) by (simp add: echoing_def)
  have "\<exists>v. fold_res (echo_do os (thread_id s) a) (replicate (length (content (output_buffer d))) Writable) t = Inr v \<and>
      accepted os (ch_fd ch) (syscalls v) = stream os t d dh" if "\<And>k. 1 \<le> os_ret os k"
    using writes_drain [OF live order_refl that, of "thread_id s"] t(3) by (auto simp: echo_writes)
  then show ?thesis using t live by (intro exI [of _ t] exI [of _ d]) (auto simp: echoing_def stream_def conn_live_def)
qed

section \<open>Examples\<close>

definition echo_channel :: "nat closure channel" where
  "echo_channel = (sample_channel POLLIN)\<lparr>read_callback := Some (Conn_handle_read 30), write_callback := Some (Conn_handle_write 30),
     close_callback := Some (Conn_handle_close 30), error_callback := Some (Conn_handle_error 30)\<rparr>"

definition echo_net :: "nat net" where
  "echo_net = (sample_net Connected empty_buffer POLLIN)\<lparr>chans := [20 \<mapsto> echo_channel]\<rparr>"

lemma echo_net:
  "conn_live echo_net 30 (sample_conn Connected empty_buffer) echo_channel" "net_ok {} echo_net"
proof -
  show live: "conn_live echo_net 30 (sample_conn Connected empty_buffer) echo_channel"
    by (simp add: echo_net_def echo_channel_def conn_live_def sample_net_def sample_conn_def sample_channel_def loop_inv_def ep_inv_def
        registered_def is_writing_def k_write_event_def Channel_ctor_def empty_buffer_inv empty_buffer_content has_event_def poll_masks)
  have "conns echo_net = [30 \<mapsto> sample_conn Connected empty_buffer]" by (simp add: echo_net_def)
  moreover have "timers_ok echo_net" by (rule timers_ok_empty) (simp add: echo_net_def sample_net_def)
  ultimately show "net_ok {} echo_net"
    using live by (auto simp: net_ok_def conn_fit_def conn_live_def echo_channel_def conn_callbacks_def empty_buffer_inv split: if_splits)
qed

theorem echo_returns_input_witness:
  "\<exists>t v d. fold_res (echo_do (sample_os 0\<lparr>os_ret := \<lambda>_. 2\<rparr>) 7 30)
      [Readable invalid_timestamp (Readv_bytes ''hello''), Writable, Readable invalid_timestamp (Readv_error EAGAIN),
       Readable invalid_timestamp (Readv_bytes '' you'')] echo_net = Inr t \<and> conns t 30 = Some d \<and>
    fold_res (echo_do (sample_os 0\<lparr>os_ret := \<lambda>_. 2\<rparr>) 7 30) (replicate (length (content (output_buffer d))) Writable) t = Inr v \<and>
    accepted (sample_os 0\<lparr>os_ret := \<lambda>_. 2\<rparr>) 5 (syscalls v) = ''hello you''"
proof -
  let ?es = "[Readable invalid_timestamp (Readv_bytes ''hello''), Writable, Readable invalid_timestamp (Readv_error EAGAIN),
       Readable invalid_timestamp (Readv_bytes '' you'')]" and ?os = "sample_os 0\<lparr>os_ret := \<lambda>_. 2\<rparr>"
  have "inputs_fit ?os (thread_id echo_net) 30 ?es echo_net" by (rule short_inputs_fit) (auto simp: extra_buff_size_def)
  moreover have "length (buffer_bytes empty_buffer) + length (concat (map echo_input ?es)) \<le> max_size"
    "room empty_buffer (length (concat (map echo_input ?es)))"
    by (simp_all add: empty_buffer_def room_def max_size_def)
  ultimately show ?thesis
    using echo_returns_input [OF echo_net(2,1), of ?os ?es]
    by (auto simp: empty_buffer_content echo_net_def echo_channel_def accepted_def simp del: fold_res.simps)
qed

end
