(* ===== verification/Server_Run.thy ===== *)
theory Server_Run
  imports Server_Loop Conn_Lifetime Poll_Phase Echo
begin

text \<open>
  Whole turns of a server's loop, and runs of many turns: the dispatch of all channels the kernel reports,
  the pending functors, and what the environment owes the server.
\<close>

section \<open>References\<close>

text \<open>
  What makes it safe to free connections: no connection's channel is being handled, and either the application keeps all its connections (\<open>k\<close>) or
  no write-complete callback is set, so that no functor holds a raw pointer.
\<close>

definition tidy :: "bool \<Rightarrow> ('u, 'z) server_scheme \<Rightarrow> bool" where
  "tidy k s \<longleftrightarrow> (\<forall>a c. conns s a = Some c \<longrightarrow> idle s (conn_channel c)) \<and>
     (k \<or> server_write_callback s = None \<and> (\<forall>a c. conns s a = Some c \<longrightarrow> write_complete_callback c = None))"

lemma tidyI:
  assumes old: "tidy k s" and new: "inherits s t" and chan: "\<And>a c. conns s a = Some c \<Longrightarrow> idle t (conn_channel c)"
  shows "tidy k t"
  unfolding tidy_def
proof (intro conjI allI impI)
  show "idle t (conn_channel d)" if "conns t a = Some d" for a d
    using inheritsE [OF new that] chan by metis
  have wb: "server_write_callback t = server_write_callback s" using new by (simp add: inherits_def)
  have "write_complete_callback d = None" if "server_write_callback s = None" "\<forall>a c. conns s a = Some c \<longrightarrow> write_complete_callback c = None"
      "conns t a = Some d" for a d
    using inheritsE [OF new that(3)] that(1,2) by metis
  with old show "k \<or> server_write_callback t = None \<and> (\<forall>a c. conns t a = Some c \<longrightarrow> write_complete_callback c = None)"
    unfolding tidy_def wb by blast
qed

lemma tidy_same: "tidy k s \<Longrightarrow> inherits s t \<Longrightarrow> same_chans s t \<Longrightarrow> tidy k t"
  by (rule tidyI) (auto simp: tidy_def intro: idle_same)

lemma tidy_stays: "tidy k s \<Longrightarrow> stays s t \<Longrightarrow> tidy k t"
  unfolding stays_def using tidy_same by blast

lemma tidy_carries:
  assumes "tidy k s" and c: "carries b s t"
  shows "tidy k t"
proof (rule tidyI [OF assms(1)])
  show "inherits s t" using c by (simp add: carries_def)
  fix a d assume "conns s a = Some d"
  then have "idle s (conn_channel d)" using assms(1) unfolding tidy_def by blast
  then obtain x where x: "chans s (conn_channel d) = Some x" "\<not> event_handling x" unfolding idle_def by blast
  show "idle t (conn_channel d)"
  proof (cases "conn_channel d = b")
    case True
    then show ?thesis using c by (simp add: carries_def)
  next
    case False
    with c x(1) obtain y where "chans t (conn_channel d) = Some y" "same_chan x y" unfolding carries_def by blast
    then show ?thesis using x(2) by (simp add: idle_def same_chan_def)
  qed
qed

section \<open>Dispatch\<close>

text \<open>A channel that can be handled: the acceptor's, the loop's own, or one of an open connection.\<close>

definition due :: "addr list \<Rightarrow> ('u, 'z) server_scheme \<Rightarrow> addr \<Rightarrow> bool" where
  "due cl s b \<longleftrightarrow> (\<exists>ch. chans s b = Some ch \<and> plain (ch_revents ch) \<and>
     (b = accept_channel s \<and> reader Acceptor_handle_read_once ch \<or> reader EventLoop_handle_read ch \<or>
      reader TimerQueue_handle_read ch \<or>
      (\<exists>a c. conns s a = Some c \<and> conn_channel c = b \<and> conn_state c \<noteq> Disconnected \<and> a \<notin> set cl)))"

lemma due_carries:
  assumes due: "due cl s b'" and ne: "b' \<noteq> b" and c: "carries b s t"
    and cl: "\<And>a c. conns s a = Some c \<Longrightarrow> conn_channel c = b' \<Longrightarrow> a \<notin> set cl \<Longrightarrow> a \<notin> set cl'"
  shows "due cl' t b'"
proof -
  from due obtain ch where ch: "chans s b' = Some ch" "plain (ch_revents ch)" and
    how: "b' = accept_channel s \<and> reader Acceptor_handle_read_once ch \<or> reader EventLoop_handle_read ch \<or> reader TimerQueue_handle_read ch \<or>
      (\<exists>a c. conns s a = Some c \<and> conn_channel c = b' \<and> conn_state c \<noteq> Disconnected \<and> a \<notin> set cl)"
    unfolding due_def by blast
  from c ne ch(1) obtain y where y: "chans t b' = Some y" "same_chan ch y" unfolding carries_def by blast
  have acc: "accept_channel t = accept_channel s" using c by (simp add: carries_def)
  have pl: "plain (ch_revents y)" using y(2) ch(2) by (simp add: same_chan_def same_dispatch_def)
  from how show ?thesis
  proof (elim disjE)
    assume "\<exists>a c. conns s a = Some c \<and> conn_channel c = b' \<and> conn_state c \<noteq> Disconnected \<and> a \<notin> set cl"
    then obtain a d where d: "conns s a = Some d" "conn_channel d = b'" "conn_state d \<noteq> Disconnected" "a \<notin> set cl" by blast
    from c d(1) obtain d' where d': "conns t a = Some d'" "kept d d'" unfolding carries_def by blast
    have "conn_channel d' = b'" "conn_state d' \<noteq> Disconnected" using keptD(2,7) [OF d'(2)] d(2,3) by simp_all
    with y(1) pl d'(1) cl [OF d(1,2,4)] show ?thesis unfolding due_def by blast
  qed (use y pl acc reader_same [OF y(2)] in \<open>auto simp: due_def\<close>)
qed

text \<open>
  What the environment owes the handling of the channel at \<open>b\<close>: \<^verbatim>\<open>readv\<close> returns no more bytes than the two
  buffers it was given hold, \<^verbatim>\<open>accept\<close> hands out a descriptor that is not in use, and the clock is not read at the very
  microsecond for which a timer is set (\<^verbatim>\<open>get_expired\<close> asserts that it is not).
\<close>

definition env_ok :: "os \<Rightarrow> (('u, 'z) server_scheme \<Rightarrow> addr \<times> addr) \<Rightarrow> addr \<Rightarrow> ('u, 'z) server_scheme \<Rightarrow> bool" where
  "env_ok os fresh b s \<longleftrightarrow>
     (let k = length (syscalls s) in
      (b = accept_channel s \<and> 0 \<le> os_ret os k \<longrightarrow> can_accept fresh (os_ret os k) s) \<and>
      (\<forall>a c. conns s a = Some c \<and> conn_channel c = b \<longrightarrow>
         readv_fits (os_readv os k) (input_buffer c) \<and> readv_fits (os_readv os (Suc k)) (input_buffer c)) \<and>
      (case chans s b of None \<Rightarrow> True
       | Some ch \<Rightarrow> read_callback ch = Some TimerQueue_handle_read \<longrightarrow> \<not> list_ex (same_key (time_now os s)) (timers s)))"

lemma can_accept_mark:
  "chans s b = Some ch \<Longrightarrow> can_accept fresh fd s \<Longrightarrow> can_accept fresh fd (put_chan b x s)"
  by (subgoal_tac "insert b (dom (chans s)) = dom (chans s)") (auto simp: can_accept_def put_chan_def registered_def)

text \<open>The two channels of the loop itself: the wake-up descriptor and the timers.\<close>

lemma wakeup_channel_safe:
  fixes s :: "('u, 'z) server_scheme"
  assumes "serving me cl s"
  shows "length_safe (\<lambda>t. serving me cl t \<and> stays s t) (server_call_read app os me user fresh EventLoop_handle_read tm s)"
proof -
  have "calls_only s (handle_read os s)" by (simp add: handle_read_def calls_only_log_iff case_prod_beta)
  from serving_calls [OF assms this] show ?thesis by (simp add: server_call_read_def conn_call_read_def loop_closure_read_def)
qed

lemma timer_channel_safe:
  fixes s :: "('u, 'z) server_scheme"
  assumes ok: "serving me cl s" and tm: "user = timer_code os me g" "proper_timers g" and rnd: "ieee_rounding (os_round os)"
    and instant: "\<not> list_ex (same_key (time_now os s)) (timers s)"
  shows "length_safe (\<lambda>t. serving me cl t \<and> stays s t) (server_call_read app os me user fresh TimerQueue_handle_read now s)"
proof -
  have "\<not> (\<exists>e \<in> set (timers s). same_key (time_now os s) e)" using instant by (simp add: list_ex_iff)
  from timer_expiration_safe [OF serving_net(1,2) [OF ok] tm(2) rnd this]
  have "length_safe (\<lambda>t. serving me cl t \<and> stays s t) (timer_handle_read os me user s)"
    unfolding tm(1) by (rule length_safe_mono) (use serving_step [OF ok] stays_step in blast)
  then show ?thesis by (simp add: server_call_read_def conn_call_read_def loop_closure_read_def)
qed

lemma handle_due:
  fixes s :: "('u, 'z) server_scheme"
  assumes ok: "serving me cl s" "tidy k s" and due: "due cl s b" and env: "env_ok os fresh b s" and tm: "user = timer_code os me g" "proper_timers g"
    and app: "app = server_app os me (scripted os me f)" "proper_script f" "ieee_rounding (os_round os)"
  shows "length_safe (\<lambda>t. \<exists>cl'. serving me cl' t \<and> tidy k t \<and> (\<forall>b'. b' \<noteq> b \<longrightarrow> due cl s b' \<longrightarrow> due cl' t b'))
    (handle_event (server_call app os me user) (server_call_read app os me user fresh) tm b s)"
proof -
  let ?run = "handle_event (server_call app os me user) (server_call_read app os me user fresh) tm b s"
  have still: "length_safe (\<lambda>t. \<exists>cl'. serving me cl' t \<and> tidy k t \<and> (\<forall>b'. b' \<noteq> b \<longrightarrow> due cl s b' \<longrightarrow> due cl' t b')) ?run"
    if "length_safe (\<lambda>t. serving me cl t \<and> carries b s t) ?run"
    using that by (rule length_safe_mono) (use due_carries tidy_carries [OF ok(2)] in blast)
  from due obtain ch where ch: "chans s b = Some ch" "plain (ch_revents ch)" and
    how: "b = accept_channel s \<and> reader Acceptor_handle_read_once ch \<or> reader EventLoop_handle_read ch \<or> reader TimerQueue_handle_read ch \<or>
      (\<exists>a c. conns s a = Some c \<and> conn_channel c = b \<and> conn_state c \<noteq> Disconnected \<and> a \<notin> set cl)"
    unfolding due_def by blast
  from how show ?thesis
  proof (elim disjE conjE exE)
    assume b: "b = accept_channel s" and rd: "reader Acceptor_handle_read_once ch"
    show ?thesis
    proof (rule still, rule handle_reader [OF ok(1) ch(1) rd])
      fix s1 assume s1: "s1 = put_chan b (ch\<lparr>event_handling := True\<rparr>) s" "serving me cl s1"
      then have "0 \<le> os_ret os (length (syscalls s1)) \<Longrightarrow> can_accept fresh (os_ret os (length (syscalls s1))) s1"
        using env b can_accept_mark [OF ch(1), of fresh] by (simp add: env_ok_def Let_def put_chan_def)
      from handle_accept [OF s1(2) this app]
      show "length_safe (\<lambda>t. serving me cl t \<and> stays s1 t) (server_call_read app os me user fresh Acceptor_handle_read_once tm s1)"
        by (simp add: server_call_read_def conn_call_read_def)
    qed
  next
    assume rd: "reader EventLoop_handle_read ch"
    show ?thesis
      by (rule still, rule handle_reader [OF ok(1) ch(1) rd], rule wakeup_channel_safe)
  next
    assume rd: "reader TimerQueue_handle_read ch"
    show ?thesis
    proof (rule still, rule handle_reader [OF ok(1) ch(1) rd])
      fix s1 assume s1: "s1 = put_chan b (ch\<lparr>event_handling := True\<rparr>) s" "serving me cl s1"
      then have "\<not> list_ex (same_key (time_now os s1)) (timers s1)"
        using env ch(1) rd by (simp add: env_ok_def Let_def put_chan_def reader_def time_now_def)
      then show "length_safe (\<lambda>t. serving me cl t \<and> stays s1 t) (server_call_read app os me user fresh TimerQueue_handle_read tm s1)"
        by (rule timer_channel_safe [OF s1(2) tm app(3)])
    qed
  next
    fix a c assume c: "conns s a = Some c" "conn_channel c = b" "conn_state c \<noteq> Disconnected" "a \<notin> set cl"
    have "readv_fits (os_readv os (length (syscalls s) + (if error_event (ch_revents ch) then 1 else 0))) (input_buffer c)"
      using env c(1,2) by (simp add: env_ok_def Let_def)
    from handle_conn_event [OF ok(1) c ch this app, of user fresh tm] show ?thesis
    proof (rule length_safe_mono)
      fix t assume t: "(serving me cl t \<or> serving me (cl @ [a]) t) \<and> carries b s t"
      have "due (cl @ [a]) t b'" if "b' \<noteq> b" "due cl s b'" for b'
        using t that(1) c(1,2) by (intro due_carries [OF that(2,1)]) auto
      with t show "\<exists>cl'. serving me cl' t \<and> tidy k t \<and> (\<forall>b'. b' \<noteq> b \<longrightarrow> due cl s b' \<longrightarrow> due cl' t b')"
        using due_carries tidy_carries [OF ok(2)] by blast
    qed
  qed
qed

text \<open>The environment along the list of active channels.\<close>

fun env_turn :: "os \<Rightarrow> (('u, 'z) server_scheme \<Rightarrow> addr \<times> addr) \<Rightarrow>
    (addr \<Rightarrow> ('u, 'z) server_scheme \<Rightarrow> ('u, 'z) server_scheme res) \<Rightarrow> addr list \<Rightarrow> ('u, 'z) server_scheme \<Rightarrow> bool" where
  "env_turn os fresh handle [] s \<longleftrightarrow> True"
| "env_turn os fresh handle (b # bs) s \<longleftrightarrow> env_ok os fresh b s \<and>
     (case handle b s of Inl e \<Rightarrow> True | Inr t \<Rightarrow> env_turn os fresh handle bs t)"

lemma dispatch_safe:
  fixes s :: "('u, 'z) server_scheme"
  assumes ok: "serving me cl s" "tidy k s" and active: "distinct bs" "\<forall>b \<in> set bs. due cl s b" and tm: "user = timer_code os me g" "proper_timers g"
    and app: "app = server_app os me (scripted os me f)" "proper_script f" "ieee_rounding (os_round os)"
    and env: "env_turn os fresh (handle_event (server_call app os me user) (server_call_read app os me user fresh) tm) bs s"
  shows "length_safe (\<lambda>t. \<exists>cl'. serving me cl' t \<and> tidy k t)
    (fold_res (handle_event (server_call app os me user) (server_call_read app os me user fresh) tm) bs s)"
proof -
  let ?h = "handle_event (server_call app os me user) (server_call_read app os me user fresh) tm"
  define J where "J bs s \<longleftrightarrow> distinct bs \<and> env_turn os fresh ?h bs s \<and> tidy k s \<and> (\<exists>cl. serving me cl s \<and> (\<forall>b \<in> set bs. due cl s b))" for bs and s :: "('u, 'z) server_scheme"
  have "length_safe (J []) (fold_res ?h bs s)"
  proof (rule length_safe_fold)
    show "J bs s" using assms unfolding J_def by blast
    fix b rest u assume J: "J (b # rest) u"
    then obtain cl where u: "serving me cl u" "\<forall>b' \<in> set (b # rest). due cl u b'" unfolding J_def by blast
    have "env_ok os fresh b u" "tidy k u" using J by (simp_all add: J_def)
    from handle_due [OF u(1) this(2) _ this(1) tm app] u(2)
    have safe: "length_safe (\<lambda>t. \<exists>cl'. serving me cl' t \<and> tidy k t \<and> (\<forall>b'. b' \<noteq> b \<longrightarrow> due cl u b' \<longrightarrow> due cl' t b')) (?h b u)" by simp
    show "length_safe (J rest) (?h b u)"
    proof (cases "?h b u")
      case (Inl e)
      then show ?thesis using safe by simp
    next
      case (Inr t)
      then have "env_turn os fresh ?h rest t" "b \<notin> set rest" "distinct rest" using J by (simp_all add: J_def)
      moreover from safe Inr obtain cl' where "serving me cl' t" "tidy k t" "\<forall>b'. b' \<noteq> b \<longrightarrow> due cl u b' \<longrightarrow> due cl' t b'" by auto
      moreover have "\<forall>b' \<in> set rest. due cl' t b'" using calculation(2,6) u(2) by auto
      ultimately show ?thesis using Inr unfolding J_def by auto
    qed
  qed
  then show ?thesis by (rule length_safe_mono) (auto simp: J_def)
qed

section \<open>Pending functors\<close>

lemma completes_run:
  fixes s :: "('u, 'z) server_scheme"
  assumes ok: "srv_ok me cl s" and fits: "completes s g" and tm: "user = timer_code os me h" "proper_timers h"
    and app: "app = server_app os me (scripted os me f)" "proper_script f" "ieee_rounding (os_round os)"
  shows "length_safe (ok_step s) (server_call app os me user g s)"
proof -
  have net: "net_ok {} s" "thread_id s = me" using ok by (simp_all add: srv_ok_def)
  from fits consider u where "g = User u" | a c where "g = Conn_write_complete a" "conns s a = Some c" unfolding completes_def by blast
  then show ?thesis
  proof cases
    case (1 u)
    have "length_safe (\<lambda>t. ok_step s t \<and> timers_grow s t) (fold_res (app_exec os me) (h u s) s)"
      using script_safe [OF net(1) _ net(2) app(3), of "h u s"] tm(2) by (simp add: proper_timers_def)
    then show ?thesis by (auto simp: 1 tm(1) server_call_def conn_call_def loop_closure_def timer_code_def elim: length_safe_mono)
  next
    case (2 a c)
    have "on_write_complete app = on_write_complete (scripted os me f)" by (simp add: app(1) server_app_def)
    with scripted_safe(3) [OF net(1) app(2) 2(2) net(2) app(3)] 2 ok_step_refl [OF net(1)] fits show ?thesis
      by (auto simp: server_call_def conn_call_def conn_write_complete_def conn_of_def completes_def invoke_def split: option.splits)
  qed
qed

lemma completes_put:
  assumes "completes s g" and "conns s a = Some c" and "write_complete_callback d = write_complete_callback c"
  shows "completes (put_conn a d s) g"
  by (rule completes_back [OF assms(1)]) (use assms(2,3) in auto)

lemma map_ok_destroyed:
  assumes ok: "map_ok (a # cl) s" and c: "conns s a = Some c"
  shows "map_ok cl (put_conn a (c\<lparr>conn_state := Disconnected\<rparr>) s)"
  unfolding map_ok_def
proof (intro conjI allI impI ballI)
  let ?t = "put_conn a (c\<lparr>conn_state := Disconnected\<rparr>) s"
  show "distinct cl" using ok by (simp add: map_ok_def)
  have conn: "connections ?t = connections s" by (simp add: put_conn_def)
  fix n b assume "connections ?t n = Some b"
  then obtain d where "b \<notin> set (a # cl)" "conns s b = Some d" "conn_name d = n" "conn_state d \<noteq> Disconnected"
    using ok unfolding conn map_ok_def by metis
  then show "b \<notin> set cl" "\<exists>d. conns ?t b = Some d \<and> conn_name d = n \<and> conn_state d \<noteq> Disconnected" by auto
next
  fix b assume "b \<in> set cl"
  then show "\<exists>d. conns (put_conn a (c\<lparr>conn_state := Disconnected\<rparr>) s) b = Some d \<and> conn_state d \<noteq> Disconnected"
    using ok unfolding map_ok_def by auto
next
  let ?t = "put_conn a (c\<lparr>conn_state := Disconnected\<rparr>) s"
  fix b d assume d: "conns ?t b = Some d"
  then show "conn_close_callback d = Some Server_remove_connection"
    using ok c unfolding map_ok_def by (auto split: if_splits)
  assume "conn_state d \<noteq> Disconnected \<and> b \<notin> set cl"
  with d have "conns s b = Some d" "conn_state d \<noteq> Disconnected" "b \<notin> set (a # cl)" by (auto split: if_splits)
  then show "connections ?t (conn_name d) = Some b" using ok unfolding map_ok_def by (simp add: put_conn_def)
qed

text \<open>A connection that was destroyed and is still there.\<close>

definition gone :: "('u, 'z) net_scheme \<Rightarrow> addr \<Rightarrow> bool" where
  "gone s a \<longleftrightarrow> (\<exists>c. conns s a = Some c \<and> conn_state c = Disconnected)"

lemma gone_kept:
  assumes "conns_kept s t" and "gone s a"
  shows "gone t a"
proof -
  from assms(2) obtain c where c: "conns s a = Some c" "conn_state c = Disconnected" unfolding gone_def by blast
  from kept_conn [OF assms(1) c(1)] c(2) keptD(7) show ?thesis unfolding gone_def by blast
qed

lemma destroyed_run:
  fixes s :: "('u, 'z) server_scheme"
  assumes ok: "srv_ok me (a # cl) s"
    and app: "app = server_app os me (scripted os me f)" "proper_script f" "ieee_rounding (os_round os)"
  shows "length_safe (\<lambda>t. srv_ok me cl t \<and> (\<forall>fs. functors_fit s fs \<longrightarrow> functors_fit t fs) \<and>
      (functors_fit s (pending_functors s) \<longrightarrow> functors_fit t (pending_functors t) \<and>
        destroys (pending_functors t) = destroys (pending_functors s)) \<and>
      inherits s t \<and> same_chans s t \<and> gone t a \<and> (\<forall>b. gone s b \<longrightarrow> gone t b))
    (server_call app os me user (Conn_connect_destroyed a) s)"
proof -
  have srv: "net_ok {} s" "thread_id s = me" "map_ok (a # cl) s" "names_ok s" "known_channels s" "server_set s"
    using ok by (simp_all add: srv_ok_def)
  from srv(3) obtain c where c: "conns s a = Some c" "conn_state c \<noteq> Disconnected" unfolding map_ok_def by auto
  let ?c = "c\<lparr>conn_state := Disconnected\<rparr>"
  have "on_connection app = on_connection (scripted os me f)" by (simp add: app(1) server_app_def)
  from connect_destroyed_safe [OF srv(1) c srv(2) this app(2,3)]
  have "length_safe (\<lambda>t. net_ok {} t \<and> replaced a ?c s t \<and> (\<forall>f b. registered t f = Some b \<longrightarrow> registered s f = Some b))
      (connect_destroyed app os me a s)" .
  then show ?thesis unfolding server_call_destroyed
  proof (rule length_safe_mono, elim conjE)
    fix t assume net: "net_ok {} t" and rep: "replaced a ?c s t"
      and reg: "\<forall>f b. registered t f = Some b \<longrightarrow> registered s f = Some b"
    let ?u = "put_conn a ?c s"
    have r: "net.more t = net.more ?u" "thread_id t = me" "same_chans s t" "conns_kept ?u t" "queues_completes ?u t"
      using rep srv(2) by (simp_all add: replaced_def put_conn_def)
    note more = more_fields [OF r(1)]
    have u: "connections ?u = connections s" "next_conn_id ?u = next_conn_id s" "server_name ?u = server_name s"
        "accept_channel ?u = accept_channel s" "pending_functors ?u = pending_functors s" "registered ?u = registered s"
      by (simp_all add: put_conn_def registered_def)
    have fit: "functors_fit ?u fs" if "functors_fit s fs" for fs
      using that completes_put [OF _ c(1)] unfolding functors_fit_def by auto
    have "map_ok cl t" by (rule map_ok_kept [OF map_ok_destroyed [OF srv(3) c(1)] r(4) more(1)])
    moreover have "known_channels ?u" using c(1) u(4,6) by (intro known_channels_grow [OF srv(5)]) auto
    then have "known_channels t" using known_channels_kept [OF _ r(4) more(7)] r(3) reg u(6) by (simp add: same_chans_def)
    moreover have "names_ok t" using srv(4) more(1-3) u(1-3) by (simp add: names_ok_def)
    moreover have "server_set t" using srv(6) more(4,5,6,8) by (simp add: server_set_def put_conn_def)
    ultimately have "srv_ok me cl t" using net r(2) by (simp add: srv_ok_def)
    moreover have "functors_fit t fs" if "functors_fit s fs" for fs by (rule functors_fit_kept [OF fit [OF that] r(4)])
    moreover have inh: "inherits s t"
    proof (rule inherits_trans)
      show "inherits s ?u" by (rule inheritsI) (use c(1) in \<open>auto simp: put_conn_def split: if_splits\<close>)
      show "inherits ?u t" by (rule inherits_kept [OF r(4) more(9)])
      show "same_chans ?u t" using r(3) by (simp add: same_chans_def)
    qed
    moreover have g: "gone ?u a" "\<forall>b. gone s b \<longrightarrow> gone ?u b" by (auto simp: gone_def)
    moreover note queues_fit [OF r(5,4)]
    ultimately show "srv_ok me cl t \<and> (\<forall>fs. functors_fit s fs \<longrightarrow> functors_fit t fs) \<and>
      (functors_fit s (pending_functors s) \<longrightarrow> functors_fit t (pending_functors t) \<and>
        destroys (pending_functors t) = destroys (pending_functors s)) \<and>
      inherits s t \<and> same_chans s t \<and> gone t a \<and> (\<forall>b. gone s b \<longrightarrow> gone t b)"
      using fit u(5) inh r(3) gone_kept [OF r(4)] g by simp
  qed
qed

lemma functors_fit_Cons: "functors_fit s (g # fs) \<longleftrightarrow> (completes s g \<or> (\<exists>a. g = Conn_connect_destroyed a)) \<and> functors_fit s fs"
  by (simp add: functors_fit_def)

lemma functors_safe:
  fixes s :: "('u, 'z) server_scheme"
  assumes ok: "serving me cl s" "tidy k s" and tm: "user = timer_code os me h" "proper_timers h"
    and app: "app = server_app os me (scripted os me f)" "proper_script f" "ieee_rounding (os_round os)"
    and R: "cl = [] \<Longrightarrow> R s" "\<And>u t. R u \<Longrightarrow> conns_kept u t \<Longrightarrow> connections t = connections u \<Longrightarrow> registered t = registered u \<Longrightarrow> R t"
  shows "length_safe (\<lambda>t. at_rest me t \<and> tidy k t \<and> (\<forall>a \<in> set cl. gone t a) \<and> (cl = [] \<longrightarrow> R t))
    (do_pending_functors (server_call app os me user) s)"
proof -
  let ?s = "s\<lparr>calling_pending_functors := True, pending_functors := []\<rparr>" and ?run = "server_call app os me user"
  define J where "J fs s \<longleftrightarrow> srv_ok me (destroys fs) s \<and> functors_fit s fs \<and> functors_fit s (pending_functors s) \<and>
      destroys (pending_functors s) = [] \<and> tidy k s \<and> set (destroys fs) \<subseteq> set cl \<and> (\<forall>a \<in> set cl. a \<in> set (destroys fs) \<or> gone s a) \<and>
      (cl = [] \<longrightarrow> R s)" for fs and s :: "('u, 'z) server_scheme"
  have flags: "srv_ok me cl (s\<lparr>calling_pending_functors := h, pending_functors := fs\<rparr>) = srv_ok me cl s" for cl h fs and s :: "('u, 'z) server_scheme"
    using net_ok_cong [of "s\<lparr>calling_pending_functors := h, pending_functors := fs\<rparr>" s "{}"]
    by (simp add: srv_ok_def server_set_def map_ok_def names_ok_def known_channels_def registered_def)
  have flags': "tidy k (s\<lparr>calling_pending_functors := h, pending_functors := fs\<rparr>) = tidy k s"
      "R s \<Longrightarrow> R (s\<lparr>calling_pending_functors := h, pending_functors := fs\<rparr>)" for h fs and s :: "('u, 'z) server_scheme"
    by (simp add: tidy_def idle_def) (erule R(2), simp_all add: conns_kept_eq registered_def)
  have all: "length_safe (J []) (fold_res ?run (pending_functors s) ?s)"
  proof (rule length_safe_fold)
    show "J (pending_functors s) ?s"
      using ok R(1) flags [where cl = cl and h = True and fs = "[]" and s = s] flags' [where h = True and fs = "[]" and s = s]
      by (simp add: J_def serving_def functors_fit_def completes_def)
    fix g fs u assume J: "J (g # fs) u"
    then consider "completes u g" | a where "g = Conn_connect_destroyed a" by (auto simp: J_def functors_fit_def)
    then show "length_safe (J fs) (?run g u)"
    proof cases
      case 1
      then have d: "destroys (g # fs) = destroys fs" by (auto simp: completes_def)
      then have srv: "srv_ok me (destroys fs) u" using J by (simp add: J_def)
      from completes_run [OF srv 1 tm app] show ?thesis
      proof (rule length_safe_mono)
        fix t assume t: "ok_step u t"
        note step = ok_stepD [OF t]
        have "tidy k t" using J tidy_stays [OF _ stays_step [OF t]] by (simp add: J_def)
        moreover have "cl = [] \<longrightarrow> R t" using J R(2) [OF _ step(6) more_fields(1) [OF step(2)] step(4)] by (simp add: J_def)
        ultimately show "J fs t" using J d srv_ok_step [OF srv t] functors_fit_kept [OF _ step(6)] queues_fit [OF step(8,6)]
          gone_kept [OF step(6)] by (auto simp: J_def functors_fit_Cons)
      qed
    next
      case 2
      then have J': "srv_ok me (a # destroys fs) u" "cl \<noteq> []" using J by (auto simp: J_def)
      from destroyed_run [OF this(1) app, of user] show ?thesis unfolding 2
        by (rule length_safe_mono) (use J J'(2) tidy_same [of k u] in \<open>auto simp: J_def functors_fit_Cons 2\<close>)
    qed
  qed
  let ?P = "\<lambda>t. at_rest me t \<and> tidy k t \<and> (\<forall>a \<in> set cl. gone t a) \<and> (cl = [] \<longrightarrow> R t)"
  have "length_safe ?P (andthen (fold_res ?run (pending_functors s) ?s) (\<lambda>t. Inr (t\<lparr>calling_pending_functors := False\<rparr>)))"
    using all
  proof (rule length_safe_andthen)
    fix t assume "J [] t"
    then show "length_safe ?P (Inr (t\<lparr>calling_pending_functors := False\<rparr>))"
      using flags [where cl = "[]" and h = False and fs = "pending_functors t" and s = t]
        flags' [where h = False and fs = "pending_functors t" and s = t]
      by (simp add: J_def serving_def functors_fit_def completes_def gone_def)
  qed
  then show ?thesis by (simp add: do_pending_functors_def Let_def)
qed

section \<open>The last references\<close>

lemma registered_open:
  assumes net: "net_ok {} s" and c: "conns s a = Some c" and fd: "registered s fd = Some (conn_channel c)"
  shows "conn_state c \<noteq> Disconnected"
proof -
  from net_ok_conn(1) [OF net c] obtain ch where ch: "chans s (conn_channel c) = Some ch" by blast
  have "ch_fd ch = fd" using looppoll.reg_live [of "loop_poller s" s fd "conn_channel c"] net_ok_loop [OF net] fd ch
    by (auto simp: loop_inv_def registered_def)
  then show ?thesis using net c ch fd unfolding net_ok_def conn_fit_def by fastforce
qed

text \<open>A destroyed connection is freed.\<close>

lemma freed_fields:
  fixes s :: "('u, 'z) server_scheme"
  assumes "conns s a = Some c" and "chans s (conn_channel c) = Some ch" and "\<not> event_handling ch"
    and t: "TcpConnection_dtor os a s = Inr t"
  shows "same_serving (s\<lparr>conns := (conns s)(a := None)\<rparr>) t"
proof -
  let ?s1 = "s\<lparr>chans := (chans s)(conn_channel c := None)\<rparr>"
  have "same_serving ?s1 (Socket_dtor os (ch_fd ch) ?s1)"
    by (rule same_serving_calls) (simp add: Socket_dtor_def socket_calls_only)
  then show ?thesis using t by (auto simp: dtor_eq [OF assms(1-3)] same_serving_def)
qed

lemma map_ok_freed:
  assumes ok: "map_ok [] s" and c: "conns s a = Some c" "conn_state c = Disconnected"
    and t: "connections t = connections s" "conns t = (conns s)(a := None)"
  shows "map_ok [] t"
  unfolding map_ok_def
proof (intro conjI allI impI ballI)
  fix n b assume "connections t n = Some b"
  then obtain d where d: "conns s b = Some d" "conn_name d = n" "conn_state d \<noteq> Disconnected"
    using ok t(1) unfolding map_ok_def by metis
  then have "b \<noteq> a" using c by auto
  with d show "\<exists>d. conns t b = Some d \<and> conn_name d = n \<and> conn_state d \<noteq> Disconnected" using t(2) by simp
next
  fix b d assume "conns t b = Some d"
  then have d: "conns s b = Some d" using t(2) by (simp split: if_splits)
  then show "conn_close_callback d = Some Server_remove_connection" using ok unfolding map_ok_def by blast
  assume "conn_state d \<noteq> Disconnected \<and> b \<notin> set []"
  then show "connections t (conn_name d) = Some b" using ok d t(1) unfolding map_ok_def by metis
qed simp_all

lemma known_channels_freed:
  assumes ok: "known_channels s" and ch: "chans s (conn_channel c) = Some ch" "conn_callbacks a ch" and c: "conns s a = Some c"
    and unreg: "\<forall>f. registered s f \<noteq> Some (conn_channel c)" and t: "registered t = registered s" "conns t = (conns s)(a := None)"
      "chans t = (chans s)(conn_channel c := None)" "accept_channel t = accept_channel s"
  shows "known_channels t"
  unfolding known_channels_def t(4)
proof (intro conjI allI impI)
  from ok obtain x where x: "chans s (accept_channel s) = Some x" "reader Acceptor_handle_read_once x" unfolding known_channels_def by blast
  then have "accept_channel s \<noteq> conn_channel c" using ch by (auto simp: reader_def conn_callbacks_def)
  with x show "\<exists>ch. chans t (accept_channel s) = Some ch \<and> reader Acceptor_handle_read_once ch" using t(3) by simp
  fix fd b assume "registered t fd = Some b"
  then have b: "registered s fd = Some b" "b \<noteq> conn_channel c" using t(1) unreg by auto
  with ok consider "b = accept_channel s" | e d where "conns s e = Some d" "conn_channel d = b"
    | y where "chans s b = Some y" "reader EventLoop_handle_read y \<or> reader TimerQueue_handle_read y"
    unfolding known_channels_def by metis
  then show "b = accept_channel s \<or> (\<exists>e d. conns t e = Some d \<and> conn_channel d = b) \<or>
      (\<exists>y. chans t b = Some y \<and> (reader EventLoop_handle_read y \<or> reader TimerQueue_handle_read y))"
  proof cases
    case 2
    then have "conns t e = Some d" using b(2) c t(2) by auto
    with 2 show ?thesis by blast
  next
    case 3
    then show ?thesis using b(2) t(3) by simp
  qed simp
qed

lemma dtor_safe:
  fixes s :: "('u, 'z) server_scheme"
  assumes ok: "at_rest me s" "tidy False s" and a: "gone s a"
  shows "\<exists>t. TcpConnection_dtor os a s = Inr t \<and> at_rest me t \<and> tidy False t \<and> (\<forall>b. b \<noteq> a \<longrightarrow> gone s b \<longrightarrow> gone t b)"
proof -
  from a obtain c where c: "conns s a = Some c" "conn_state c = Disconnected" unfolding gone_def by blast
  have srv: "net_ok {} s" "thread_id s = me" "map_ok [] s" "names_ok s" "known_channels s" "server_set s"
    using ok(1) by (simp_all add: serving_def srv_ok_def)
  from net_ok_conn(1) [OF srv(1) c(1)] obtain ch where ch: "chans s (conn_channel c) = Some ch" "conn_callbacks a ch" by blast
  have "idle s (conn_channel c)" using ok(2) c(1) unfolding tidy_def by blast
  then have idle: "\<not> event_handling ch" using ch(1) by (simp add: idle_def)
  have unreg: "\<forall>f. registered s f \<noteq> Some (conn_channel c)" using registered_open [OF srv(1) c(1)] c(2) by blast
  from TcpConnection_dtor_ok [OF net_ok_loop [OF srv(1)] c(1) ch(1) idle unreg, of os] obtain t where
    t: "TcpConnection_dtor os a s = Inr t" "loop_inv t" "registered t = registered s" "conns t = (conns s)(a := None)"
      "chans t = (chans s)(conn_channel c := None)" by blast
  note eq = freed_fields [OF c(1) ch(1) idle t(1), unfolded same_serving_def, simplified]
  have other: "conn_channel d \<noteq> conn_channel c" if "conns s b = Some d" "b \<noteq> a" for b d
    using net_ok_conn(1) [OF srv(1) that(1)] ch that(2) by (auto simp: conn_callbacks_def)
  have "conn_fit {} t b d" if "conns t b = Some d" for b d
  proof -
    have b: "conns s b = Some d" "b \<noteq> a" using that t(4) by (auto split: if_splits)
    then have "conn_fit {} s b d" using srv(1) by (simp add: net_ok_def)
    then show ?thesis using other [OF b] t(3,5) by (simp add: conn_fit_def)
  qed
  then have "net_ok {} t" using t(2) timers_ok_cong [of t s] net_ok_timers [OF srv(1)] eq by (simp add: net_ok_def)
  moreover have "map_ok [] t" by (rule map_ok_freed [OF srv(3) c _ t(4)]) (use eq in simp)
  moreover have "known_channels t" by (rule known_channels_freed [OF srv(5) ch c(1) unreg t(3,4,5)]) (use eq in simp)
  moreover have "names_ok t" "server_set t" "thread_id t = me" using srv eq by (simp_all add: names_ok_def server_set_def)
  moreover have "functors_fit t (pending_functors t)" "destroys (pending_functors t) = []"
    using ok eq by (auto simp: serving_def functors_fit_def completes_def tidy_def)
  ultimately have "at_rest me t" by (simp add: serving_def srv_ok_def)
  moreover have "tidy False t" using ok(2) other eq unfolding tidy_def idle_def t(4,5) by (auto split: if_splits)
  moreover have "gone s b \<Longrightarrow> b \<noteq> a \<Longrightarrow> gone t b" for b using t(4) by (simp add: gone_def)
  ultimately show ?thesis using t(1) by blast
qed

lemma drops_safe:
  fixes s :: "('u, 'z) server_scheme"
  assumes "at_rest me s" "tidy k s" and keep: "k \<longrightarrow> (\<forall>s a. held s a)" and "distinct (destroys fs)" "\<forall>a \<in> set (destroys fs). gone s a"
  shows "length_safe (\<lambda>t. at_rest me t \<and> tidy k t) (fold_res (drop_functor os held) fs s)"
proof -
  define J where "J fs s \<longleftrightarrow> at_rest me s \<and> tidy k s \<and> distinct (destroys fs) \<and> (\<forall>a \<in> set (destroys fs). gone s a)"
    for fs :: "'u closure list" and s :: "('u, 'z) server_scheme"
  have "length_safe (J []) (fold_res (drop_functor os held) fs s)"
  proof (rule length_safe_fold)
    show "J fs s" using assms by (simp add: J_def)
    fix g gs u assume J: "J (g # gs) u"
    show "length_safe (J gs) (drop_functor os held g u)"
    proof (cases "\<exists>a. g = Conn_connect_destroyed a \<and> \<not> held u a")
      case True
      then obtain a where a: "g = Conn_connect_destroyed a" "\<not> held u a" by blast
      with keep have "\<not> k" by blast
      with J a have "at_rest me u" "tidy False u" "gone u a" by (simp_all add: J_def)
      from dtor_safe [OF this, of os] obtain t where
        "TcpConnection_dtor os a u = Inr t" "at_rest me t" "tidy False t" "\<forall>b. b \<noteq> a \<longrightarrow> gone u b \<longrightarrow> gone t b" by blast
      then show ?thesis using J a \<open>\<not> k\<close> by (auto simp: J_def)
    next
      case False
      have "J gs u" using J by (cases g) (auto simp: J_def)
      then show ?thesis using False by (auto simp: drop_functor_def split: closure.splits)
    qed
  qed
  then show ?thesis by (rule length_safe_mono) (simp add: J_def)
qed

lemma drops_none: "destroys fs = [] \<Longrightarrow> fold_res (drop_functor os held) fs s = Inr s"
  by (induction fs rule: destroys.induct) (simp_all add: drop_functor_def)

lemma run_functors_safe:
  fixes s :: "('u, 'z) server_scheme"
  assumes ok: "serving me cl s" "tidy k s" and keep: "k \<longrightarrow> (\<forall>s a. held s a)" and tm: "user = timer_code os me h" "proper_timers h"
    and app: "app = server_app os me (scripted os me f)" "proper_script f" "ieee_rounding (os_round os)"
    and R: "cl = [] \<Longrightarrow> R s" "\<And>u t. R u \<Longrightarrow> conns_kept u t \<Longrightarrow> connections t = connections u \<Longrightarrow> registered t = registered u \<Longrightarrow> R t"
  shows "length_safe (\<lambda>t. at_rest me t \<and> tidy k t \<and> (cl = [] \<longrightarrow> R t)) (run_functors app os me user held s)"
  unfolding run_functors_def
proof (rule length_safe_andthen [OF functors_safe [OF ok tm app, of R]])
  fix t assume t: "at_rest me t \<and> tidy k t \<and> (\<forall>a \<in> set cl. gone t a) \<and> (cl = [] \<longrightarrow> R t)"
  have cl: "destroys (pending_functors s) = cl" "distinct cl" using ok(1) by (simp_all add: serving_def srv_ok_def map_ok_def)
  show "length_safe (\<lambda>t. at_rest me t \<and> tidy k t \<and> (cl = [] \<longrightarrow> R t)) (fold_res (drop_functor os held) (pending_functors s) t)"
  proof (cases "cl = []")
    case True
    then show ?thesis using t cl(1) by (simp add: drops_none)
  next
    case False
    have "length_safe (\<lambda>t. at_rest me t \<and> tidy k t) (fold_res (drop_functor os held) (pending_functors s) t)"
      using t cl by (intro drops_safe [OF _ _ keep]) auto
    then show ?thesis by (rule length_safe_mono) (simp add: False)
  qed
qed (use R in auto)

section \<open>Turns\<close>

text \<open>
  The environment in a turn in which the waiting call answers \<open>r\<close>: it reports any of the registered channels, that of the
  timers among them, with any of the masks the kernel reports.
\<close>

definition turn_ok ::
  "('u, ('u, 'z) server_scheme) app \<Rightarrow> os \<Rightarrow> nat \<Rightarrow> ('u closure \<Rightarrow> ('u, 'z) server_scheme \<Rightarrow> ('u, 'z) server_scheme res) \<Rightarrow>
   (('u, 'z) server_scheme \<Rightarrow> addr \<times> addr) \<Rightarrow> poll_result \<Rightarrow> ('u, 'z) server_scheme \<Rightarrow> bool" where
  "turn_ok app os me user fresh r s \<longleftrightarrow>
     wait_ok (\<lambda>b. plain) r (loop_poller s) \<and>
     (case poller_poll_impl (os_clock os) r [] (loop_poller s, s\<lparr>active_channels := []\<rparr>) of
        Inl e \<Rightarrow> True
      | Inr (tm, active, p, t) \<Rightarrow>
          env_turn os fresh (handle_event (server_call app os me user) (server_call_read app os me user fresh) tm) active
            (t\<lparr>loop_poller := p, active_channels := active, poll_return_time := tm\<rparr>))"

lemma polled_serving:
  fixes s :: "('u, 'z) server_scheme"
  assumes ok: "serving me cl s" and u: "clocked (s\<lparr>active_channels := []\<rparr>) u" and t: "reported Q active u t"
    and p: "impl_reg p = impl_reg (loop_poller s)" "impl_inv p t"
  shows "serving me cl (t\<lparr>loop_poller := p, active_channels := active, poll_return_time := tm\<rparr>)"
    "conns t = conns s" "chans u = chans s" "accept_channel t = accept_channel s"
    "tidy k s \<Longrightarrow> tidy k (t\<lparr>loop_poller := p, active_channels := active, poll_return_time := tm\<rparr>)"
proof -
  from u obtain n l where u': "u = s\<lparr>active_channels := [], clock_reads := n, logs := l\<rparr>" by (auto simp: clocked_def)
  from t obtain X where t': "t = u\<lparr>chans := X\<rparr>" unfolding reported_def by metis
  show "conns t = conns s" "chans u = chans s" "accept_channel t = accept_channel s" by (simp_all add: t' u')
  let ?t = "t\<lparr>loop_poller := p, active_channels := active, poll_return_time := tm\<rparr>"
  show "serving me cl ?t"
  proof (rule serving_remarked [OF ok])
    have "\<exists>y. chans ?t b = Some y \<and> alike x y" if "chans s b = Some x" for b x
    proof -
      have "chans u b = Some x" using that u' by simp
      from reportedD [OF t this] show ?thesis by (auto simp: alike_def)
    qed
    then show "remarked s ?t" unfolding remarked_def by blast
    show "loop_inv ?t" using p(2) impl_inv_cong [of ?t t p] by (simp add: loop_inv_def)
    show "registered ?t = registered s" using p(1) by (simp add: registered_def)
    show "same_serving (s\<lparr>loop_poller := loop_poller ?t\<rparr>) ?t" by (simp add: t' u' same_serving_def)
  qed
  show "tidy k ?t" if tidy: "tidy k s"
  proof (rule tidyI [OF tidy])
    show "inherits s ?t" by (simp add: t' u' inherits_def)
    fix a c assume "conns s a = Some c"
    then have "idle s (conn_channel c)" using tidy unfolding tidy_def by blast
    then obtain x where x: "chans u (conn_channel c) = Some x" "\<not> event_handling x" by (auto simp: idle_def u')
    from reportedD [OF t x(1)] x(2) show "idle ?t (conn_channel c)" by (auto simp: idle_def)
  qed
qed

lemma registered_due:
  assumes ok: "at_rest me s" and b: "b \<in> Map.ran (registered s)" and ch: "chans s b = Some ch" "plain (ch_revents ch)"
  shows "due [] s b"
proof -
  from b obtain fd where fd: "registered s fd = Some b" unfolding Map.ran_def by blast
  have net: "net_ok {} s" and k: "known_channels s" using ok by (simp_all add: serving_def srv_ok_def)
  from k fd consider "b = accept_channel s" | a c where "conns s a = Some c" "conn_channel c = b"
    | x where "chans s b = Some x" "reader EventLoop_handle_read x \<or> reader TimerQueue_handle_read x"
    unfolding known_channels_def by metis
  then show ?thesis
  proof cases
    case 1
    then show ?thesis using k ch unfolding due_def known_channels_def by auto
  next
    case 2
    with registered_open [OF net 2(1)] fd have "conn_state c \<noteq> Disconnected" by simp
    with 2 ch show ?thesis unfolding due_def by auto
  next
    case 3
    then show ?thesis using ch unfolding due_def by auto
  qed
qed

lemma turn_safe:
  fixes s :: "('u, 'z) server_scheme"
  assumes ok: "at_rest me s" "tidy k s" and keep: "k \<longrightarrow> (\<forall>s a. held s a)" and env: "turn_ok app os me user fresh r s" and tm: "user = timer_code os me g" "proper_timers g"
    and app: "app = server_app os me (scripted os me f)" "proper_script f" "ieee_rounding (os_round os)"
  shows "length_safe (\<lambda>t. at_rest me t \<and> tidy k t) (server_loop_once app os me user fresh held r s)"
proof -
  let ?s = "s\<lparr>active_channels := []\<rparr>" and ?run = "server_call app os me user" and ?read = "server_call_read app os me user fresh"
  have "impl_inv (loop_poller s) s" using ok(1) by (simp add: serving_def srv_ok_def net_ok_def loop_inv_def)
  then have "impl_inv (loop_poller s) ?s" using impl_inv_cong [of ?s s "loop_poller s"] by simp
  moreover have "wait_ok (\<lambda>b. plain) r (loop_poller s)" using env by (simp add: turn_ok_def)
  ultimately obtain tm active p u t where
    t: "poller_poll_impl (os_clock os) r [] (loop_poller s, ?s) = Inr (tm, active, p, t)" "clocked ?s u"
      "reported (\<lambda>b. plain) active u t" "distinct active" "set active \<subseteq> Map.ran (registered s)"
      "impl_reg p = impl_reg (loop_poller s)" "impl_inv p t"
    using poll_phase [of "loop_poller s" ?s "\<lambda>b. plain" r "os_clock os"] unfolding registered_def by blast
  let ?t = "t\<lparr>loop_poller := p, active_channels := active, poll_return_time := tm\<rparr>"
  note ok1 = polled_serving [OF ok(1) t(2,3,6,7)]
  have due: "due [] ?t b" if "b \<in> set active" for b
  proof -
    have reg: "b \<in> Map.ran (registered s)" using t(5) that by blast
    then obtain fd where "registered s fd = Some b" unfolding Map.ran_def by blast
    with \<open>impl_inv (loop_poller s) s\<close> obtain x where x: "chans s b = Some x"
      using looppoll.reg_live [of "loop_poller s" s fd b] by (auto simp: registered_def)
    with reportedD [OF t(3), of b x] that ok1(3) obtain ev where
      ev: "chans t b = Some (x\<lparr>ch_revents := ev\<rparr>)" "plain ev" by auto
    then show ?thesis using reg t(6) x by (intro registered_due [OF ok1(1), where ch = "x\<lparr>ch_revents := ev\<rparr>"]) (simp_all add: registered_def)
  qed
  have "env_turn os fresh (handle_event ?run ?read tm) active ?t" using env t(1) by (simp add: turn_ok_def)
  from dispatch_safe [OF ok1(1,5) t(4) _ tm app this] ok(2) due
  have "length_safe (\<lambda>t. \<exists>cl. serving me cl t \<and> tidy k t) (fold_res (handle_event ?run ?read tm) active ?t)" by blast
  then have "length_safe (\<lambda>t. at_rest me t \<and> tidy k t) (andthen (fold_res (handle_event ?run ?read tm) active ?t) (run_functors app os me user held))"
  proof (rule length_safe_andthen)
    fix v :: "('u, 'z) server_scheme" assume "\<exists>cl. serving me cl v \<and> tidy k v"
    then obtain cl where "serving me cl v" "tidy k v" by blast
    from run_functors_safe [OF this keep tm app, where R = "\<lambda>_. True"]
    show "length_safe (\<lambda>t. at_rest me t \<and> tidy k t) (run_functors app os me user held v)" by simp
  qed
  then show ?thesis using t(1) by (simp add: server_loop_once_def Let_def)
qed

text \<open>A turn in which a connection arrives and nothing else happens.\<close>

lemma accept_arrives:
  fixes s :: "('u, 'z) server_scheme" and os :: os
  defines "fd \<equiv> os_ret os (length (syscalls s))"
  assumes ok: "serving me cl s" and fd: "0 < fd" "0 \<le> os_ret os (length (syscalls s) + 1)" "registered s fd = None"
    and fresh: "chans s cha = None" "conns s a = None" "next_conn_id s < INT_MAX"
    and app: "app = server_app os me (scripted os me f)" "proper_script f" "ieee_rounding (os_round os)"
  shows "length_safe (\<lambda>t. serving me cl t \<and> stays s t \<and> arrived a cha fd s t)
    (server_call_read app os me user (\<lambda>_. (a, cha)) Acceptor_handle_read_once tm s)"
proof -
  let ?new = "\<lambda>fd peer s. new_connection app os me a cha fd peer s"
  have "thread_id s = me" "new_connection_callback s" using ok by (simp_all add: serving_def srv_ok_def server_set_def)
  from handle_read_once_accepts [OF this, of os ?new] fd(1,2) obtain S peer where
    S: "handle_read_once os me ?new s = new_connection app os me a cha fd peer S" "calls_only s S" unfolding fd_def by blast
  have f: "chans S = chans s" "conns S = conns s" "next_conn_id S = next_conn_id s" "registered S = registered s" "server_name S = server_name s"
      "connections S = connections s"
    using S(2) by (auto simp: calls_only_def registered_def)
  have okS: "serving me cl S" "stays s S" using serving_calls [OF ok S(2)] by simp_all
  have "length_safe (\<lambda>t. serving me cl t \<and> stays S t \<and> arrived a cha fd S t) (new_connection app os me a cha fd peer S)"
    using new_connection_arrives [OF okS(1) _ _ _ _ _ app, of cha a fd peer] fd fresh f by simp
  then have "length_safe (\<lambda>t. serving me cl t \<and> stays s t \<and> arrived a cha fd s t) (new_connection app os me a cha fd peer S)"
    by (rule length_safe_mono) (use stays_trans [OF okS(2)] f(3-6) in \<open>auto simp: arrived_def\<close>)
  then show ?thesis using S(1) by (simp add: server_call_read_def conn_call_read_def)
qed

lemma arrived_kept:
  assumes "arrived a cha fd s u" and "conns_kept u t" and "connections t = connections u" and "registered t = registered u"
  shows "arrived a cha fd s t"
proof -
  from assms(1) obtain c where c: "conns u a = Some c" "conn_channel c = cha" "conn_name c = server_name s @ conn_suffix (next_conn_id s)"
      "conn_state c = Connected \<or> conn_state c = Disconnecting" unfolding arrived_def Let_def by blast
  from kept_conn [OF assms(2) c(1)] obtain d where d: "conns t a = Some d" "kept c d" by blast
  then show ?thesis using assms(1,3,4) c keptD(1,2,8) [OF d(2)] by (auto simp: arrived_def Let_def)
qed

lemma arrived_mark: "arrived a cha fd s t \<Longrightarrow> arrived a cha fd s (put_chan b y t)"
  by (simp add: arrived_def put_chan_def registered_def Let_def)

lemma polled_one:
  fixes s :: "('u, 'z) server_scheme" and ev :: cint and tm :: timestamp
  assumes ok: "serving me cl s" "tidy k s" and ch: "chans s b = Some ch" and p: "impl_reg p = impl_reg (loop_poller s)" "impl_inv p s"
  defines "t \<equiv> (put_chan b (ch\<lparr>ch_revents := ev\<rparr>) (s\<lparr>active_channels := [], clock_reads := Suc (clock_reads s)\<rparr>))
      \<lparr>loop_poller := p, active_channels := [b], poll_return_time := tm\<rparr>"
  shows "serving me cl t" "tidy k t"
proof -
  let ?u = "s\<lparr>active_channels := [], clock_reads := Suc (clock_reads s)\<rparr>"
  have inv: "impl_inv p (put_chan b (ch\<lparr>ch_revents := ev\<rparr>) ?u)"
    using impl_inv_put [of p ?u b ch] p(2) ch impl_inv_cong [of ?u s p] by simp
  have "clocked (s\<lparr>active_channels := []\<rparr>) ?u" by (auto simp: clocked_def)
  moreover have "reported (\<lambda>_ _. True) [b] ?u (put_chan b (ch\<lparr>ch_revents := ev\<rparr>) ?u)"
    using ch by (intro reported_Cons [OF _ _ reported_refl]) simp_all
  ultimately show "serving me cl t" "tidy k t"
    unfolding t_def using polled_serving(1,5) [OF ok(1) _ _ p(1) inv] ok(2) by blast+
qed

lemma reports_onlyD:
  assumes "reports_only clk r b ev s"
  shows "\<exists>p ch. chans s b = Some ch \<and> impl_reg p = impl_reg (loop_poller s) \<and> (impl_inv (loop_poller s) s \<longrightarrow> impl_inv p s) \<and>
    poller_poll_impl clk r [] (loop_poller s, s) = Inr (timestamp_at (clk (clock_reads s)), [b], p,
      put_chan b (ch\<lparr>ch_revents := ev\<rparr>) (s\<lparr>clock_reads := Suc (clock_reads s)\<rparr>))"
  using assms unfolding reports_only_def by blast

lemma arrival_safe:
  fixes s :: "('u, 'z) server_scheme" and os :: os
  defines "fd \<equiv> os_ret os (length (syscalls s))"
  assumes ok: "at_rest me s" "tidy k s" and keep: "k \<longrightarrow> (\<forall>s a. held s a)"
    and r: "reports_only (os_clock os) r (accept_channel s) POLLIN (s\<lparr>active_channels := []\<rparr>)"
    and fd: "0 < fd" "0 \<le> os_ret os (length (syscalls s) + 1)" "registered s fd = None"
    and fresh: "chans s cha = None" "conns s a = None" "next_conn_id s < INT_MAX"
    and tm: "user = timer_code os me g" "proper_timers g"
    and app: "app = server_app os me (scripted os me f)" "proper_script f" "ieee_rounding (os_round os)"
  shows "length_safe (\<lambda>t. at_rest me t \<and> tidy k t \<and> arrived a cha fd s t) (server_loop_once app os me user (\<lambda>_. (a, cha)) held r s)"
proof -
  let ?b = "accept_channel s" and ?u = "s\<lparr>active_channels := [], clock_reads := Suc (clock_reads s)\<rparr>"
  have inv: "impl_inv q (s\<lparr>active_channels := []\<rparr>) = impl_inv q s" for q using impl_inv_cong [of "s\<lparr>active_channels := []\<rparr>" s q] by simp
  from reports_onlyD [OF r] obtain p x where p: "chans s ?b = Some x" "impl_reg p = impl_reg (loop_poller s)"
      "impl_inv (loop_poller s) s \<longrightarrow> impl_inv p s" and
    poll: "poller_poll_impl (os_clock os) r [] (loop_poller s, s\<lparr>active_channels := []\<rparr>) =
      Inr (timestamp_at (os_clock os (clock_reads s)), [?b], p, put_chan ?b (x\<lparr>ch_revents := POLLIN\<rparr>) ?u)"
    unfolding inv by auto
  let ?tm = "timestamp_at (os_clock os (clock_reads s))" and ?x = "x\<lparr>ch_revents := POLLIN\<rparr>"
  define t where "t = (put_chan ?b ?x ?u)\<lparr>loop_poller := p, active_channels := [?b], poll_return_time := ?tm\<rparr>"
  have "impl_inv p s" using p(3) ok(1) by (simp add: serving_def srv_ok_def net_ok_def loop_inv_def)
  note t = polled_one [OF ok p(1,2) this, where ev = POLLIN and tm = ?tm, folded t_def]
  have "reader Acceptor_handle_read_once x" using ok(1) p(1) by (auto simp: serving_def srv_ok_def known_channels_def)
  then have x: "chans t ?b = Some ?x" "reader Acceptor_handle_read_once ?x" "read_event (ch_revents ?x)"
    using in_events by (simp_all add: t_def reader_def)
  have same: "arrived a cha fd s v" if "arrived a cha fd (put_chan ?b y t) v" for v y
    using that p(2) by (simp add: arrived_def t_def put_chan_def registered_def Let_def)
  have free: "chans t cha = None" using fresh(1) p(1) by (auto simp: t_def)
  let ?run = "server_call app os me user" and ?read = "server_call_read app os me user (\<lambda>_. (a, cha))"
  have "length_safe (\<lambda>v. serving me [] v \<and> carries ?b t v \<and> arrived a cha fd s v) (handle_event ?run ?read ?tm ?b t)"
  proof (rule handle_reader_with [OF t(1) x(1,2)])
    fix s1 assume s1: "s1 = put_chan ?b (?x\<lparr>event_handling := True\<rparr>) t" "serving me [] s1"
    have f: "syscalls s1 = syscalls s" "registered s1 = registered s" "conns s1 = conns s" "next_conn_id s1 = next_conn_id s" "chans s1 cha = None"
      using s1(1) p(2) free x(1) by (auto simp: t_def put_chan_def registered_def)
    have "length_safe (\<lambda>v. serving me [] v \<and> stays s1 v \<and> arrived a cha fd s1 v) (?read Acceptor_handle_read_once ?tm s1)"
      using accept_arrives [OF s1(2), of os cha a app f user ?tm] fd fresh(2,3) f app unfolding fd_def by simp
    then show "length_safe (\<lambda>v. serving me [] v \<and> stays s1 v \<and> arrived a cha fd s v) (?read Acceptor_handle_read_once ?tm s1)"
      by (rule length_safe_mono) (use same in \<open>auto simp: s1(1)\<close>)
  qed (use x(3) arrived_mark in auto)
  then have "length_safe (\<lambda>v. at_rest me v \<and> tidy k v \<and> arrived a cha fd s v)
      (andthen (handle_event ?run ?read ?tm ?b t) (run_functors app os me user held))"
  proof (rule length_safe_andthen)
    fix v assume v: "serving me [] v \<and> carries ?b t v \<and> arrived a cha fd s v"
    then have "tidy k v" using tidy_carries [OF t(2)] by blast
    with v have "length_safe (\<lambda>w. at_rest me w \<and> tidy k w \<and> ([] = ([] :: addr list) \<longrightarrow> arrived a cha fd s w)) (run_functors app os me user held v)"
      by (intro run_functors_safe [OF _ _ keep tm app]) (blast intro: arrived_kept)+
    then show "length_safe (\<lambda>v. at_rest me v \<and> tidy k v \<and> arrived a cha fd s v) (run_functors app os me user held v)" by simp
  qed
  then show ?thesis using poll by (simp add: server_loop_once_def Let_def t_def)
qed

section \<open>Runs\<close>

text \<open>Any number of turns, in each of which the environment behaves as documented.\<close>

inductive server_turns ::
  "('u, ('u, 'z) server_scheme) app \<Rightarrow> os \<Rightarrow> nat \<Rightarrow> ('u closure \<Rightarrow> ('u, 'z) server_scheme \<Rightarrow> ('u, 'z) server_scheme res) \<Rightarrow>
   (('u, 'z) server_scheme \<Rightarrow> addr \<times> addr) \<Rightarrow> (('u, 'z) server_scheme \<Rightarrow> addr \<Rightarrow> bool) \<Rightarrow> ('u, 'z) server_scheme \<Rightarrow> ('u, 'z) server_scheme \<Rightarrow> bool"
  for app os me user fresh held s where
  start: "server_turns app os me user fresh held s s"
| turn: "server_turns app os me user fresh held s t \<Longrightarrow> turn_ok app os me user fresh r t \<Longrightarrow>
    server_loop_once app os me user fresh held r t = Inr u \<Longrightarrow> server_turns app os me user fresh held s u"

lemma server_turns_at_rest:
  assumes "server_turns app os me user fresh held s t" and "at_rest me s" "tidy k s" and keep: "k \<longrightarrow> (\<forall>s a. held s a)"
    and tm: "user = timer_code os me g" "proper_timers g"
    and app: "app = server_app os me (scripted os me f)" "proper_script f" "ieee_rounding (os_round os)"
  shows "at_rest me t \<and> tidy k t"
  using assms(1)
proof induction
  case start
  then show ?case using assms(2,3) by simp
next
  case (turn t r u)
  then have "at_rest me t" "tidy k t" by simp_all
  from turn_safe [OF this keep turn.hyps(2) tm app] turn.hyps(3) show ?case by simp
qed

text \<open>A loop that was just constructed, as part of a larger state.\<close>

lemma loop_constructed:
  fixes s :: "('u, 'z) server_scheme"
  assumes env: "fresh_env env" and loop: "EventLoop_ctor os env me h = Inr (reactor.truncate s)"
  shows "loop_inv s" "thread_id s = me" "pending_functors s = []" "timers s = []"
    "registered s = [env_timer_fd env \<mapsto> env_timer_channel env, env_event_fd env \<mapsto> env_wakeup_channel env]"
    "registered s g = Some b \<Longrightarrow> \<exists>ch. chans s b = Some ch \<and> (reader EventLoop_handle_read ch \<or> reader TimerQueue_handle_read ch)"
proof -
  let ?l = "reactor.truncate s"
  from EventLoop_ctor_ok [OF env, of os me h] loop have l: "loop_inv ?l" "thread_id ?l = me" "pending_functors ?l = []" "timers ?l = []"
      "registered ?l = [env_timer_fd env \<mapsto> env_timer_channel env, env_event_fd env \<mapsto> env_wakeup_channel env]"
      "\<exists>ch. chans ?l (env_timer_channel env) = Some ch \<and> reads_with TimerQueue_handle_read (env_timer_fd env) ch"
      "\<exists>ch. chans ?l (env_wakeup_channel env) = Some ch \<and> reads_with EventLoop_handle_read (env_event_fd env) ch"
    by auto
  have tr: "chans ?l = chans s" "loop_poller ?l = loop_poller s" "thread_id ?l = thread_id s" "pending_functors ?l = pending_functors s"
      "timers ?l = timers s" by (simp_all add: reactor.truncate_def)
  show "loop_inv s" using l(1) tr impl_inv_cong [of ?l s "loop_poller s"] by (simp add: loop_inv_def)
  show "thread_id s = me" "pending_functors s = []" "timers s = []" using l(2-4) tr(3-5) by simp_all
  show reg: "registered s = [env_timer_fd env \<mapsto> env_timer_channel env, env_event_fd env \<mapsto> env_wakeup_channel env]"
    using l(5) tr(2) by (simp add: registered_def)
  show "\<exists>ch. chans s b = Some ch \<and> (reader EventLoop_handle_read ch \<or> reader TimerQueue_handle_read ch)"
    if "registered s g = Some b"
    using that l(6,7) unfolding reg tr by (auto simp: reads_with_def reader_def split: if_splits)
qed

text \<open>A server on a loop that was just constructed.\<close>

lemma started_at_rest:
  fixes s :: "('u, 'z) server_scheme"
  defines "k \<equiv> length (syscalls s)"
  assumes env: "fresh_env env" and loop: "EventLoop_ctor os env me h = Inr (reactor.truncate s)"
    and none: "conns s = Map.empty" and cha: "chans s cha = None"
    and opened: "0 \<le> os_ret os k" "0 \<le> os_ret os (k + 1)" "os_ret os k \<noteq> env_timer_fd env" "os_ret os k \<noteq> env_event_fd env"
  shows "\<exists>s1 s2. TcpServer_ctor os cha addr s = Inr s1 \<and>
    server_start os me fr loop_of (s1\<lparr>server_connect_callback := Some cb, server_message_callback := Some mb, server_write_callback := wb\<rparr>) = Inr s2 \<and>
    at_rest me s2 \<and> tidy (wb \<noteq> None) s2"
proof -
  note l = loop_constructed [OF env loop]
  from TcpServer_ctor_ok [OF l(1) cha, of os addr, folded k_def, OF opened(2,1)] obtain s1 ch where
    s1: "TcpServer_ctor os cha addr s = Inr s1" "loop_inv s1" "registered s1 = registered s" "thread_id s1 = thread_id s"
      "pending_functors s1 = pending_functors s" "chans s1 cha = Some ch" "ch_fd ch = os_ret os k" "ch_index ch = -1"
      "owner_loop ch = this_loop" "accept_channel s1 = cha" "server_pool s1 = EventLoopThreadPool_ctor"
      "\<not> server_started s1" "\<not> listenning s1" "next_conn_id s1 = 1" "connections s1 = Map.empty"
      "ch = (Channel_ctor this_loop (os_ret os k))\<lparr>read_callback := Some Acceptor_handle_read_once\<rparr>"
      "chans s1 = (chans s)(cha \<mapsto> ch)" "conns s1 = conns s" "new_connection_callback s1" "timers s1 = timers s" by blast
  let ?s1 = "s1\<lparr>server_connect_callback := Some cb, server_message_callback := Some mb, server_write_callback := wb\<rparr>"
  have inv1: "loop_inv ?s1" by (rule loop_inv_agree [OF s1(2)]) simp_all
  have free: "registered ?s1 (ch_fd ch) = None" using s1(3,7) opened(3,4) l(5) by (simp add: registered_def)
  from server_start_ok [OF inv1 _ _ _ s1(8,9) _ free, of me cb os fr loop_of] s1 l(2,3) opened(1) obtain s2 where
    s2: "server_start os me fr loop_of ?s1 = Inr s2" "server_inv cb s2" "thread_id s2 = me" "connections s2 = Map.empty"
      "registered s2 = (registered ?s1)(ch_fd ch \<mapsto> cha)" "next_conn_id s2 = 1" "same_chans ?s1 s2" "conns s2 = conns ?s1"
      "accept_channel s2 = cha" "new_connection_callback s2" "server_message_callback s2 = Some mb" "timers s2 = timers ?s1"
      "server_write_callback s2 = wb" by auto
  have conns: "conns s2 = Map.empty" using s2(8) s1(18) none by simp
  have ok: "conns_ok cb (closing s2) s2" "pending_functors s2 = map Conn_connect_destroyed (closing s2)"
    using s2(2) by (simp_all add: server_inv_def)
  have "closing s2 = []" using ok(1) conns by (cases "closing s2") (auto simp: conns_ok_def open_conn_def)
  have read: "\<exists>y. chans s2 b = Some y \<and> reader f y" if "chans s1 b = Some x" "reader f x" for b x f
    using same_chansD [OF s2(7), of b x] that reader_same by auto
  have "reader Acceptor_handle_read_once ch" by (simp add: s1(16) reader_def Channel_ctor_def)
  from read [OF s1(6) this] have acc: "\<exists>y. chans s2 cha = Some y \<and> reader Acceptor_handle_read_once y" .
  have own2: "\<exists>y. chans s2 b = Some y \<and> (reader EventLoop_handle_read y \<or> reader TimerQueue_handle_read y)"
    if "registered s g = Some b" for g b
  proof -
    from l(6) [OF that] obtain x where x: "chans s b = Some x" "reader EventLoop_handle_read x \<or> reader TimerQueue_handle_read x" by blast
    then have "chans s1 b = Some x" using s1(17) cha by auto
    then show ?thesis using read x(2) by blast
  qed
  have "known_channels s2" unfolding known_channels_def s2(9)
  proof (intro conjI allI impI acc)
    fix g b assume "registered s2 g = Some b"
    then have "b = cha \<or> registered s g = Some b" using s2(5) s1(3) by (auto simp: registered_def split: if_splits)
    then show "b = cha \<or> (\<exists>a c. conns s2 a = Some c \<and> conn_channel c = b) \<or>
        (\<exists>ch. chans s2 b = Some ch \<and> (reader EventLoop_handle_read ch \<or> reader TimerQueue_handle_read ch))" using own2 by blast
  qed
  moreover have "timers_ok s2" using s2(12) s1(20) l(4) by (intro timers_ok_empty) simp
  then have "net_ok {} s2" using ok(1) conns by (simp add: net_ok_def conns_ok_def)
  moreover have "map_ok [] s2" "names_ok s2" using conns s2(4,6) by (simp_all add: map_ok_def names_ok_def INT_MAX_def)
  moreover have "server_set s2" using ok(1) s2(10,11) by (simp add: server_set_def conns_ok_def)
  moreover have "pending_functors s2 = []" using ok(2) \<open>closing s2 = []\<close> by simp
  ultimately have "at_rest me s2" using s2(3) by (simp add: serving_def srv_ok_def functors_fit_def)
  moreover have "tidy (wb \<noteq> None) s2" using conns s2(13) by (cases wb) (simp_all add: tidy_def)
  ultimately show ?thesis using s1(1) s2(1) by blast
qed

section \<open>Properties\<close>

text \<open>
  C2.  A server survives.  On a loop just constructed, a \<^verbatim>\<open>TcpServer\<close> without worker threads is constructed, given its callbacks and
  started, then the loop turns any number of times.  In each turn any set of its channels may be ready: several connections
  at once, errors, hang-ups, input and output together, arrivals, expired timers, failed system calls.  The application may send, shut down,
  take input, set timers (of up to 2000 seconds), cancel them and queue functors in any of its callbacks, those of its timers and its functors among them,
  on any connection that exists.  Connections are freed with the functor that destroys them, unless the application holds a reference (\<open>held\<close>).
  No assertion fails, no empty callback is called, no freed connection or channel is used, nothing is undefined: every turn ends with the server in
  order, all queued destructions carried out, or with the exception of an exhausted buffer (\<^verbatim>\<open>std::length_error\<close>).

  The conditions: if a write-complete callback is set, the application keeps its connections (the functors of that callback
  hold a raw pointer, which dangles otherwise); and \<open>turn_ok\<close>, which says of the environment that no hang-up is reported without input but with
  priority data or half-close (on these two masks of events \<^verbatim>\<open>Channel::handle_event\<close> closes twice), that \<^verbatim>\<open>accept\<close> gives out
  a descriptor that is not in use and new objects are at free addresses, that \<^verbatim>\<open>readv\<close> returns no more than fits, and that the clock is not read at the
  microsecond of a timer's expiration (\<^verbatim>\<open>get_expired\<close> asserts so).
\<close>

theorem server_survives:
  fixes s :: "('u, 'z) server_scheme"
  assumes "fresh_env env" and "EventLoop_ctor os env me h = Inr (reactor.truncate s)" and "conns s = Map.empty"
    and "chans s cha = None" and "0 \<le> os_ret os (length (syscalls s))" and "0 \<le> os_ret os (length (syscalls s) + 1)"
    and "os_ret os (length (syscalls s)) \<noteq> env_timer_fd env" and "os_ret os (length (syscalls s)) \<noteq> env_event_fd env"
    and "proper_script f" and "app = server_app os me (scripted os me f)" and "proper_timers g" and "user = timer_code os me g"
    and "ieee_rounding (os_round os)" and "wb \<noteq> None \<longrightarrow> (\<forall>t a. held t a)"
  shows "\<exists>s1 s2. TcpServer_ctor os cha addr s = Inr s1 \<and>
    server_start os me fr loop_of
      (server_set_write_callback wb (server_set_message_callback (Some mb) (server_set_connection_callback (Some cb) s1))) = Inr s2 \<and>
    (\<forall>t r. server_turns app os me user fresh held s2 t \<and> turn_ok app os me user fresh r t \<longrightarrow>
       (case server_loop_once app os me user fresh held r t of
          Inr u \<Rightarrow> at_rest me u \<and> tidy (wb \<noteq> None) u
        | Inl e \<Rightarrow> e = Length_error))"
proof -
  from started_at_rest [OF assms(1-8), where addr = addr and fr = fr and loop_of = loop_of and cb = cb and mb = mb and wb = wb] obtain s1 s2 where
    s: "TcpServer_ctor os cha addr s = Inr s1"
      "server_start os me fr loop_of
        (s1\<lparr>server_connect_callback := Some cb, server_message_callback := Some mb, server_write_callback := wb\<rparr>) = Inr s2"
      "at_rest me s2" "tidy (wb \<noteq> None) s2" by blast
  have "length_safe (\<lambda>u. at_rest me u \<and> tidy (wb \<noteq> None) u) (server_loop_once app os me user fresh held r t)"
    if run: "server_turns app os me user fresh held s2 t" "turn_ok app os me user fresh r t" for t r
  proof -
    from server_turns_at_rest [OF run(1) s(3,4) assms(14,12,11,10,9,13)] have "at_rest me t" "tidy (wb \<noteq> None) t" by simp_all
    from turn_safe [OF this assms(14) run(2) assms(12,11,10,9,13)] show ?thesis .
  qed
  then show ?thesis using s(1,2) unfolding length_safe_def server_setters by blast
qed

section \<open>Examples\<close>

text \<open>The echo application on a new server.  Descriptors are numbered from 6 on; the objects of the first connection are put at 30 and 31.\<close>

definition echo_os :: os where
  "echo_os = sample_os 0\<lparr>os_ret := \<lambda>k. int k + 6, os_round := id\<rparr>"

text \<open>Code of its timers: each expiration sets a repeating timer, unless that is done.\<close>

definition heartbeat :: "nat \<Rightarrow> nat server \<Rightarrow> nat app_op list" where
  "heartbeat u s = (if timer_heap s 90 = None then [App_run_every 90 1 u] else [])"

lemma heartbeat_proper: "proper_timers heartbeat"
  by (simp add: proper_timers_def heartbeat_def proper_ops_def)

definition echo_env :: environment where
  "echo_env = \<lparr>env_use_poll = False, env_other_loop = False, env_epoll_fd = 3, env_timer_fd = 4,
     env_event_fd = 5, env_timer_channel = 10, env_wakeup_channel = 20\<rparr>"

definition echo_fresh :: "nat server \<Rightarrow> addr \<times> addr" where
  "echo_fresh s = (30, 31)"

definition loop_part :: "nat server" where
  "loop_part = new_server\<lparr>chans := [10 \<mapsto> (Channel_ctor 0 4)\<lparr>ch_events := k_read_event, ch_index := 1, read_callback := Some TimerQueue_handle_read\<rparr>,
       20 \<mapsto> (Channel_ctor 0 5)\<lparr>ch_events := k_read_event, ch_index := 1, read_callback := Some EventLoop_handle_read\<rparr>],
     looping := False, loop_poller := Use_epoll \<lparr>epoll_fd = 3, events_size = k_init_event_list_size, ep_channels = [4 \<mapsto> 10, 5 \<mapsto> 20],
       kernel = [4 \<mapsto> (k_read_event, 10), 5 \<mapsto> (k_read_event, 20)]\<rparr>, wakeup_fd := 5, timer_fd := 4\<rparr>"

lemmas echo_defs = loop_part_def new_server_def sample_server_def echo_os_def sample_os_def echo_env_def Channel_ctor_def

lemmas loop_evals = EventLoop_ctor_def newDefaultPoller_def Epoller_ctor_def TimerQueue_ctor_def create_timer_fd_def create_event_fd_def
  empty_heap_def channel_change_def loop_update_channel_def poller_update_channel_def epoll_update_channel_def epoll_update_def ctl_report_def
  is_in_loop_thread_def assert_in_loop_thread_def put_chan_def cpp_assert_def modify_chan_def deref_def this_loop_def k_new_def k_added_def k_deleted_def

lemma loop_part: "EventLoop_ctor echo_os echo_env 7 empty_heap = Inr (reactor.truncate loop_part)"
  by (simp add: loop_evals echo_defs Let_def reactor.defs)

lemmas server_evals = TcpServer_ctor_def Acceptor_ctor_def createNonblockingOrDie_def issue_def issue_errno_def bind_address_def bindOrDie_def
  set_reuse_addr_def set_new_connection_callback_def server_start_def pool_start_def EventLoopThreadPool_ctor_def run_in_loop_def
  Acceptor_listen_def Socket_listen_def listenOrDie_def

lemma echo_started:
  assumes "TcpServer_ctor echo_os 60 zero_sockaddr loop_part = Inr s1"
    and "server_start echo_os 7 (\<lambda>i. 100) (\<lambda>a. 200)
      (s1\<lparr>server_connect_callback := Some 0, server_message_callback := Some 1, server_write_callback := None\<rparr>) = Inr s2"
  shows "\<exists>q ch. loop_poller s2 = Use_epoll q \<and> ep_channels q = [4 \<mapsto> 10, 5 \<mapsto> 20, 6 \<mapsto> 60] \<and> events_size q = 16 \<and>
    chans s2 60 = Some ch \<and> read_callback ch = Some Acceptor_handle_read_once \<and> ch_fd ch = 6 \<and> dom (chans s2) = {10, 20, 60} \<and>
    conns s2 = Map.empty \<and> next_conn_id s2 = 1 \<and> length (syscalls s2) = 5"
  using assms by (auto simp: loop_evals server_evals echo_defs Let_def k_init_event_list_size_def)

lemma echo_arrival:
  fixes s2 :: "nat server"
  assumes "TcpServer_ctor echo_os 60 zero_sockaddr loop_part = Inr s1"
    and "server_start echo_os 7 (\<lambda>i. 100) (\<lambda>a. 200)
      (s1\<lparr>server_connect_callback := Some 0, server_message_callback := Some 1, server_write_callback := None\<rparr>) = Inr s2"
  shows "turn_ok app echo_os 7 user echo_fresh ((0, []), Inr [(POLLIN, 60)]) s2"
proof -
  from echo_started [OF assms] obtain q ch where
    s2: "loop_poller s2 = Use_epoll q" "ep_channels q = [4 \<mapsto> 10, 5 \<mapsto> 20, 6 \<mapsto> 60]" "events_size q = 16"
      "chans s2 60 = Some ch" "read_callback ch = Some Acceptor_handle_read_once" "ch_fd ch = 6" "dom (chans s2) = {10, 20, 60}"
      "conns s2 = Map.empty" "next_conn_id s2 = 1" "length (syscalls s2) = 5" by blast
  have plain: "plain POLLIN" using in_events by (simp add: plain_def)
  then have wait: "wait_ok (\<lambda>b. plain) ((0, []), Inr [(POLLIN, 60)]) (loop_poller s2)"
    using s2 by (simp add: wait_ok_def Map.ran_def) (intro exI [of _ 6], simp)
  let ?t = "put_chan 60 (ch\<lparr>ch_revents := POLLIN\<rparr>) (s2\<lparr>active_channels := [], clock_reads := Suc (clock_reads s2)\<rparr>)"
  have polled: "poller_poll_impl (os_clock echo_os) ((0, []), Inr [(POLLIN, 60)]) [] (loop_poller s2, s2\<lparr>active_channels := []\<rparr>) =
      Inr (timestamp_at 0, [60], Use_epoll q, ?t)"
    using s2 by (simp add: poller_poll_impl_def epoller_poll_def read_clock_def heap_simps echo_os_def sample_os_def)
  let ?u = "?t\<lparr>loop_poller := Use_epoll q, active_channels := [60], poll_return_time := timestamp_at 0\<rparr>"
  have "31 \<notin> dom (chans s2)" using s2(7) by simp
  then have "chans s2 31 = None" by (simp add: domIff)
  then have "can_accept echo_fresh 11 ?u"
    using s2 by (simp add: can_accept_def registered_def echo_fresh_def put_chan_def INT_MAX_def)
  then have "env_ok echo_os echo_fresh 60 ?u"
    using s2 by (simp add: env_ok_def Let_def put_chan_def echo_os_def)
  then show ?thesis using wait polled unfolding turn_ok_def by (simp split: sum.splits)
qed

theorem server_survives_witness:
  "\<exists>s1 s2. TcpServer_ctor echo_os 60 zero_sockaddr loop_part = Inr s1 \<and>
    server_start echo_os 7 (\<lambda>i. 100) (\<lambda>a. 200)
      (server_set_write_callback None (server_set_message_callback (Some 1) (server_set_connection_callback (Some 0) s1))) = Inr s2 \<and>
    (case server_loop_once (server_app echo_os 7 (scripted echo_os 7 echo)) echo_os 7 (timer_code echo_os 7 heartbeat) echo_fresh (\<lambda>t a. False)
        ((0, []), Inr [(POLLIN, 60)]) s2 of
      Inr u \<Rightarrow> at_rest 7 u \<and> tidy False u | Inl e \<Rightarrow> e = Length_error)"
proof -
  let ?app = "server_app echo_os 7 (scripted echo_os 7 echo)" and ?user = "timer_code echo_os 7 heartbeat"
  have h: "fresh_env echo_env" "conns loop_part = Map.empty" "chans loop_part 60 = None"
    "0 \<le> os_ret echo_os (length (syscalls loop_part))" "0 \<le> os_ret echo_os (length (syscalls loop_part) + 1)"
    "os_ret echo_os (length (syscalls loop_part)) \<noteq> env_timer_fd echo_env"
    "os_ret echo_os (length (syscalls loop_part)) \<noteq> env_event_fd echo_env"
    "ieee_rounding (os_round echo_os)"
    by (simp_all add: echo_defs fresh_env_def ieee_rounding_def mono_def)
  have held: "None \<noteq> (None :: nat option) \<longrightarrow> (\<forall>(t :: nat server) a. (\<lambda>t a. False) t a)" by simp
  from server_survives [OF h(1) loop_part h(2-7) echo_proper refl heartbeat_proper refl h(8) held, where addr = zero_sockaddr
      and fr = "\<lambda>i. 100" and loop_of = "\<lambda>a. 200" and cb = 0 and mb = 1 and fresh = echo_fresh]
  obtain s1 s2 where s: "TcpServer_ctor echo_os 60 zero_sockaddr loop_part = Inr s1"
    "server_start echo_os 7 (\<lambda>i. 100) (\<lambda>a. 200)
      (server_set_write_callback None (server_set_message_callback (Some 1) (server_set_connection_callback (Some 0) s1))) = Inr s2"
    and turns: "\<forall>t r. server_turns ?app echo_os 7 ?user echo_fresh (\<lambda>t a. False) s2 t \<and> turn_ok ?app echo_os 7 ?user echo_fresh r t \<longrightarrow>
       (case server_loop_once ?app echo_os 7 ?user echo_fresh (\<lambda>t a. False) r t of
          Inr u \<Rightarrow> at_rest 7 u \<and> tidy (None \<noteq> (None :: nat option)) u | Inl e \<Rightarrow> e = Length_error)" by blast
  have "case server_loop_once ?app echo_os 7 ?user echo_fresh (\<lambda>t a. False) ((0, []), Inr [(POLLIN, 60)]) s2 of
      Inr u \<Rightarrow> at_rest 7 u \<and> tidy (None \<noteq> (None :: nat option)) u | Inl e \<Rightarrow> e = Length_error"
    using turns server_turns.start echo_arrival [OF s [unfolded server_setters]] by blast
  moreover have no: "(None \<noteq> (None :: nat option)) = False" by simp
  ultimately show ?thesis using s unfolding no by blast
qed

end
