(* ===== verification/Connector.thy ===== *)
theory Connector
  imports Tcp_Connection
begin

text \<open>
  The connecting side (\<^verbatim>\<open>tcp/Connector.hpp\<close>, \<^verbatim>\<open>Connector.cpp\<close>): it opens a socket, waits until the
  connection attempt is decided, hands the descriptor over or closes it and tries again.
  \<open>on_new\<close> is the code of \<^verbatim>\<open>new_connection_callback_\<close>; \<open>cha\<close> and \<open>ta\<close> are the addresses a channel
  and a timer are put at if the operation makes one.
\<close>

section \<open>State\<close>

datatype connector_state = Connector_Disconnected | Connector_Connecting | Connector_Connected

fun connector_state_to_string :: "connector_state \<Rightarrow> string" where
  "connector_state_to_string Connector_Disconnected = ''Disconnected''"
| "connector_state_to_string Connector_Connected = ''Connected''"
| "connector_state_to_string Connector_Connecting = ''Connecting''"

lemma connector_state_to_string_inj: "connector_state_to_string x = connector_state_to_string y \<longleftrightarrow> x = y"
  by (cases x; cases y) simp_all

record 'u connector = "'u net" +
  server_addr :: sockaddr_in
  connect_flag :: bool
  connector_state :: connector_state
  connector_channel :: "addr option"
  connector_callback :: bool
  retry_delay_ms :: int
  connector_timer :: "addr option"

definition k_max_retry_delay_ms :: int where
  "k_max_retry_delay_ms = 30 * 1000"

definition k_init_retry_delay_ms :: int where
  "k_init_retry_delay_ms = 500"

section \<open>Operations\<close>

definition Connector_ctor :: "sockaddr_in \<Rightarrow> ('u, 'z) connector_scheme \<Rightarrow> ('u, 'z) connector_scheme" where
  "Connector_ctor addr s =
     s\<lparr>server_addr := addr, connect_flag := False, connector_state := Connector_Disconnected,
       connector_channel := None, connector_callback := False, retry_delay_ms := k_init_retry_delay_ms,
       connector_timer := None\<rparr>"

definition connector_set_callback :: "('u, 'z) connector_scheme \<Rightarrow> ('u, 'z) connector_scheme" where
  "connector_set_callback s = s\<lparr>connector_callback := True\<rparr>"

definition retry :: "os \<Rightarrow> nat \<Rightarrow> addr \<Rightarrow> int \<Rightarrow> ('u, 'z) connector_scheme \<Rightarrow> ('u, 'z) connector_scheme res" where
  "retry os me ta sock_fd s =
     (let s1 = (sockets_close os sock_fd s)\<lparr>connector_state := Connector_Disconnected\<rparr> in
      if connect_flag s1 then
        andthen (run_after os me ta (os_round os (of_int (retry_delay_ms s1) / 1000)) Connector_start_in_loop s1)
          (\<lambda>(timer_id, s2).
            Inr (s2\<lparr>connector_timer := timer_id, retry_delay_ms := min (retry_delay_ms s2) k_max_retry_delay_ms\<rparr>))
      else Inr s1)"

definition connecting ::
  "os \<Rightarrow> nat \<Rightarrow> addr \<Rightarrow> int \<Rightarrow> ('u, 'z) connector_scheme \<Rightarrow> ('u, 'z) connector_scheme res" where
  "connecting os me cha sock_fd s =
     (let s1 = s\<lparr>connector_state := Connector_Connecting\<rparr> in
      cpp_assert (connector_channel s1 = None)
       (channel_change os me Enable_writing cha
          ((put_chan cha
             (set_error_callback (Some Connector_handle_error)
               (set_write_callback (Some Connector_handle_write) (Channel_ctor this_loop sock_fd))) s1)
            \<lparr>connector_channel := Some cha\<rparr>)))"

text \<open>The errors after which the attempt is still under way, and those after which it is tried again.\<close>

definition connect_pending :: "int list" where
  "connect_pending = [0, EINPROGRESS, EINTR, EISCONN]"

definition connect_retry :: "int list" where
  "connect_retry = [EAGAIN, EADDRINUSE, EADDRNOTAVAIL, ECONNREFUSED, ENETUNREACH]"

text \<open>The remaining cases, the expected and the unexpected errors, differ in the text logged only.\<close>

definition connect ::
  "os \<Rightarrow> nat \<Rightarrow> addr \<Rightarrow> addr \<Rightarrow> ('u, 'z) connector_scheme \<Rightarrow> ('u, 'z) connector_scheme res" where
  "connect os me cha ta s =
     (case createNonblockingOrDie os s of (sock_fd, s1) \<Rightarrow>
      case sockets_connect os sock_fd (server_addr s1) s1 of (ret, e, s2) \<Rightarrow>
      let saved_errno = (if ret = 0 then 0 else e) in
      if saved_errno \<in> set connect_pending then connecting os me cha sock_fd s2
      else if saved_errno \<in> set connect_retry then retry os me ta sock_fd s2
      else Inr (sockets_close os sock_fd (log_to LOG_SYSERR s2)))"

definition start_in_loop ::
  "os \<Rightarrow> nat \<Rightarrow> addr \<Rightarrow> addr \<Rightarrow> ('u, 'z) connector_scheme \<Rightarrow> ('u, 'z) connector_scheme res" where
  "start_in_loop os me cha ta s =
     (let s0 = assert_in_loop_thread (is_in_loop_thread me s) s in
      cpp_assert (connector_state s0 = Connector_Disconnected)
       (if connect_flag s0 then connect os me cha ta s0 else Inr s0))"

definition connector_start ::
  "os \<Rightarrow> nat \<Rightarrow> addr \<Rightarrow> addr \<Rightarrow> ('u, 'z) connector_scheme \<Rightarrow> ('u, 'z) connector_scheme res" where
  "connector_start os me cha ta s =
     run_in_loop os me (start_in_loop os me cha ta) Connector_start_in_loop (s\<lparr>connect_flag := True\<rparr>)"

definition connector_restart ::
  "os \<Rightarrow> nat \<Rightarrow> addr \<Rightarrow> addr \<Rightarrow> ('u, 'z) connector_scheme \<Rightarrow> ('u, 'z) connector_scheme res" where
  "connector_restart os me cha ta s =
     start_in_loop os me cha ta
       ((assert_in_loop_thread (is_in_loop_thread me s) s)
         \<lparr>connector_state := Connector_Disconnected, retry_delay_ms := k_init_retry_delay_ms, connect_flag := True\<rparr>)"

definition connector_stop :: "os \<Rightarrow> nat \<Rightarrow> ('u, 'z) connector_scheme \<Rightarrow> ('u, 'z) connector_scheme res" where
  "connector_stop os me s = loop_cancel os me (connector_timer s) (s\<lparr>connect_flag := False\<rparr>)"

text \<open>The destructor.\<close>

definition Connector_dtor :: "os \<Rightarrow> nat \<Rightarrow> ('u, 'z) connector_scheme \<Rightarrow> ('u, 'z) connector_scheme res" where
  "Connector_dtor os me s =
     andthen (loop_cancel os me (connector_timer s) s) (\<lambda>s1. cpp_assert (connector_channel s1 = None) (Inr s1))"

definition remove_and_reset_channel ::
  "os \<Rightarrow> nat \<Rightarrow> ('u, 'z) connector_scheme \<Rightarrow> (int \<times> ('u, 'z) connector_scheme) res" where
  "remove_and_reset_channel os me s =
     (case connector_channel s of
        None \<Rightarrow> Inl Bad_deref
      | Some b \<Rightarrow>
          andthen (channel_change os me Disable_all b s) (\<lambda>s1.
          andthen (loop_remove_channel os me b s1) (\<lambda>s2.
          andthen (deref b s2) (\<lambda>ch.
          Inr (ch_fd ch, queue_in_loop os me Connector_reset_channel s2)))))"

definition reset_channel :: "('u, 'z) connector_scheme \<Rightarrow> ('u, 'z) connector_scheme res" where
  "reset_channel s =
     (case connector_channel s of
        None \<Rightarrow> Inr s
      | Some b \<Rightarrow> destroy_chan b (s\<lparr>connector_channel := None\<rparr>))"

definition connector_handle_write ::
  "os \<Rightarrow> nat \<Rightarrow> (int \<Rightarrow> ('u, 'z) connector_scheme \<Rightarrow> ('u, 'z) connector_scheme res) \<Rightarrow> addr \<Rightarrow>
   ('u, 'z) connector_scheme \<Rightarrow> ('u, 'z) connector_scheme res" where
  "connector_handle_write os me on_new ta s =
     (if connector_state s = Connector_Connecting then
        andthen (remove_and_reset_channel os me s) (\<lambda>(sock_fd, s1).
        case getSocketError os sock_fd s1 of (err, s2) \<Rightarrow>
        if err \<noteq> 0 then retry os me ta sock_fd s2
        else
          (case isSelfConnect os sock_fd s2 of (self, s3) \<Rightarrow>
           if self then retry os me ta sock_fd s3
           else
             (let s4 = s3\<lparr>connector_state := Connector_Connected\<rparr> in
              if connect_flag s4 then
                (if connector_callback s4 then on_new sock_fd s4 else Inl Bad_function_call)
              else Inr (sockets_close os sock_fd s4))))
      else cpp_assert (connector_state s = Connector_Disconnected) (Inr s))"

definition connector_handle_error ::
  "os \<Rightarrow> nat \<Rightarrow> addr \<Rightarrow> ('u, 'z) connector_scheme \<Rightarrow> ('u, 'z) connector_scheme res" where
  "connector_handle_error os me ta s =
     (let s0 = log_to LOG_ERROR s in
      cpp_assert (connector_state s0 = Connector_Connecting)
       (andthen (remove_and_reset_channel os me s0) (\<lambda>(sock_fd, s1).
        retry os me ta sock_fd (snd (getSocketError os sock_fd s1)))))"

section \<open>Retrying\<close>

text \<open>The connector's own fields, which channel operations, timers and socket calls leave alone.\<close>

definition same_connector :: "('u, 'z) connector_scheme \<Rightarrow> ('u, 'z) connector_scheme \<Rightarrow> bool" where
  "same_connector s t \<longleftrightarrow>
     connect_flag t = connect_flag s \<and> connector_state t = connector_state s \<and> connector_channel t = connector_channel s \<and>
     connector_callback t = connector_callback s \<and> retry_delay_ms t = retry_delay_ms s \<and>
     connector_timer t = connector_timer s \<and> server_addr t = server_addr s \<and> conns t = conns s"

lemma same_connector_more: "reactor.more t = reactor.more s \<Longrightarrow> same_connector s t"
  by (cases s; cases t) (simp add: same_connector_def)

lemma same_connector_trans: "same_connector s t \<Longrightarrow> same_connector t u \<Longrightarrow> same_connector s u"
  by (simp add: same_connector_def)

text \<open>A failed attempt: the descriptor is closed and, unless stopped, the next attempt is due in half a second.\<close>

definition gave_up :: "os \<Rightarrow> addr \<Rightarrow> int \<Rightarrow> ('u, 'z) connector_scheme \<Rightarrow> ('u, 'z) connector_scheme \<Rightarrow> bool" where
  "gave_up os ta fd s t \<longleftrightarrow>
     connector_state t = Connector_Disconnected \<and> chans t = chans s \<and> loop_poller t = loop_poller s \<and>
     pending_functors t = pending_functors s \<and> thread_id t = thread_id s \<and> conns t = conns s \<and>
     connector_channel t = connector_channel s \<and> connect_flag t = connect_flag s \<and> retry_delay_ms t = retry_delay_ms s \<and>
     (\<exists>cs. syscalls t = syscalls s @ Sys_close fd # cs) \<and> timers_inv t \<and>
     (if connect_flag s
      then connector_timer t = Some ta \<and> map_option callback (timer_heap t ta) = Some Connector_start_in_loop \<and>
        timers t = sort_key (\<lambda>e. ts_val (fst e))
          (timers s @ [(timestamp_at (os_clock os (clock_reads s) + 500000000), ta)])
      else timers t = timers s \<and> connector_timer t = connector_timer s)"

lemma retry_ok:
  fixes s :: "('u, 'z) connector_scheme"
  assumes me: "thread_id s = me" and delay: "retry_delay_ms s = k_init_retry_delay_ms"
    and timers: "timers_inv s" "ta \<notin> queued s" and rnd: "ieee_rounding (os_round os)"
  shows "\<exists>t. retry os me ta fd s = Inr t \<and> gave_up os ta fd s t"
proof -
  define s1 where "s1 = (sockets_close os fd s)\<lparr>connector_state := Connector_Disconnected\<rparr>"
  have c: "calls_only s (sockets_close os fd s)" by (rule socket_calls_only)
  have sys: "syscalls s1 = syscalls s @ [Sys_close fd]"
    by (simp add: s1_def sockets_close_def issue_def log_to_def)
  note D = calls_onlyD [OF c]
  have s1: "connector_state s1 = Connector_Disconnected" "chans s1 = chans s" "loop_poller s1 = loop_poller s"
      "pending_functors s1 = pending_functors s" "thread_id s1 = me" "timers s1 = timers s" "timer_heap s1 = timer_heap s"
      "clock_reads s1 = clock_reads s"
    using D me by (simp_all add: s1_def)
  have s1': "conns s1 = conns s" "connector_channel s1 = connector_channel s" "connect_flag s1 = connect_flag s"
      "retry_delay_ms s1 = retry_delay_ms s" "connector_timer s1 = connector_timer s"
    using same_connector_more [OF D(3)] by (simp_all add: s1_def same_connector_def)
  show ?thesis
  proof (cases "connect_flag s")
    case False
    then have "retry os me ta fd s = Inr s1" using s1' by (simp add: retry_def s1_def [symmetric])
    then show ?thesis using False s1 s1' sys me timers(1) by (auto simp: gave_up_def timers_inv_def)
  next
    case True
    let ?e = "timestamp_at (os_clock os (clock_reads s) + 500000000)"
    let ?tm = "Timer_ctor Connector_start_in_loop ?e 0 :: 'u closure timer"
    let ?s2 = "s1\<lparr>clock_reads := Suc (clock_reads s), timer_heap := (timer_heap s)(ta \<mapsto> ?tm)\<rparr>"
    have "timers_inv ?s2"
      using timers s1(6) by (auto simp: timers_inv_def entry_ok_def list_all_iff)
    from add_timer_in_loop_ok [OF this, of ta ?tm os me] timers(2) s1(6) obtain s3 where
      s3: "add_timer_in_loop os me ta ?s2 = Inr s3" "timers_inv s3" "timer_heap s3 = timer_heap ?s2"
        "timers s3 = sort_key (\<lambda>e. ts_val (fst e)) (timers s @ [(?e, ta)])" "\<exists>cs. syscalls s3 = syscalls ?s2 @ cs"
        "chans s3 = chans s" "loop_poller s3 = loop_poller s" "reactor.more s3 = reactor.more s1"
        "pending_functors s3 = pending_functors s" "thread_id s3 = me"
      using s1 by (auto simp: Timer_ctor_def timestamp_at_def)
    have "run_after os me ta (os_round os (of_int (retry_delay_ms s1) / 1000)) Connector_start_in_loop s1 = Inr (Some ta, s3)"
      using add_half_second [OF rnd] s1 s1' delay s3(1)
      by (simp add: run_after_def read_clock_def run_at_def add_timer_def run_in_loop_def is_in_loop_thread_def
          k_init_retry_delay_ms_def timestamp_at_def)
    then have "retry os me ta fd s =
        Inr (s3\<lparr>connector_timer := Some ta, retry_delay_ms := min (retry_delay_ms s3) k_max_retry_delay_ms\<rparr>)" (is "_ = Inr ?t")
      using True s1' by (simp add: retry_def s1_def [symmetric])
    moreover have "gave_up os ta fd s ?t"
      using True s3 s1 s1' sys me delay same_connector_more [OF s3(8)]
      by (auto simp: gave_up_def same_connector_def k_init_retry_delay_ms_def k_max_retry_delay_ms_def timers_inv_def Timer_ctor_def)
    ultimately show ?thesis by blast
  qed
qed

section \<open>Starting and deciding an attempt\<close>

lemma same_connector_loop: "same_loop s t \<Longrightarrow> same_connector s t"
  by (rule same_connector_more) (rule same_loopD)

lemma remove_and_reset_channel_ok:
  fixes s :: "('u, 'z) connector_scheme"
  assumes inv: "loop_inv s" and ch: "connector_channel s = Some b" "bound s b fd"
    and me: "thread_id s = me" "\<not> calling_pending_functors s"
  shows "\<exists>t. remove_and_reset_channel os me s = Inr (fd, t) \<and> loop_inv t \<and> registered t = (registered s)(fd := None) \<and>
    pending_functors t = pending_functors s @ [Connector_reset_channel] \<and> same_connector s t \<and> thread_id t = me \<and>
    syscalls t = syscalls s \<and> timers t = timers s \<and> timer_heap t = timer_heap s \<and> clock_reads t = clock_reads s"
proof -
  from channel_change_bound [OF inv ch(2), of os me Disable_all] obtain s1 where
    s1: "channel_change os me Disable_all b s = Inr s1" "loop_inv s1" "registered s1 = registered s" "same_chans s s1"
      "same_loop s s1" "\<forall>ch. chans s1 b = Some ch \<longrightarrow> is_none_event ch" by auto
  have b1: "bound s1 b fd" using bound_frame [OF ch(2) s1(4)] s1(3) ch(2) by (auto simp: bound_def)
  from loop_remove_channel_bound [OF s1(2) b1 s1(6), of os me] obtain s2 where
    s2: "loop_remove_channel os me b s1 = Inr s2" "loop_inv s2" "registered s2 = (registered s)(fd := None)"
      "same_chans s1 s2" "same_loop s1 s2" using s1(3) by auto
  from b1 s2(4) obtain x where x: "chans s2 b = Some x" "ch_fd x = fd" unfolding bound_def same_chans_def same_chan_def by metis
  let ?t = "queue_in_loop os me Connector_reset_channel s2"
  note frames = same_loopD [OF s1(5)] same_loopD [OF s2(5)]
  have t: "?t = s2\<lparr>pending_functors := pending_functors s2 @ [Connector_reset_channel]\<rparr>"
    using me frames by (simp add: queue_in_loop_def is_in_loop_thread_def Let_def)
  have "remove_and_reset_channel os me s = Inr (fd, ?t)"
    using ch(1) s1(1) s2(1) x by (simp add: remove_and_reset_channel_def heap_simps)
  moreover have "loop_inv ?t" by (rule loop_inv_agree [OF s2(2)]) (simp_all add: t)
  moreover have "same_connector s ?t"
    using same_connector_loop [OF s1(5)] same_connector_loop [OF s2(5)] by (simp add: t same_connector_def)
  ultimately show ?thesis using s2(3) frames me by (simp add: t registered_def)
qed

lemma enable_writing_new:
  assumes inv: "loop_inv s" and ch: "chans s a = Some ch" "owner_loop ch = this_loop" "ch_index ch = -1" "0 \<le> ch_fd ch"
    "registered s (ch_fd ch) = None"
  shows "\<exists>t. channel_change os me Enable_writing a s = Inr t \<and> loop_inv t \<and> bound t a (ch_fd ch) \<and>
    registered t = (registered s)(ch_fd ch \<mapsto> a) \<and> same_loop s t \<and> (\<forall>x. chans t a = Some x \<longrightarrow> is_writing x)"
proof -
  let ?x = "ch\<lparr>ch_events := change_events Enable_writing (ch_events ch)\<rparr>"
  have "changeable Enable_writing a ch s"
    using ch writing_conn(1) [where ch = ch and e = "ch_events ch" and i = 0]
    by (auto simp: changeable_def is_writing_def has_event_def k_none_event_def)
  from channel_change_ok [OF inv ch(1) this, of os me] obtain t where
    t: "channel_change os me Enable_writing a s = Inr t" "loop_inv t" "registered t = (registered s)(ch_fd ch \<mapsto> a)"
      "same_but_poller (put_chan a ?x s) t" by blast
  from same_but_poller_chan [OF t(4), of a ?x] obtain i where "chans t a = Some (?x\<lparr>ch_index := i\<rparr>)" by auto
  with t channel_change_same [OF t(1)] ch show ?thesis by (auto simp: bound_def)
qed

lemma connecting_ok:
  fixes s :: "('u, 'z) connector_scheme"
  assumes inv: "loop_inv s" and ch: "connector_channel s = None" "chans s cha = None" and fd: "0 \<le> fd" "registered s fd = None"
  shows "\<exists>t. connecting os me cha fd s = Inr t \<and> loop_inv t \<and> connector_state t = Connector_Connecting \<and>
    connector_channel t = Some cha \<and> bound t cha fd \<and> registered t = (registered s)(fd \<mapsto> cha) \<and>
    (\<forall>x. chans t cha = Some x \<longrightarrow> is_writing x) \<and> syscalls t = syscalls s \<and> timers t = timers s \<and>
    connect_flag t = connect_flag s \<and> retry_delay_ms t = retry_delay_ms s"
proof -
  let ?ch = "(Channel_ctor this_loop fd)
    \<lparr>write_callback := Some Connector_handle_write, error_callback := Some Connector_handle_error\<rparr>"
  let ?s = "(put_chan cha ?ch (s\<lparr>connector_state := Connector_Connecting\<rparr>))\<lparr>connector_channel := Some cha\<rparr>"
  have unreg: "registered s f \<noteq> Some cha" for f
    using inv ch(2) looppoll.reg_live [of "loop_poller s" s f cha] by (auto simp: loop_inv_def registered_def)
  have "loop_inv ?s" by (rule loop_inv_agree [OF inv]) (use unreg in \<open>auto simp: put_chan_def\<close>)
  moreover have reg: "registered ?s = registered s" by (simp add: registered_def put_chan_def)
  moreover have "chans ?s cha = Some ?ch" by (simp add: put_chan_def)
  ultimately obtain t where
    t: "channel_change os me Enable_writing cha ?s = Inr t" "loop_inv t" "bound t cha fd"
      "registered t = (registered s)(fd \<mapsto> cha)" "same_loop ?s t" "\<forall>x. chans t cha = Some x \<longrightarrow> is_writing x"
    using enable_writing_new [of ?s cha ?ch os me] fd by (auto simp: Channel_ctor_def)
  have "connecting os me cha fd s = Inr t" using t(1) ch(1) by (simp add: connecting_def)
  then show ?thesis using t same_connector_loop [OF t(5)] same_loopD [OF t(5)] by (simp add: same_connector_def put_chan_def)
qed

text \<open>What the kernel says about a decided attempt whose state is read by the calls from the \<open>k\<close>-th on.\<close>

definition so_error :: "os \<Rightarrow> nat \<Rightarrow> int" where
  "so_error os k = (if os_ret os k < 0 then os_errno os k else os_value os k)"

definition end_point :: "os \<Rightarrow> nat \<Rightarrow> sockaddr_in" where
  "end_point os k = (if os_ret os k < 0 then zero_sockaddr else os_addr os k)"

definition same_end_point :: "sockaddr_in \<Rightarrow> sockaddr_in \<Rightarrow> bool" where
  "same_end_point a b \<longleftrightarrow> sin_port a = sin_port b \<and> s_addr a = s_addr b"

lemma getSocketError_eq:
  "getSocketError os fd s = (so_error os (length (syscalls s)), s\<lparr>syscalls := syscalls s @ [Sys_so_error fd]\<rparr>)"
  by (simp add: getSocketError_def issue_errno_def issue_def so_error_def)

lemma isSelfConnect_eq:
  "\<exists>t. isSelfConnect os fd s = (same_end_point (end_point os (length (syscalls s))) (end_point os (length (syscalls s) + 1)), t) \<and>
     calls_only s t"
proof -
  obtain t where "snd (getPeerAddr os fd (snd (getLocalAddr os fd s))) = t" by blast
  moreover have "calls_only s (snd (getPeerAddr os fd (snd (getLocalAddr os fd s))))"
    by (rule calls_only_trans [OF socket_calls_only(3,4)])
  ultimately show ?thesis
    by (auto simp: isSelfConnect_def getLocalAddr_def getPeerAddr_def issue_def end_point_def same_end_point_def log_to_def)
qed

section \<open>Properties\<close>

text \<open>
  C15.  An attempt to connect, started while the connector is idle, has one of three results
  by the error of \<^verbatim>\<open>connect(2)\<close>, and never loses the descriptor it opened: the attempt goes on and the
  descriptor is watched for writability; or it failed for now, the descriptor is closed and
  the next attempt is queued; or it failed for good and the descriptor is closed.
\<close>

theorem connection_attempt:
  assumes "loop_inv s" and "thread_id s = me" and "connector_state s = Connector_Disconnected" and "connect_flag s"
    and "connector_channel s = None" and "chans s cha = None" and "timers_inv s" and "ta \<notin> queued s"
    and "ieee_rounding (os_round os)" and "retry_delay_ms s = k_init_retry_delay_ms" and "k = length (syscalls s)"
    and "fd = os_ret os k" and "0 \<le> fd" and "registered s fd = None"
    and "e = (if os_ret os (k + 1) = 0 then 0 else os_errno os (k + 1))"
  shows "\<exists>t cs. start_in_loop os me cha ta s = Inr t \<and> loop_inv t \<and> syscalls t = syscalls s @ Sys_socket # Sys_connect fd (server_addr s) # cs \<and>
    (if e \<in> set connect_pending
     then connector_state t = Connector_Connecting \<and> connector_channel t = Some cha \<and> bound t cha fd \<and>
       (\<forall>x. chans t cha = Some x \<longrightarrow> is_writing x) \<and> cs = [] \<and> timers t = timers s
     else connector_state t = Connector_Disconnected \<and> connector_channel t = None \<and> registered t = registered s \<and>
       Sys_close fd \<in> set cs \<and>
       timers t = (if e \<in> set connect_retry
         then sort_key (\<lambda>e. ts_val (fst e)) (timers s @ [(timestamp_at (os_clock os (clock_reads s) + 500000000), ta)])
         else timers s))"
proof -
  let ?s2 = "s\<lparr>syscalls := syscalls s @ [Sys_socket, Sys_connect fd (server_addr s)]\<rparr>"
  have s2: "loop_inv ?s2" "registered ?s2 = registered s" "timers_inv ?s2"
    using assms(1,7) by (auto intro: loop_inv_agree simp: registered_def timers_inv_def)
  have start: "start_in_loop os me cha ta s =
      (if e \<in> set connect_pending then connecting os me cha fd ?s2
       else if e \<in> set connect_retry then retry os me ta fd ?s2
       else Inr (sockets_close os fd (log_to LOG_SYSERR ?s2)))"
    using assms(2-4,11-13,15)
    by (simp add: start_in_loop_def is_in_loop_thread_def assert_in_loop_thread_def connect_def createNonblockingOrDie_def
        sockets_connect_def issue_errno_def issue_def Let_def)
  consider (pending) "e \<in> set connect_pending" | (retry) "e \<notin> set connect_pending" "e \<in> set connect_retry"
    | (hard) "e \<notin> set connect_pending" "e \<notin> set connect_retry" by blast
  then show ?thesis
  proof cases
    case pending
    with start s2 connecting_ok [OF s2(1), of cha fd os me] assms(5,6,13,14) show ?thesis by auto
  next
    case retry
    have "\<exists>t. retry os me ta fd ?s2 = Inr t \<and> gave_up os ta fd ?s2 t"
      using assms(2,8,9,10) s2(3) by (intro retry_ok) simp_all
    then obtain t where t: "retry os me ta fd ?s2 = Inr t" "gave_up os ta fd ?s2 t" by blast
    have "loop_inv t" by (rule loop_inv_agree [OF assms(1)]) (use t(2) in \<open>simp_all add: gave_up_def\<close>)
    then show ?thesis using retry start t assms(4,5) by (auto simp: gave_up_def registered_def)
  next
    case hard
    let ?t = "sockets_close os fd (log_to LOG_SYSERR ?s2)"
    have c: "calls_only ?s2 ?t" by (rule calls_only_trans [OF calls_only_log socket_calls_only(1)])
    have "syscalls ?t = syscalls s @ [Sys_socket, Sys_connect fd (server_addr s), Sys_close fd]"
      by (simp add: sockets_close_def issue_def log_to_def)
    then show ?thesis
      using hard start calls_only_loop_inv [OF c s2(1)] calls_only_registered [OF c] s2(2) calls_onlyD(6) [OF c]
        same_connector_more [OF calls_onlyD(3) [OF c]] assms(3,5)
      by (simp add: same_connector_def)
  qed
qed

text \<open>
  C16.  When a pending attempt is decided its channel leaves the loop and is queued for
  destruction.  An attempt that failed or connected to itself is closed and, unless stopped, tried again
  half a second later; the delay is the same after every failure and never grows.  Otherwise the
  connector is connected and hands the descriptor over, or closes it if it was stopped meanwhile.
\<close>

theorem attempt_decided:
  assumes "loop_inv s" and "thread_id s = me" and "\<not> calling_pending_functors s" and "connector_state s = Connector_Connecting"
    and "connector_channel s = Some b" and "bound s b fd" and "connector_callback s" and "timers_inv s" and "ta \<notin> queued s"
    and "ieee_rounding (os_round os)" and "retry_delay_ms s = k_init_retry_delay_ms" and "k = length (syscalls s)"
  shows "\<exists>s1. loop_inv s1 \<and> registered s1 = (registered s)(fd := None) \<and>
    pending_functors s1 = pending_functors s @ [Connector_reset_channel] \<and> connect_flag s1 = connect_flag s \<and>
    timers s1 = timers s \<and> clock_reads s1 = clock_reads s \<and>
    (if so_error os k \<noteq> 0 \<or> same_end_point (end_point os (k + 1)) (end_point os (k + 2))
     then \<exists>t. connector_handle_write os me on_new ta s = Inr t \<and> gave_up os ta fd s1 t
     else connector_state s1 = Connector_Connected \<and>
       connector_handle_write os me on_new ta s = (if connect_flag s then on_new fd s1 else Inr (sockets_close os fd s1)))"
proof -
  from remove_and_reset_channel_ok [OF assms(1,5,6,2,3), of os] obtain r where
    r: "remove_and_reset_channel os me s = Inr (fd, r)" "loop_inv r" "registered r = (registered s)(fd := None)"
      "pending_functors r = pending_functors s @ [Connector_reset_channel]" "same_connector s r" "thread_id r = me"
      "syscalls r = syscalls s" "timers r = timers s" "timer_heap r = timer_heap s" "clock_reads r = clock_reads s" by blast
  let ?s2 = "r\<lparr>syscalls := syscalls r @ [Sys_so_error fd]\<rparr>"
  obtain s3 where s3: "isSelfConnect os fd ?s2 = (same_end_point (end_point os (k + 1)) (end_point os (k + 2)), s3)" "calls_only ?s2 s3"
    using isSelfConnect_eq [of os fd ?s2] r(7) assms(12) by auto
  have rt: "\<exists>t. retry os me ta fd u = Inr t \<and> gave_up os ta fd u t" if "calls_only r u" for u
    using calls_onlyD [OF that] same_connector_more [OF calls_onlyD(3) [OF that]] r(5,6,8,9) assms(8-11)
    by (intro retry_ok) (simp_all add: same_connector_def timers_inv_def)
  have so: "calls_only r ?s2" using calls_only_issue [of r os "Sys_so_error fd"] by (simp add: issue_def)
  have c3: "calls_only r s3" by (rule calls_only_trans [OF so s3(2)])
  have frame: "loop_inv u \<and> registered u = (registered s)(fd := None) \<and> connect_flag u = connect_flag s \<and>
      pending_functors u = pending_functors s @ [Connector_reset_channel] \<and> timers u = timers s \<and> clock_reads u = clock_reads s \<and>
      connector_callback u" if "calls_only r u" for u
    using calls_only_loop_inv [OF that r(2)] calls_only_registered [OF that] calls_onlyD [OF that]
      same_connector_more [OF calls_onlyD(3) [OF that]] r assms(7) by (simp add: same_connector_def)
  have hw: "connector_handle_write os me on_new ta s =
      (if so_error os k \<noteq> 0 then retry os me ta fd ?s2
       else if same_end_point (end_point os (k + 1)) (end_point os (k + 2)) then retry os me ta fd s3
       else if connect_flag s then on_new fd (s3\<lparr>connector_state := Connector_Connected\<rparr>)
       else Inr (sockets_close os fd (s3\<lparr>connector_state := Connector_Connected\<rparr>)))"
    using r(1,7) s3(1) assms(4,12) frame [OF c3] by (simp add: connector_handle_write_def getSocketError_eq)
  show ?thesis
  proof (cases "so_error os k \<noteq> 0 \<or> same_end_point (end_point os (k + 1)) (end_point os (k + 2))")
    case True
    define u where "u = (if so_error os k \<noteq> 0 then ?s2 else s3)"
    have u: "calls_only r u" using so c3 by (simp add: u_def)
    from rt [OF u] True hw have "\<exists>t. connector_handle_write os me on_new ta s = Inr t \<and> gave_up os ta fd u t"
      by (auto simp: u_def)
    with True frame [OF u] show ?thesis by (intro exI [of _ u]) simp
  next
    case False
    let ?u = "s3\<lparr>connector_state := Connector_Connected\<rparr>"
    have "loop_inv ?u" by (rule loop_inv_agree [of s3]) (use frame [OF c3] in simp_all)
    moreover have "registered ?u = registered s3" by (simp add: registered_def)
    ultimately show ?thesis using False hw frame [OF c3] by (intro exI [of _ ?u]) simp
  qed
qed

text \<open>
  A connector that was stopped while its attempt was pending ends up connected without a
  connection; starting it again fails the assertion of \<^verbatim>\<open>start_in_loop\<close>.
\<close>

lemma stopped_connector_cannot_start:
  assumes "connector_state s = Connector_Connected" and "thread_id s = me"
  shows "connector_start os me cha ta (sockets_close os fd s) = Inl Assert_failed"
proof -
  have c: "calls_only s (sockets_close os fd s)" by (rule socket_calls_only)
  have "thread_id (sockets_close os fd s) = me" "connector_state (sockets_close os fd s) = Connector_Connected"
    using assms same_connector_more [OF calls_onlyD(3) [OF c]] calls_onlyD(5) [OF c] by (simp_all add: same_connector_def)
  then show ?thesis
    by (simp add: connector_start_def run_in_loop_def is_in_loop_thread_def start_in_loop_def assert_in_loop_thread_def)
qed

section \<open>Examples\<close>

definition sample_connector :: "(addr \<rightharpoonup> nat closure channel) \<Rightarrow> epoller \<Rightarrow> connector_state \<Rightarrow> addr option \<Rightarrow> nat connector" where
  "sample_connector cs p st b = \<lparr>logs = [], clock_reads = 0, chans = cs,
     syscalls = [], looping = True, quit_flag = False, calling_pending_functors = False, thread_id = 7,
     loop_poller = Use_epoll p, wakeup_fd = 4, active_channels = [], pending_functors = [],
     poll_return_time = invalid_timestamp, timer_fd = 3, timer_heap = Map.empty, timers = [], conns = Map.empty,
     server_addr = zero_sockaddr, connect_flag = True, connector_state = st, connector_channel = b,
     connector_callback = True, retry_delay_ms = k_init_retry_delay_ms, connector_timer = None\<rparr>"

definition idle_connector :: "nat connector" where
  "idle_connector = sample_connector Map.empty \<lparr>epoll_fd = 3, events_size = 16, ep_channels = Map.empty, kernel = Map.empty\<rparr>
     Connector_Disconnected None"

definition busy_connector :: "nat connector" where
  "busy_connector = sample_connector [20 \<mapsto> sample_channel POLLOUT]
     \<lparr>epoll_fd = 3, events_size = 16, ep_channels = [5 \<mapsto> 20], kernel = [5 \<mapsto> (POLLOUT, 20)]\<rparr> Connector_Connecting (Some 20)"

definition refusing_os :: os where
  "refusing_os = (sample_os 0)\<lparr>os_round := id, os_ret := \<lambda>k. if k = 0 then 9 else -1, os_errno := \<lambda>_. ECONNREFUSED\<rparr>"

lemma refusing_os_rounding: "ieee_rounding (os_round refusing_os)"
  by (simp add: refusing_os_def ieee_rounding_def mono_def)

theorem connection_attempt_witness:
  "\<exists>t cs. start_in_loop refusing_os 7 20 40 idle_connector = Inr t \<and>
     syscalls t = Sys_socket # Sys_connect 9 zero_sockaddr # cs \<and> Sys_close 9 \<in> set cs \<and> map snd (timers t) = [40]"
proof -
  let ?s = idle_connector
  have "loop_inv ?s" "thread_id ?s = 7" "connector_state ?s = Connector_Disconnected" "connect_flag ?s" "connector_channel ?s = None"
    "chans ?s 20 = None" "timers_inv ?s" "40 \<notin> queued ?s"
    by (simp_all add: idle_connector_def sample_connector_def loop_inv_def ep_inv_def timers_inv_def key_sorted_def)
  note pre = this
  have "retry_delay_ms ?s = k_init_retry_delay_ms" "0 = length (syscalls ?s)" "9 = os_ret refusing_os 0" "0 \<le> (9::int)"
    "registered ?s 9 = None"
    "ECONNREFUSED = (if os_ret refusing_os (0 + 1) = 0 then 0 else os_errno refusing_os (0 + 1))"
    by (simp_all add: idle_connector_def sample_connector_def registered_def refusing_os_def)
  from connection_attempt [OF pre refusing_os_rounding this] show ?thesis
    by (auto simp: connect_pending_def connect_retry_def errno_defs idle_connector_def sample_connector_def)
qed

theorem attempt_decided_witness:
  "\<exists>t. connector_handle_write (refusing_os\<lparr>os_ret := \<lambda>_. 0, os_value := \<lambda>_. 111\<rparr>) 7 (\<lambda>fd s. Inr s) 40 busy_connector = Inr t \<and>
     connector_state t = Connector_Disconnected \<and> map snd (timers t) = [40]"
proof -
  let ?s = busy_connector and ?os = "refusing_os\<lparr>os_ret := \<lambda>_. 0, os_value := \<lambda>_. 111\<rparr>"
  have "loop_inv ?s" "thread_id ?s = 7" "\<not> calling_pending_functors ?s" "connector_state ?s = Connector_Connecting"
    "connector_channel ?s = Some 20" "bound ?s 20 5" "connector_callback ?s" "timers_inv ?s" "40 \<notin> queued ?s"
    "ieee_rounding (os_round ?os)" "retry_delay_ms ?s = k_init_retry_delay_ms" "0 = length (syscalls ?s)"
    using refusing_os_rounding
    by (simp_all add: busy_connector_def sample_connector_def loop_inv_def ep_inv_def timers_inv_def key_sorted_def bound_def registered_def
        sample_channel_def Channel_ctor_def)
  from attempt_decided [OF this, of "\<lambda>fd s. Inr s"] show ?thesis
    by (auto simp: so_error_def gave_up_def busy_connector_def sample_connector_def)
qed

end
