(* ===== verification/Tcp_Client.thy ===== *)
theory Tcp_Client
  imports Connector
begin

text \<open>
  The client (\<^verbatim>\<open>tcp/TcpClient.hpp\<close>, \<^verbatim>\<open>TcpClient.cpp\<close>): it owns a connector and at most one
  connection, which it makes when the connector hands over a descriptor and drops when the
  connection closes.  The connection belongs to the client's loop, so the assertion in
  \<^verbatim>\<open>remove_connection\<close> that compares the loops always holds.
\<close>

section \<open>State\<close>

record 'u client = "'u connector" +
  connection_callback :: "'u option"
  client_message_callback :: "'u option"
  client_write_callback :: "'u option"
  client_retry :: bool
  client_connect :: bool
  client_next_id :: int
  connection :: "addr option"

section \<open>Operations\<close>

text \<open>The function \<^verbatim>\<open>detail::remove_connection\<close>.\<close>

definition detail_remove_connection ::
  "os \<Rightarrow> nat \<Rightarrow> addr \<Rightarrow> ('u, 'z) client_scheme \<Rightarrow> ('u, 'z) client_scheme res" where
  "detail_remove_connection os me a s = Inr (queue_in_loop os me (Conn_connect_destroyed a) s)"

text \<open>The function \<^verbatim>\<open>detail::remove_connector\<close>: its body is a comment.\<close>

definition detail_remove_connector :: "('u, 'z) client_scheme \<Rightarrow> ('u, 'z) client_scheme res" where
  [simp]: "detail_remove_connector s = Inr s"

definition TcpClient_ctor :: "sockaddr_in \<Rightarrow> ('u, 'z) client_scheme \<Rightarrow> ('u, 'z) client_scheme" where
  "TcpClient_ctor addr s =
     connector_set_callback
       ((Connector_ctor addr s)
         \<lparr>connection_callback := None, client_message_callback := None, client_write_callback := None,
          client_retry := False, client_connect := True, client_next_id := 1, connection := None\<rparr>)"

text \<open>
  The destructor: an open connection gets the close callback that needs no client; otherwise
  the connector is stopped and a timer that does nothing is set.
\<close>

definition set_detail_close :: "addr \<Rightarrow> ('u, 'z) client_scheme \<Rightarrow> ('u, 'z) client_scheme res" where
  "set_detail_close a s = modify_conn a (conn_set_close_callback (Some Detail_remove_connection)) s"

definition TcpClient_dtor :: "os \<Rightarrow> nat \<Rightarrow> addr \<Rightarrow> ('u, 'z) client_scheme \<Rightarrow> ('u, 'z) client_scheme res" where
  "TcpClient_dtor os me ta s =
     (case connection s of
        Some a \<Rightarrow> run_in_loop os me (set_detail_close a) (Client_set_close_callback a) s
      | None \<Rightarrow>
          andthen (connector_stop os me s) (\<lambda>s1.
          andthen (run_after os me ta 1 Client_remove_connector s1) (\<lambda>(timer_id, s2). Inr s2)))"

definition TcpClient_connect ::
  "os \<Rightarrow> nat \<Rightarrow> addr \<Rightarrow> addr \<Rightarrow> ('u, 'z) client_scheme \<Rightarrow> ('u, 'z) client_scheme res" where
  "TcpClient_connect os me cha ta s = connector_start os me cha ta (s\<lparr>client_connect := True\<rparr>)"

text \<open>\<^verbatim>\<open>disconnect\<close>; \<open>None\<close>: the loop in \<^verbatim>\<open>shutdown\<close> used up its fuel.\<close>

definition TcpClient_disconnect ::
  "nat \<Rightarrow> os \<Rightarrow> nat \<Rightarrow> ('u, 'z) client_scheme \<Rightarrow> ('u, 'z) client_scheme res option" where
  "TcpClient_disconnect fuel os me s =
     (let s1 = s\<lparr>client_connect := False\<rparr> in
      case connection s1 of Some a \<Rightarrow> shutdown fuel os me a s1 | None \<Rightarrow> Some (Inr s1))"

definition TcpClient_stop :: "os \<Rightarrow> nat \<Rightarrow> ('u, 'z) client_scheme \<Rightarrow> ('u, 'z) client_scheme res" where
  "TcpClient_stop os me s = connector_stop os me (s\<lparr>client_connect := False\<rparr>)"

definition client_conn_name :: "sockaddr_in \<Rightarrow> int \<Rightarrow> string" where
  "client_conn_name peer n = snprintf_buf 32 ('':'' @ to_host_port peer @ ''#'' @ dec_int n)"

definition client_new_connection ::
  "('u, ('u, 'z) client_scheme) app \<Rightarrow> os \<Rightarrow> nat \<Rightarrow> addr \<Rightarrow> addr \<Rightarrow> int \<Rightarrow>
   ('u, 'z) client_scheme \<Rightarrow> ('u, 'z) client_scheme res" where
  "client_new_connection app os me a cha sock_fd s =
     (case issue os (Sys_poll_one sock_fd) (assert_in_loop_thread (is_in_loop_thread me s) s) of (r, s1) \<Rightarrow>
      if r < 0 then Inr (log_to LOG_SYSERR s1)
      else
        (case getPeerAddr os sock_fd s1 of (peer, s2) \<Rightarrow>
         let conn_name = client_conn_name peer (client_next_id s2);
             s3 = s2\<lparr>client_next_id := client_next_id s2 + 1\<rparr> in
         if client_next_id s2 = INT_MAX then Inl Signed_overflow else
         case getLocalAddr os sock_fd s3 of (loc, s4) \<Rightarrow>
         andthen (TcpConnection_ctor this_loop a cha conn_name sock_fd loc peer s4) (\<lambda>s5.
         andthen (modify_conn a (\<lambda>c.
             conn_set_close_callback (Some Client_remove_connection)
               (conn_set_write_callback (client_write_callback s5)
                 (conn_set_message_callback (client_message_callback s5)
                   (conn_set_connection_callback (connection_callback s5) c)))) s5)
           (\<lambda>s6. connect_established app os me a (s6\<lparr>connection := Some a\<rparr>)))))"

definition client_remove_connection ::
  "os \<Rightarrow> nat \<Rightarrow> addr \<Rightarrow> addr \<Rightarrow> addr \<Rightarrow> ('u, 'z) client_scheme \<Rightarrow> ('u, 'z) client_scheme res" where
  "client_remove_connection os me cha ta a s =
     (let s0 = assert_in_loop_thread (is_in_loop_thread me s) s in
      cpp_assert (connection s0 = Some a)
       (let s1 = queue_in_loop os me (Conn_connect_destroyed a) (s0\<lparr>connection := None\<rparr>)
        in if client_retry s1 \<and> client_connect s1 then connector_restart os me cha ta s1 else Inr s1))"

definition client_set_connection_callback :: "'u option \<Rightarrow> ('u, 'z) client_scheme \<Rightarrow> ('u, 'z) client_scheme" where
  [simp]: "client_set_connection_callback cb x = x\<lparr>connection_callback := cb\<rparr>"

definition client_set_message_callback :: "'u option \<Rightarrow> ('u, 'z) client_scheme \<Rightarrow> ('u, 'z) client_scheme" where
  [simp]: "client_set_message_callback cb x = x\<lparr>client_message_callback := cb\<rparr>"

definition client_set_write_complete_callback :: "'u option \<Rightarrow> ('u, 'z) client_scheme \<Rightarrow> ('u, 'z) client_scheme" where
  [simp]: "client_set_write_complete_callback cb x = x\<lparr>client_write_callback := cb\<rparr>"

definition enable_retry :: "('u, 'z) client_scheme \<Rightarrow> ('u, 'z) client_scheme" where
  "enable_retry s = s\<lparr>client_retry := True\<rparr>"

text \<open>
  The callbacks of a connection of this client: the application's, and the client's own on
  close, before and after its destruction.
\<close>

definition client_app ::
  "os \<Rightarrow> nat \<Rightarrow> addr \<Rightarrow> addr \<Rightarrow> ('u, ('u, 'z) client_scheme) app \<Rightarrow> ('u, ('u, 'z) client_scheme) app" where
  "client_app os me cha ta user =
     user\<lparr>on_close := (\<lambda>act a s. case act of
            Client_remove_connection \<Rightarrow> client_remove_connection os me cha ta a s
          | Detail_remove_connection \<Rightarrow> detail_remove_connection os me a s
          | _ \<Rightarrow> on_close user act a s)\<rparr>"

text \<open>What the closures of a client do when they are called; \<open>fresh\<close> gives the addresses of new objects.\<close>

definition client_call ::
  "('u, ('u, 'z) client_scheme) app \<Rightarrow> os \<Rightarrow> nat \<Rightarrow> addr \<Rightarrow> addr \<Rightarrow> addr \<Rightarrow>
   ('u closure \<Rightarrow> ('u, 'z) client_scheme \<Rightarrow> ('u, 'z) client_scheme res) \<Rightarrow>
   'u closure \<Rightarrow> ('u, 'z) client_scheme \<Rightarrow> ('u, 'z) client_scheme res" where
  "client_call app os me a cha ta user =
     conn_call app os me
       (\<lambda>cl. case cl of
          Connector_start_in_loop \<Rightarrow> start_in_loop os me cha ta
        | Connector_handle_write \<Rightarrow> connector_handle_write os me (client_new_connection app os me a cha) ta
        | Connector_handle_error \<Rightarrow> connector_handle_error os me ta
        | Connector_reset_channel \<Rightarrow> reset_channel
        | Client_set_close_callback b \<Rightarrow> set_detail_close b
        | Client_remove_connector \<Rightarrow> detail_remove_connector
        | _ \<Rightarrow> loop_closure os me user cl)"

section \<open>The connection of a client\<close>

text \<open>The client's own fields and those of its loop that its connections do not touch.\<close>

definition same_client :: "('u, 'z) client_scheme \<Rightarrow> ('u, 'z) client_scheme \<Rightarrow> bool" where
  "same_client s t \<longleftrightarrow>
     connection t = connection s \<and> client_retry t = client_retry s \<and> client_connect t = client_connect s \<and>
     client_next_id t = client_next_id s \<and> thread_id t = thread_id s \<and> pending_functors t = pending_functors s"

lemma same_client_loop: "same_loop s t \<Longrightarrow> same_client s t"
  using same_loopD [of s t] by (cases s; cases t) (simp add: same_client_def)

lemma client_assert [simp]:
  "connection (assert_in_loop_thread il s) = connection s" "client_retry (assert_in_loop_thread il s) = client_retry s"
  "client_connect (assert_in_loop_thread il s) = client_connect s" "client_next_id (assert_in_loop_thread il s) = client_next_id s"
  "connection_callback (assert_in_loop_thread il s) = connection_callback s" "conns (assert_in_loop_thread il s) = conns s"
  "pending_functors (assert_in_loop_thread il s) = pending_functors s"
  by (simp_all add: assert_in_loop_thread_def log_to_def)

lemma same_client_simps [simp]:
  "same_client s (put_conn a c s)" "same_client s (assert_in_loop_thread il s)"
  by (simp_all add: same_client_def put_conn_def assert_in_loop_thread_def log_to_def)

lemma same_client_trans: "same_client s t \<Longrightarrow> same_client t u \<Longrightarrow> same_client s u"
  by (simp add: same_client_def)

definition quiet_client :: "('u, ('u, 'z) client_scheme) app \<Rightarrow> 'u \<Rightarrow> bool" where
  "quiet_client app cb \<longleftrightarrow> (\<forall>a s. \<exists>s'. on_connection app cb a s = Inr s' \<and> same_net s s' \<and> same_client s s')"

lemma quiet_client_ok: "quiet_client app cb \<Longrightarrow> callback_ok app cb a"
  unfolding quiet_client_def callback_ok_def by blast

lemma quiet_clientD: "quiet_client app cb \<Longrightarrow> on_connection app cb a s = Inr s' \<Longrightarrow> same_client s s'"
  unfolding quiet_client_def by (metis sum.inject(2))

lemma quiet_client_app: "quiet_client app cb \<Longrightarrow> quiet_client (client_app os me cha ta app) cb"
  by (simp add: quiet_client_def client_app_def)

text \<open>The state in which the client establishes the connection it made.\<close>

lemma client_new_connection_eq:
  fixes s :: "('u, 'z) client_scheme"
  assumes id: "client_next_id s < INT_MAX" and cb: "connection_callback s = Some cb"
    and poll: "0 \<le> os_ret os (length (syscalls s))"
  shows "\<exists>S c ch. client_new_connection app os me a cha fd s = connect_established app os me a S \<and>
    conn_new S a c ch \<and> connect_callback c = Some cb \<and> conn_close_callback c = Some Client_remove_connection \<and>
    conn_channel c = cha \<and> ch_fd ch = fd \<and> loop_poller S = loop_poller s \<and> chans S = (chans s)(cha \<mapsto> ch) \<and>
    conns S = (conns s)(a \<mapsto> c) \<and> same_client (s\<lparr>connection := Some a, client_next_id := client_next_id s + 1\<rparr>) S"
proof -
  let ?s1 = "snd (issue os (Sys_poll_one fd) (assert_in_loop_thread (is_in_loop_thread me s) s))"
  obtain peer s2 where s2: "getPeerAddr os fd ?s1 = (peer, s2)" by fastforce
  let ?s3 = "s2\<lparr>client_next_id := client_next_id s2 + 1\<rparr>"
  obtain loc s4 where s4: "getLocalAddr os fd ?s3 = (loc, s4)" by fastforce
  have c2: "calls_only ?s1 s2" using socket_calls_only(4) [of ?s1 os fd] s2 by simp
  have c4: "calls_only ?s3 s4" using socket_calls_only(3) [of ?s3 os fd] s4 by simp
  have f2: "client_next_id s2 = client_next_id s" "connection_callback s2 = Some cb"
      "conns s2 = conns s" "loop_poller s2 = loop_poller s" "chans s2 = chans s" "thread_id s2 = thread_id s"
      "pending_functors s2 = pending_functors s" "client_retry s2 = client_retry s" "client_connect s2 = client_connect s"
    using c2 cb by (auto simp: calls_only_def issue_def)
  have f4: "client_next_id s4 = client_next_id s + 1" "connection_callback s4 = Some cb"
      "conns s4 = conns s" "loop_poller s4 = loop_poller s" "chans s4 = chans s" "thread_id s4 = thread_id s"
      "pending_functors s4 = pending_functors s" "client_retry s4 = client_retry s" "client_connect s4 = client_connect s"
    using c4 f2 by (auto simp: calls_only_def)
  let ?n = "client_conn_name peer (client_next_id s)"
  define c where "c = \<lparr>conn_name = ?n, conn_state = Connecting, conn_channel = cha, local_addr = loc, peer_addr = peer,
    connect_callback = Some cb, message_callback = client_message_callback s4, conn_close_callback = Some Client_remove_connection,
    write_complete_callback = client_write_callback s4, input_buffer = empty_buffer, output_buffer = empty_buffer\<rparr>"
  define ch :: "'u closure channel" where "ch = (Channel_ctor this_loop fd)
    \<lparr>read_callback := Some (Conn_handle_read a), write_callback := Some (Conn_handle_write a),
     error_callback := Some (Conn_handle_error a), close_callback := Some (Conn_handle_close a)\<rparr>"
  let ?S = "(put_conn a c (put_chan cha ch s4))\<lparr>connection := Some a\<rparr>"
  have ctor: "TcpConnection_ctor this_loop a cha ?n fd loc peer s4 = Inr (put_conn a
      (c\<lparr>connect_callback := None, message_callback := None, conn_close_callback := None, write_complete_callback := None\<rparr>)
      (put_chan cha ch s4))"
    by (simp add: TcpConnection_ctor_def Buffer_ctor_eq c_def ch_def)
  have r: "fst (issue os (Sys_poll_one fd) (assert_in_loop_thread (is_in_loop_thread me s) s)) \<ge> 0"
    using poll by (simp add: issue_def)
  have "client_new_connection app os me a cha fd s = connect_established app os me a ?S"
    using s2 s4 f2 f4 id ctor r
    by (simp add: client_new_connection_def case_prod_beta Let_def modify_conn_def conn_of_def)
       (simp add: put_conn_def put_chan_def c_def)
  moreover have "conn_new ?S a c ch"
    by (simp add: conn_new_def c_def ch_def Channel_ctor_def empty_buffer_inv empty_buffer_content put_conn_def put_chan_def)
  ultimately show ?thesis using f4
    by (intro exI [of _ ?S] exI [of _ c] exI [of _ ch])
       (simp add: c_def ch_def Channel_ctor_def put_conn_def put_chan_def same_client_def)
qed

section \<open>Properties\<close>

text \<open>
  C17.  The session of a client: a descriptor handed over becomes the client's one
  connection, established and registered with the loop; when the peer closes it the client
  lets go of it, its destruction is queued, and a new attempt to connect is started exactly if
  retrying is enabled and the client was not told to disconnect.  The application's connection callback leaves the library alone.
\<close>

theorem client_session:
  assumes "loop_inv s" and "thread_id s = me" and "chans s cha = None" and "0 \<le> fd" and "registered s fd = None"
    and "client_next_id s < INT_MAX" and "connection_callback s = Some cb" and "0 \<le> os_ret os (length (syscalls s))"
    and "quiet_client user cb" and "app = client_app os me cha' ta user"
  shows "\<exists>s1 s2 c. client_new_connection app os me a cha fd s = Inr s1 \<and> loop_inv s1 \<and> connection s1 = Some a \<and>
    conns s1 a = Some c \<and> conn_state c = Connected \<and> registered s1 = (registered s)(fd \<mapsto> cha) \<and>
    loop_inv s2 \<and> connection s2 = None \<and> conns s2 = conns s1 \<and> registered s2 = registered s1 \<and>
    pending_functors s2 = pending_functors s @ [Conn_connect_destroyed a] \<and>
    conn_handle_close app os me a s1 =
      (if client_retry s \<and> client_connect s then connector_restart os me cha' ta s2 else Inr s2)"
proof -
  have q: "quiet_client app cb" unfolding assms(10) by (rule quiet_client_app [OF assms(9)])
  from client_new_connection_eq [OF assms(6,7,8), of app me a cha fd] obtain S c ch where
    S: "client_new_connection app os me a cha fd s = connect_established app os me a S" "conn_new S a c ch"
      "connect_callback c = Some cb" "conn_close_callback c = Some Client_remove_connection" "conn_channel c = cha" "ch_fd ch = fd"
      "loop_poller S = loop_poller s" "chans S = (chans s)(cha \<mapsto> ch)" "conns S = (conns s)(a \<mapsto> c)"
      "same_client (s\<lparr>connection := Some a, client_next_id := client_next_id s + 1\<rparr>) S" by blast
  have unreg: "registered s f \<noteq> Some cha" for f
    using assms(1,3) looppoll.reg_live [of "loop_poller s" s f cha] by (auto simp: loop_inv_def registered_def)
  have "loop_inv S" using unreg S(7,8) by (intro loop_inv_agree [OF assms(1)]) auto
  moreover have "registered S = registered s" using S(7) by (simp add: registered_def)
  ultimately obtain t s1 ch' where
    t: "connect_established app os me a S = Inr t" "conn_live t a (c\<lparr>conn_state := Connected\<rparr>) ch'"
      "registered t = (registered s)(fd \<mapsto> cha)"
      "same_loop (put_conn a (c\<lparr>conn_state := Connected\<rparr>) (assert_in_loop_thread (is_in_loop_thread me S) S)) s1"
      "on_connection app cb a s1 = Inr t"
    using connect_established_ok [of S a c ch cb app os me] S(2,3,5,6) assms(4,5) quiet_client_ok [OF q] by auto
  have "same_client S t"
    using same_client_loop [OF t(4)] quiet_clientD [OF q t(5)] by (simp add: same_client_def put_conn_def)
  then have cl: "same_client (s\<lparr>connection := Some a, client_next_id := client_next_id s + 1\<rparr>) t"
    using S(10) same_client_trans by blast
  have live: "loop_inv t" "conns t a = Some (c\<lparr>conn_state := Connected\<rparr>)" using t(2) by (simp_all add: conn_live_def)
  from conn_handle_close_ok [OF live conn_live_bound [OF t(2)], of Client_remove_connection app os me] S(4) obtain u where
    u: "conn_handle_close app os me a t = on_close app Client_remove_connection a u" "loop_inv u" "registered u = registered t"
      "same_loop (assert_in_loop_thread (is_in_loop_thread me t) t) u" by auto
  have "same_client t u" using same_client_loop [OF u(4)] by (simp add: same_client_def)
  then have cu: "same_client (s\<lparr>connection := Some a, client_next_id := client_next_id s + 1\<rparr>) u"
    using cl same_client_trans by blast
  have conns: "conns u = conns t" using conns_more [OF same_loopD(1) [OF u(4)]] by simp
  let ?s2 = "queue_in_loop os me (Conn_connect_destroyed a) (u\<lparr>connection := None\<rparr>)"
  have s2: "loop_inv ?s2" "connection ?s2 = None" "conns ?s2 = conns t" "registered ?s2 = registered t"
      "pending_functors ?s2 = pending_functors s @ [Conn_connect_destroyed a]"
      "client_retry ?s2 = client_retry s" "client_connect ?s2 = client_connect s"
    using u(2,3) cu conns loop_inv_agree [OF u(2), of ?s2]
    by (simp_all add: same_client_def registered_def queue_in_loop_def Let_def wakeup_def issue_def log_to_def)
  have "conn_handle_close app os me a t = (if client_retry s \<and> client_connect s then connector_restart os me cha' ta ?s2 else Inr ?s2)"
    using u(1) cu assms(2,10) s2(6,7)
    by (simp add: client_app_def client_remove_connection_def same_client_def is_in_loop_thread_def assert_in_loop_thread_def Let_def)
  then show ?thesis using S(1) t(1,3) cl live s2
    by (intro exI [of _ t] exI [of _ ?s2] exI [of _ "c\<lparr>conn_state := Connected\<rparr>"]) (simp add: same_client_def)
qed

text \<open>
  A descriptor on which \<^verbatim>\<open>poll(2)\<close> fails is dropped without being closed, and no connection is
  made: the connector has let go of it already.
\<close>

lemma client_leaks_descriptor:
  assumes "os_ret os (length (syscalls s)) < 0"
  shows "\<exists>t. client_new_connection app os me a cha fd s = Inr t \<and> syscalls t = syscalls s @ [Sys_poll_one fd] \<and>
    connection t = connection s"
  using assms by (simp add: client_new_connection_def issue_def log_to_def)

section \<open>Example\<close>

definition sample_client :: "nat client" where
  "sample_client = connector.extend idle_connector
     (client.fields (Some 0) None None False True 1 None)"

definition client_silent_app :: "(nat, nat client) app" where
  "client_silent_app = \<lparr>on_connection = (\<lambda>cb b s. Inr s), on_message = (\<lambda>cb b t s. Inr s),
     on_write_complete = (\<lambda>cb b s. Inr s), on_close = (\<lambda>cb b s. Inr s)\<rparr>"

theorem client_session_witness:
  "\<exists>s1 s2. client_new_connection (client_app (sample_os 0) 7 60 70 client_silent_app) (sample_os 0) 7 30 20 9 sample_client = Inr s1 \<and>
     connection s1 = Some 30 \<and>
     conn_handle_close (client_app (sample_os 0) 7 60 70 client_silent_app) (sample_os 0) 7 30 s1 = Inr s2 \<and> connection s2 = None"
proof -
  let ?s = sample_client
  note defs = sample_client_def idle_connector_def sample_connector_def connector.defs client.defs
  have "loop_inv ?s" "thread_id ?s = 7" "chans ?s 20 = None" "0 \<le> (9::int)" "registered ?s 9 = None"
    "client_next_id ?s < INT_MAX" "connection_callback ?s = Some 0" "0 \<le> os_ret (sample_os 0) (length (syscalls ?s))"
    "quiet_client client_silent_app 0"
    by (simp_all add: defs loop_inv_def ep_inv_def registered_def INT_MAX_def sample_os_def quiet_client_def
        client_silent_app_def same_client_def)
  moreover have "\<not> client_retry ?s" by (simp add: defs)
  ultimately show ?thesis using client_session [of ?s 7 20 9 0 "sample_os 0" client_silent_app _ 60 70 30] by auto
qed

end
