(* ===== verification/Time_Text.thy ===== *)
theory Time_Text
  imports Inet_Address Time_Stamp "HOL-Library.Signed_Division"
begin

text \<open>
  The text of a point in time, in front of every line of a log (\<^verbatim>\<open>logger/logger.cpp\<close>,
  \<^verbatim>\<open>time_utils/TimeDataStructure.hpp\<close>, \<^verbatim>\<open>TimerQueue.cpp\<close>).  The rendering of whole seconds by \<^verbatim>\<open>localtime\<close>
  and \<^verbatim>\<open>strftime\<close> depends on the time zone and is a parameter (\<open>lt\<close>, applied to seconds since the epoch).
\<close>

text \<open>
  \<^verbatim>\<open>getCurrentTime\<close>: time points count nanoseconds; \<^verbatim>\<open>duration_cast\<close> and \<^verbatim>\<open>%\<close> truncate.  A fill
  character is set but no width, so the milliseconds are not padded.
\<close>

definition getCurrentTime :: "(int \<Rightarrow> string) \<Rightarrow> int \<Rightarrow> string" where
  "getCurrentTime lt t =
     lt (t sdiv 1000000000) @ ''.'' @ dec_int ((t sdiv 1000000) smod 1000) @ ''] ''"

text \<open>The member of \<^verbatim>\<open>TimeStamp\<close> and the function of the timer queue have the same body.\<close>

definition timestamp_to_string :: "(int \<Rightarrow> string) \<Rightarrow> timestamp \<Rightarrow> string" where
  "timestamp_to_string lt t =
     lt (ts_val t sdiv 1000000000) @ ''.'' @ dec_int ((ts_val t sdiv 1000000) smod 1000) @ ''] ''"

definition timer_to_string :: "(int \<Rightarrow> string) \<Rightarrow> timestamp \<Rightarrow> string" where
  "timer_to_string lt t =
     lt (ts_val t sdiv 1000000000) @ ''.'' @ dec_int ((ts_val t sdiv 1000000) smod 1000) @ ''] ''"

lemma to_string_same:
  "timestamp_to_string lt t = getCurrentTime lt (ts_val t)" "timer_to_string lt t = getCurrentTime lt (ts_val t)"
  by (simp_all add: timestamp_to_string_def timer_to_string_def getCurrentTime_def)

text \<open>Since the epoch, the second part is the number of milliseconds within the second.\<close>

lemma getCurrentTime_pos:
  assumes "0 \<le> t"
  shows "getCurrentTime lt t = lt (t div 1000000000) @ ''.'' @ dec (nat (t div 1000000 mod 1000)) @ ''] ''"
proof -
  have "t sdiv n = t div n" if "0 < n" for n :: int
    using assms that by (auto simp: signed_divide_int_def sgn_if)
  moreover have "(t div n) smod m = (t div n) mod m" if "0 < n" "0 < m" for n m :: int
    using assms that pos_imp_zdiv_nonneg_iff [of n t] by (auto simp: signed_modulo_int_def sgn_if)
  ultimately show ?thesis by (simp add: getCurrentTime_def dec_int_def)
qed

text \<open>
  Read as a decimal fraction the text is wrong below a tenth of a second, and later times can read as earlier ones:
  5 ms print as .5 and 40 ms as .40.
\<close>

lemma milliseconds_not_padded:
  "getCurrentTime lt 5000000 = lt 0 @ ''.5] ''" "getCurrentTime lt 40000000 = lt 0 @ ''.40] ''"
proof -
  have "dec 5 = ''5''" "dec 40 = ''40''" by code_simp+
  then show "getCurrentTime lt 5000000 = lt 0 @ ''.5] ''" "getCurrentTime lt 40000000 = lt 0 @ ''.40] ''"
    by (simp_all add: getCurrentTime_pos)
qed

end
