(* ===== verification/Logger.thy ===== *)
theory Logger
  imports Time_Text
begin

text \<open>
  The loggers (\<^verbatim>\<open>logger/logger.hpp\<close>, \<^verbatim>\<open>logger.cpp\<close>): messages are collected per logger and a writer
  thread moves them to files from time to time.  The eight loggers of the library share
  one writer, which is part of the state.  Every access to a collection is under the
  logger's mutex, so a run of several threads is a sequence of whole accesses.
\<close>

section \<open>State\<close>

record log_info =
  log_context :: string
  log_time :: int

record logger =
  container :: "log_info list"
  log_path :: string
  log_state :: int

text \<open>The writer's list and flag, the files, and whether \<^verbatim>\<open>abort()\<close> was called.\<close>

record log_system = world +
  loggers :: "nat \<rightharpoonup> logger"
  writter_loggers :: "nat list"
  running :: bool
  files :: "string \<rightharpoonup> string"
  aborted :: bool

section \<open>Operations\<close>

definition log_line :: "(int \<Rightarrow> string) \<Rightarrow> log_info \<Rightarrow> string" where
  "log_line lt i = getCurrentTime lt (log_time i) @ log_context i @ [CHR 0x0A]"

definition logger_output :: "logger \<Rightarrow> log_info list \<times> logger" where
  "logger_output l = (container l, l\<lparr>container := []\<rparr>)"

definition append_file :: "string \<Rightarrow> string \<Rightarrow> (string \<rightharpoonup> string) \<Rightarrow> (string \<rightharpoonup> string)" where
  "append_file p text fs = fs(p \<mapsto> (case fs p of None \<Rightarrow> [] | Some old \<Rightarrow> old) @ text)"

definition writter_write :: "(int \<Rightarrow> string) \<Rightarrow> nat \<Rightarrow> ('z) log_system_scheme \<Rightarrow> ('z) log_system_scheme res" where
  "writter_write lt a s =
     (case loggers s a of
        None \<Rightarrow> Inl Bad_deref
      | Some l \<Rightarrow>
          (case logger_output l of (trash, l') \<Rightarrow>
           Inr (s\<lparr>loggers := (loggers s)(a \<mapsto> l'),
                  files := append_file (log_path l) (concat (map (log_line lt) trash)) (files s)\<rparr>)))"

definition register_as :: "nat \<Rightarrow> ('z) log_system_scheme \<Rightarrow> ('z) log_system_scheme" where
  "register_as a s = s\<lparr>writter_loggers := writter_loggers s @ [a]\<rparr>"

text \<open>What the writer does with one logger.\<close>

definition visit_logger :: "(int \<Rightarrow> string) \<Rightarrow> nat \<Rightarrow> ('z) log_system_scheme \<Rightarrow> ('z) log_system_scheme res" where
  "visit_logger lt a s =
     (case loggers s a of
        None \<Rightarrow> Inl Bad_deref
      | Some l \<Rightarrow>
          if container l \<noteq> [] then
            andthen (writter_write lt a s) (\<lambda>s1. Inr (if log_state l \<ge> 6 then s1\<lparr>aborted := True\<rparr> else s1))
          else Inr s)"

text \<open>The \<^verbatim>\<open>for\<close> over the loggers and the \<^verbatim>\<open>while\<close> of \<^verbatim>\<open>run\<close>; \<open>None\<close>: still running when the fuel is used up.\<close>

fun visit_all :: "(int \<Rightarrow> string) \<Rightarrow> nat list \<Rightarrow> ('z) log_system_scheme \<Rightarrow> ('z) log_system_scheme res" where
  "visit_all lt [] s = Inr s"
| "visit_all lt (a # as) s =
     andthen (visit_logger lt a s) (\<lambda>s1. if aborted s1 then Inr s1 else visit_all lt as s1)"

fun writter_run ::
  "nat \<Rightarrow> (int \<Rightarrow> string) \<Rightarrow> ('z) log_system_scheme \<Rightarrow> ('z) log_system_scheme res option" where
  "writter_run fuel lt s =
     (if \<not> running s then Some (Inr s)
      else case fuel of 0 \<Rightarrow> None
           | Suc n \<Rightarrow>
               (case visit_all lt (writter_loggers s) s of
                  Inl e \<Rightarrow> Some (Inl e)
                | Inr s1 \<Rightarrow> if aborted s1 then Some (Inr s1) else writter_run n lt s1))"

definition stop_run :: "('z) log_system_scheme \<Rightarrow> ('z) log_system_scheme" where
  "stop_run s = s\<lparr>running := False\<rparr>"

text \<open>\<^verbatim>\<open>operator<<\<close>.\<close>

definition logger_put :: "clock \<Rightarrow> nat \<Rightarrow> string \<Rightarrow> ('z) log_system_scheme \<Rightarrow> ('z) log_system_scheme res" where
  "logger_put clk a msg s =
     (case loggers s a of
        None \<Rightarrow> Inl Bad_deref
      | Some l \<Rightarrow>
          (case read_clock clk s of (now, s1) \<Rightarrow>
           Inr (s1\<lparr>loggers := (loggers s1)(a \<mapsto> l\<lparr>container := container l @ [\<lparr>log_context = msg, log_time = now\<rparr>]\<rparr>)\<rparr>)))"

definition Logger_ctor :: "nat \<Rightarrow> string \<Rightarrow> int \<Rightarrow> ('z) log_system_scheme \<Rightarrow> ('z) log_system_scheme" where
  "Logger_ctor a path level s =
     register_as a (s\<lparr>loggers := (loggers s)(a \<mapsto> \<lparr>container = [], log_path = path, log_state = level\<rparr>),
                      files := (files s)(path \<mapsto> [])\<rparr>)"

definition register_to :: "nat \<Rightarrow> ('z) log_system_scheme \<Rightarrow> ('z) log_system_scheme" where
  "register_to a s = register_as a s"

definition Logger_dtor :: "(int \<Rightarrow> string) \<Rightarrow> nat \<Rightarrow> ('z) log_system_scheme \<Rightarrow> ('z) log_system_scheme res" where
  "Logger_dtor lt a s =
     andthen (writter_write lt a (stop_run s)) (\<lambda>s1. Inr (s1\<lparr>loggers := (loggers s1)(a := None)\<rparr>))"

text \<open>The writer and the loggers of the library, constructed in this order.\<close>

definition initial_log_system :: log_system where
  "initial_log_system = \<lparr>logs = [], clock_reads = 0, loggers = Map.empty, writter_loggers = [], running = True,
     files = Map.empty, aborted = False\<rparr>"

definition library_loggers :: "(nat \<times> string \<times> int) list" where
  "library_loggers =
     [(1, ''event_trace.log'', 1), (2, ''event_debug.log'', 2), (3, ''event_info.log'', 3), (4, ''event_warn.log'', 4),
      (5, ''event_error.log'', 5), (6, ''event_fatal.log'', 6), (7, ''event_system_error.log'', 5),
      (8, ''event_system_fatal.log'', 6)]"

definition library_log_system :: log_system where
  "library_log_system = fold (\<lambda>(a, p, n). Logger_ctor a p n) library_loggers initial_log_system"

section \<open>Runs\<close>

text \<open>Threads that log, and visits of the writer, in any order; nothing happens after an abort.\<close>

datatype log_event = Put nat string | Visit nat

fun log_exec :: "(int \<Rightarrow> string) \<Rightarrow> clock \<Rightarrow> log_event \<Rightarrow> ('z) log_system_scheme \<Rightarrow> ('z) log_system_scheme res" where
  "log_exec lt clk (Put a msg) s = (if aborted s then Inr s else logger_put clk a msg s)"
| "log_exec lt clk (Visit a) s = (if aborted s then Inr s else visit_logger lt a s)"

text \<open>The messages sent to a logger by a sequence of events, the clock being read from the \<open>k\<close>-th reading on.\<close>

fun sent :: "clock \<Rightarrow> nat \<Rightarrow> nat \<Rightarrow> log_event list \<Rightarrow> log_info list" where
  "sent clk k a [] = []"
| "sent clk k a (Put b msg # es) =
     (if b = a then [\<lparr>log_context = msg, log_time = clk k\<rparr>] else []) @ sent clk (Suc k) a es"
| "sent clk k a (Visit b # es) = sent clk k a es"

text \<open>Everything a logger was ever given: what is in its file and what is still collected.\<close>

definition logged :: "(int \<Rightarrow> string) \<Rightarrow> ('z) log_system_scheme \<Rightarrow> nat \<Rightarrow> string" where
  "logged lt s a =
     (case loggers s a of None \<Rightarrow> []
      | Some l \<Rightarrow> (case files s (log_path l) of None \<Rightarrow> [] | Some old \<Rightarrow> old) @ concat (map (log_line lt) (container l)))"

text \<open>Loggers write to files of their own.\<close>

definition own_files :: "('z) log_system_scheme \<Rightarrow> bool" where
  "own_files s \<longleftrightarrow> inj_on (\<lambda>a. map_option log_path (loggers s a)) (dom (loggers s))"

fun event_logger :: "log_event \<Rightarrow> nat" where
  "event_logger (Put a msg) = a"
| "event_logger (Visit a) = a"

lemma own_files_put:
  assumes "own_files s" and "loggers s a = Some l" and "loggers t = (loggers s)(a \<mapsto> l')" and "log_path l' = log_path l"
  shows "own_files t" and "dom (loggers t) = dom (loggers s)"
proof -
  show "dom (loggers t) = dom (loggers s)" using assms(2,3) by auto
  moreover have "map_option log_path (loggers t b) = map_option log_path (loggers s b)" for b
    using assms(2-4) by simp
  ultimately show "own_files t" using assms(1) by (simp add: own_files_def)
qed

lemma log_exec_ok:
  assumes own: "own_files s" and ev: "event_logger e \<in> dom (loggers s)" and run: "\<not> aborted s"
  shows "\<exists>t. log_exec lt clk e s = Inr t \<and> own_files t \<and> dom (loggers t) = dom (loggers s) \<and>
    clock_reads t = clock_reads s + length (case e of Put a msg \<Rightarrow> [msg] | Visit a \<Rightarrow> []) \<and>
    (\<forall>a. map_option log_state (loggers t a) = map_option log_state (loggers s a)) \<and>
    (\<forall>a \<in> dom (loggers s). logged lt t a = logged lt s a @ concat (map (log_line lt) (sent clk (clock_reads s) a [e]))) \<and>
    (aborted t \<longrightarrow> (\<exists>l. loggers s (event_logger e) = Some l \<and> 6 \<le> log_state l))"
proof (cases e)
  case (Put a msg)
  then obtain l where l: "loggers s a = Some l" using ev by auto
  let ?l = "l\<lparr>container := container l @ [\<lparr>log_context = msg, log_time = clk (clock_reads s)\<rparr>]\<rparr>"
  let ?t = "s\<lparr>clock_reads := Suc (clock_reads s), loggers := (loggers s)(a \<mapsto> ?l)\<rparr>"
  have "log_exec lt clk e s = Inr ?t" using Put l run by (simp add: logger_put_def read_clock_def)
  moreover have "own_files ?t" "dom (loggers ?t) = dom (loggers s)"
    using own_files_put [OF own l, of ?t ?l] by simp_all
  ultimately show ?thesis using Put l run by (intro exI [of _ ?t]) (auto simp: logged_def)
next
  case (Visit a)
  then obtain l where l: "loggers s a = Some l" using ev by auto
  show ?thesis
  proof (cases "container l = []")
    case True
    then have "log_exec lt clk e s = Inr s" using Visit l run by (simp add: visit_logger_def)
    then show ?thesis using Visit own run by simp
  next
    case False
    let ?l = "l\<lparr>container := []\<rparr>"
    let ?t = "s\<lparr>loggers := (loggers s)(a \<mapsto> ?l),
      files := append_file (log_path l) (concat (map (log_line lt) (container l))) (files s), aborted := (6 \<le> log_state l)\<rparr>"
    have "log_exec lt clk e s = Inr ?t"
      using Visit l run False by (auto simp: visit_logger_def writter_write_def logger_output_def)
    moreover have "own_files ?t" "dom (loggers ?t) = dom (loggers s)"
      using own_files_put [OF own l, of ?t ?l] by simp_all
    moreover have "logged lt ?t b = logged lt s b" if b: "b \<in> dom (loggers s)" for b
    proof (cases "b = a")
      case True
      then show ?thesis using l by (simp add: logged_def append_file_def)
    next
      case neq: False
      from b obtain m where m: "loggers s b = Some m" by auto
      with own l neq have "log_path m \<noteq> log_path l" unfolding own_files_def inj_on_def
        by (metis domI option.simps(9))
      then show ?thesis using m neq by (simp add: logged_def append_file_def)
    qed
    ultimately show ?thesis using Visit l by (intro exI [of _ ?t]) auto
  qed
qed

lemma log_exec_aborted: "aborted s \<Longrightarrow> fold_res (log_exec lt clk) es s = Inr s"
proof (induction es)
  case (Cons e es)
  then show ?case by (cases e) simp_all
qed simp

lemma sent_Cons:
  "sent clk k a (e # es) = sent clk k a [e] @ sent clk (k + length (case e of Put a msg \<Rightarrow> [msg] | Visit a \<Rightarrow> [])) a es"
  by (cases e) simp_all

lemma log_execs_ok:
  assumes "own_files s" and "\<not> aborted s" and "event_logger ` set es \<subseteq> dom (loggers s)"
  shows "\<exists>t. fold_res (log_exec lt clk) es s = Inr t \<and>
    (if aborted t then \<exists>a l. Visit a \<in> set es \<and> loggers s a = Some l \<and> 6 \<le> log_state l
     else \<forall>a \<in> dom (loggers s). logged lt t a = logged lt s a @ concat (map (log_line lt) (sent clk (clock_reads s) a es)))"
  using assms
proof (induction es arbitrary: s)
  case (Cons e es)
  from log_exec_ok [OF Cons.prems(1) _ Cons.prems(2), of e lt clk] Cons.prems(3) obtain t where
    t: "log_exec lt clk e s = Inr t" "own_files t" "dom (loggers t) = dom (loggers s)"
      "clock_reads t = clock_reads s + length (case e of Put a msg \<Rightarrow> [msg] | Visit a \<Rightarrow> [])"
      "\<forall>a. map_option log_state (loggers t a) = map_option log_state (loggers s a)"
      "\<forall>a \<in> dom (loggers s). logged lt t a = logged lt s a @ concat (map (log_line lt) (sent clk (clock_reads s) a [e]))"
      "aborted t \<longrightarrow> (\<exists>l. loggers s (event_logger e) = Some l \<and> 6 \<le> log_state l)" by auto
  show ?case
  proof (cases "aborted t")
    case True
    then have "\<exists>a. e = Visit a" using t(1) Cons.prems(2)
      by (cases e) (auto simp: logger_put_def read_clock_def split: option.splits)
    with True t log_exec_aborted [OF True] show ?thesis by fastforce
  next
    case False
    have "event_logger ` set es \<subseteq> dom (loggers t)" using Cons.prems(3) t(3) by simp
    from Cons.IH [OF t(2) False this] obtain u where
      u: "fold_res (log_exec lt clk) es t = Inr u"
        "if aborted u then \<exists>a l. Visit a \<in> set es \<and> loggers t a = Some l \<and> 6 \<le> log_state l
         else \<forall>a \<in> dom (loggers t). logged lt u a = logged lt t a @ concat (map (log_line lt) (sent clk (clock_reads t) a es))" by blast
    have "\<exists>l'. loggers s a = Some l' \<and> log_state l' = log_state l" if "loggers t a = Some l" for a l
      using t(5) [rule_format, of a] that by (cases "loggers s a") auto
    then have "\<exists>a l. Visit a \<in> set (e # es) \<and> loggers s a = Some l \<and> 6 \<le> log_state l" if "aborted u"
      using u(2) that by fastforce
    moreover have "logged lt u a = logged lt s a @ concat (map (log_line lt) (sent clk (clock_reads s) a (e # es)))"
      if "a \<in> dom (loggers s)" "\<not> aborted u" for a
      using u(2) that t(3,4,6) by (subst sent_Cons) simp
    ultimately show ?thesis using t(1) u(1) by auto
  qed
qed simp

text \<open>
  A message to a fatal logger does not end the program: the writer does, when it next visits
  that logger, after the message is in the file.
\<close>

lemma fatal_message_aborts_later:
  assumes "own_files s" and "\<not> aborted s" and "loggers s a = Some l" and "6 \<le> log_state l"
  shows "\<exists>t u. logger_put clk a msg s = Inr t \<and> \<not> aborted t \<and> visit_logger lt a t = Inr u \<and> aborted u \<and>
    files u (log_path l) = Some (logged lt s a @ log_line lt \<lparr>log_context = msg, log_time = clk (clock_reads s)\<rparr>)"
  using assms
  by (simp add: logger_put_def read_clock_def visit_logger_def writter_write_def logger_output_def append_file_def logged_def)

section \<open>Properties\<close>

text \<open>
  C14.  No message is lost, repeated or reordered: whatever messages are sent to the loggers
  by any threads and whenever the writer visits them, each logger's file followed by the lines still collected
  is what it was before followed by the lines of the messages sent since, in order, unless
  the writer has met a message in a logger of level \<^verbatim>\<open>FATAL\<close> or above and aborted the program.
\<close>

theorem log_complete:
  assumes "own_files s" and "\<not> aborted s" and "event_logger ` set es \<subseteq> dom (loggers s)"
  shows "\<exists>t. fold_res (log_exec lt clk) es s = Inr t \<and>
    (if aborted t then \<exists>a l. Visit a \<in> set es \<and> loggers s a = Some l \<and> 6 \<le> log_state l
     else \<forall>a \<in> dom (loggers s). logged lt t a = logged lt s a @ concat (map (log_line lt) (sent clk (clock_reads s) a es)))"
  using assms by (rule log_execs_ok)

theorem log_complete_witness:
  "\<exists>t. fold_res (log_exec (\<lambda>_. ''[now'') (\<lambda>_. 0)) [Put 3 ''a'', Visit 3, Put 3 ''b''] library_log_system = Inr t \<and>
     logged (\<lambda>_. ''[now'') t 3 = ''[now.0] a'' @ [CHR 0x0A] @ ''[now.0] b'' @ [CHR 0x0A]"
proof -
  let ?s = library_log_system and ?es = "[Put 3 ''a'', Visit 3, Put 3 ''b'']"
  have s: "loggers ?s = [1 \<mapsto> \<lparr>container = [], log_path = ''event_trace.log'', log_state = 1\<rparr>,
      2 \<mapsto> \<lparr>container = [], log_path = ''event_debug.log'', log_state = 2\<rparr>,
      3 \<mapsto> \<lparr>container = [], log_path = ''event_info.log'', log_state = 3\<rparr>,
      4 \<mapsto> \<lparr>container = [], log_path = ''event_warn.log'', log_state = 4\<rparr>,
      5 \<mapsto> \<lparr>container = [], log_path = ''event_error.log'', log_state = 5\<rparr>,
      6 \<mapsto> \<lparr>container = [], log_path = ''event_fatal.log'', log_state = 6\<rparr>,
      7 \<mapsto> \<lparr>container = [], log_path = ''event_system_error.log'', log_state = 5\<rparr>,
      8 \<mapsto> \<lparr>container = [], log_path = ''event_system_fatal.log'', log_state = 6\<rparr>]"
    "\<not> aborted ?s" "files ?s ''event_info.log'' = Some []" "clock_reads ?s = 0"
    by (simp_all add: library_log_system_def library_loggers_def initial_log_system_def Logger_ctor_def register_as_def)
  have "own_files ?s" by (simp add: own_files_def inj_on_def s(1))
  from log_complete [OF this s(2), of ?es "\<lambda>_. ''[now''" "\<lambda>_. 0"] obtain t where
    t: "fold_res (log_exec (\<lambda>_. ''[now'') (\<lambda>_. 0)) ?es ?s = Inr t"
      "if aborted t then \<exists>a l. Visit a \<in> set ?es \<and> loggers ?s a = Some l \<and> 6 \<le> log_state l
       else \<forall>a \<in> dom (loggers ?s). logged (\<lambda>_. ''[now'') t a =
         logged (\<lambda>_. ''[now'') ?s a @ concat (map (log_line (\<lambda>_. ''[now'')) (sent (\<lambda>_. 0) (clock_reads ?s) a ?es))"
    by (auto simp: s(1))
  have "dec 0 = ''0''" by (subst dec.simps) (simp add: digit_def char_of_def bit_Suc_0_iff)
  then have "logged (\<lambda>_. ''[now'') t 3 = ''[now.0] a'' @ [CHR 0x0A] @ ''[now.0] b'' @ [CHR 0x0A]"
    using t(2) by (auto simp: s logged_def log_line_def getCurrentTime_def dec_int_def split: if_splits)
  with t(1) show ?thesis by blast
qed

end
