(* ===== verification/Spec2Isabelle.thy ===== *)
theory Spec2Isabelle
  imports Poller_Equivalence Server_Turn Server_Run Tcp_Client Logger
begin

text \<open>
  Verification of the reactor network library: an event loop over \<^verbatim>\<open>poll\<close> or \<^verbatim>\<open>epoll\<close>, timers, buffered
  TCP connections, a server, a client with reconnection, loops in further threads, and an
  asynchronous logger.  All paths below are relative to \<^verbatim>\<open>src/\<close>.

  \<^bold>\<open>The program.\<close>  An \<^verbatim>\<open>EventLoop\<close> belongs to one thread.  In every turn it waits in its poller,
  calls the callbacks of the \<^verbatim>\<open>Channel\<close>s that are ready and then runs the functors other
  code has queued.  Its \<^verbatim>\<open>TimerQueue\<close> is one such channel, on a timer descriptor; an \<^verbatim>\<open>Acceptor\<close>, each
  \<^verbatim>\<open>TcpConnection\<close> and a pending \<^verbatim>\<open>Connector\<close> are others.  \<^verbatim>\<open>TcpServer\<close> and \<^verbatim>\<open>TcpClient\<close> own connections, make them
  when a descriptor is handed to them and drop them when they close; a connection is freed through
  a queued functor, after the turn in which it closed.

  \<^bold>\<open>The model.\<close>  State is passed explicitly, as records that extend one another the way the
  components build on one another: \<open>world\<close> (log, clock readings), \<open>heap\<close> (channels),
  \<open>reactor\<close> (loop, poller, timers, system calls issued), \<open>net\<close> (connections), then \<open>acceptor\<close> and
  \<open>server\<close>, or \<open>connector\<close> and \<open>client\<close>.  Objects that are shared live in stores under addresses.  An
  operation returns \<open>Inr\<close> of its result, or \<open>Inl\<close> of an error: a failed assertion, a null or dangling
  dereference, an index or a conversion out of range, an empty \<^verbatim>\<open>std::function\<close>, a signed overflow.
  Callbacks are values of the datatype \<open>closure\<close>; what calling one does is given by
  \<open>loop_closure\<close>, \<open>conn_call\<close>, \<open>server_call\<close> and \<open>client_call\<close>.  Code of the application is a parameter.
  The operating system is a parameter too: the \<open>k\<close>-th system call issued gets the \<open>k\<close>-th answer of the
  record \<open>os\<close>, so a theorem for all \<open>os\<close> is one for every behaviour of the kernel.
  Threads are identified by numbers; the thread that executes an operation is its argument \<open>me\<close>.

  \<^bold>\<open>The theories.\<close>
  \<^item> \<open>Prelude\<close>: errors and sequencing, the parts of the C++ library in use, the simplification rules shared.
  \<^item> \<open>Buffer\<close> (\<^verbatim>\<open>buffer/\<close>): every operation of the byte buffer, with \<^verbatim>\<open>size_t\<close> wrap-around.  The locale of a byte
    queue is interpreted by it: appending, retrieving and reading from a descriptor are queue operations; \<^verbatim>\<open>prepend\<close> and
    \<^verbatim>\<open>shrink\<close> are shown to go wrong.
  \<^item> \<open>Time_Stamp\<close> (\<^verbatim>\<open>time_utils/TimeDataStructure.hpp\<close>, \<^verbatim>\<open>Timer.hpp\<close>): time points, timers and \<^verbatim>\<open>add_time\<close> with rounding.
  \<^item> \<open>Channel\<close> (\<^verbatim>\<open>event_loop/Channel\<close>): event masks and the dispatch of ready events.
  \<^item> \<open>Poller_Interface\<close> (\<^verbatim>\<open>poller/PollerInterface.hpp\<close>): the contract of a poller as a locale; \<open>Poll_Poller\<close> and
    \<open>Epoll_Poller\<close> (\<^verbatim>\<open>poller/Poller\<close>, \<^verbatim>\<open>poller/Epoller\<close>) interpret it.  Array, indices and map stay
    consistent; the kernel's interest list mirrors the channels.
  \<^item> \<open>Poller_Equivalence\<close>: both pollers implement one abstract specification of the registrations, so the choice
    made in \<^verbatim>\<open>poller/DefaultPoller.hpp\<close> does not show in them.
  \<^item> \<open>Inet_Address\<close> (\<^verbatim>\<open>tcp/InetAddress\<close>, byte order in \<^verbatim>\<open>tcp/SocketsOps.hpp\<close>): addresses survive printing and parsing.
  \<^item> \<open>Event_Loop\<close> (\<^verbatim>\<open>event_loop/EventLoop\<close>, \<^verbatim>\<open>poller/DefaultPoller.hpp\<close>): the loop over either poller (a third interpretation
    of the contract), pending functors, \<^verbatim>\<open>loop()\<close>.
  \<^item> \<open>Poll_Phase\<close>: the call of \<^verbatim>\<open>poll\<close> in a turn, through either poller: for every documented answer of the kernel the active
    channels are those it names, and nothing else changes.
  \<^item> \<open>Timer_Queue\<close> (\<^verbatim>\<open>time_utils/TimerQueue\<close>): the ordered multimap of timers, a locale interpreted by sorted
    lists, expiration, renewal, arming, cancelling, and the loop's constructor and destructor.
  \<^item> \<open>Timer_Safety\<close>: timers whose callbacks set and cancel timers themselves: an expiration still ends with the queue in order.
  \<^item> \<open>Sockets\<close> (\<^verbatim>\<open>tcp/SocketsOps.cpp\<close>, \<^verbatim>\<open>tcp/Socket\<close>): system calls and their error handling.
  \<^item> \<open>Tcp_Connection\<close> (\<^verbatim>\<open>tcp/TcpConnection\<close>): no byte sent is lost or reordered, output drains, the write side is closed
    after the last byte, a connection is established and destroyed at most once.
  \<^item> \<open>Conn_Safety\<close>: any number of connections on one loop, and applications that are more than silent: a \<open>script\<close> says
    for each callback which operations of the library the application performs (\<^verbatim>\<open>send\<close>, \<^verbatim>\<open>shutdown\<close>, taking input, on any connection; setting and cancelling timers, queueing functors).  Every
    operation of a connection ends in order or with \<^verbatim>\<open>std::length_error\<close> (\<open>length_safe\<close>), and leaves the other connections alone.
  \<^item> \<open>Echo\<close>: one application in full, which sends back what it receives: reading, the message callback, sending and the
    writability events together return every byte in order.
  \<^item> \<open>Thread_Pool\<close> (\<^verbatim>\<open>event_loop/EventLoopThread\<close>, \<^verbatim>\<open>EventLoopThreadPool\<close>): the start handshake and the
    destruction of a loop thread as step relations; the pool.
  \<^item> \<open>Acceptor\<close> (\<^verbatim>\<open>tcp/Acceptor\<close>): accepting, and the reserve descriptor.
  \<^item> \<open>Tcp_Server\<close> (\<^verbatim>\<open>tcp/TcpServer\<close>): construction, arrival and removal of connections with an invariant of the connection map,
    and that a connection must not be closed twice.
  \<^item> \<open>Server_Turn\<close>: one turn of the loop of a server, from the answer of the poll through the dispatch of
    the ready channel to the functors, for a peer that hangs up.
  \<^item> \<open>Conn_Lifetime\<close>: when a connection is freed.  The functor that destroys it holds the last reference, unless the application has
    one (\<open>held\<close>), and goes away at the end of its batch (\<open>drop_functor\<close>, \<open>run_functors\<close>, \<open>server_loop_once\<close>).  The functors of the
    write-complete callback hold a raw pointer, and one of them can be called too late.
  \<^item> \<open>Server_Loop\<close>, \<open>Server_Run\<close>: a server under load.  The first has its invariant (\<open>serving\<close>) and shows that handling any
    one ready channel keeps it; the second composes poll, dispatch of any list of ready channels, functors and the freeing of connections into a turn,
    and turns into runs from the constructors of loop and server on.  No freed connection is used if the application keeps its connections or sets no
    write-complete callback (\<open>tidy\<close>).  The turns in which a peer hangs up and in which a connection arrives are at the end of this theory.  What the kernel and the allocator owe the program is stated in \<open>wait_ok\<close>, \<open>env_ok\<close>
    and \<open>turn_ok\<close>: no more bytes read than there is room for, fresh descriptors and addresses, fewer than \<^verbatim>\<open>INT_MAX\<close>
    connections, no reading of the clock at the very microsecond of a timer, and no hang-up without input that is reported together with priority data or half-close.
  \<^item> \<open>Connector\<close> (\<^verbatim>\<open>tcp/Connector\<close>): the result of starting and of deciding an attempt, on every branch.
  \<^item> \<open>Tcp_Client\<close> (\<^verbatim>\<open>tcp/TcpClient\<close>): the session of a client.
  \<^item> \<open>Time_Text\<close>: the text of a time point in a log line.
  \<^item> \<open>Logger\<close> (\<^verbatim>\<open>logger/\<close>): no message is lost or reordered under any interleaving with the writer.

  \<^bold>\<open>Bounds and fuel.\<close>  \<open>size_t\<close>, \<open>uint64_t\<close> and event masks are words; \<^verbatim>\<open>int\<close> counters are integers with the
  overflow written out.  \<open>loop_while\<close>, \<open>shutdown_while\<close>, \<open>accept_while\<close> and \<open>writter_run\<close> take fuel and return
  \<open>None\<close> when it is used up: one unit is shown to be enough for \<^verbatim>\<open>shutdown\<close>, and \<^verbatim>\<open>loop()\<close> returns with as much fuel as
  it makes turns; the other two may run for ever in the program as well.
  The timers of an application in \<open>Server_Run\<close> have delays of at most 2000 seconds: \<^verbatim>\<open>add_time\<close> converts microseconds to \<^verbatim>\<open>int\<close>.

  \<^bold>\<open>Not modelled.\<close>  Trace, debug, info and warning messages;
  the texts of messages; the variants of \<^verbatim>\<open>tcp/SocketsOps.cpp\<close> for \<^verbatim>\<open>VALGRIND\<close>; when the last reference to a shared object goes away
  (destructors are operations of their own), except for the connections of a server in \<open>Conn_Lifetime\<close> and \<open>Server_Run\<close>, where
  a reference of the application is not released later; the 64-bit range of time points; \<^verbatim>\<open>epoll_ctl\<close> calls that fail although they
  are well-formed; the defaulted destructor of \<^verbatim>\<open>TcpServer\<close>; data races other than those of the two step relations of \<open>Thread_Pool\<close>: operations
  of different threads are interleaved whole, which the mutexes of \<^verbatim>\<open>pending_functors_\<close>, of a client's
  connection and of the loggers justify; \<^verbatim>\<open>main.cpp\<close>, \<^verbatim>\<open>init.hpp\<close> and the tests.
\<close>

section \<open>A turn of a server's loop\<close>





text \<open>
  C5.  A peer hangs up: in a turn of the loop in which the poller reports exactly that
  connection's channel, with a connection callback that leaves the library alone, the whole chain runs without a failure, \<^verbatim>\<open>poll\<close>, \<^verbatim>\<open>Channel::handle_event\<close>,
  \<^verbatim>\<open>TcpConnection::handle_close\<close>, \<^verbatim>\<open>TcpServer::remove_connection\<close>, \<^verbatim>\<open>do_pending_functors\<close> and
  \<^verbatim>\<open>connect_destoryed\<close>: at the end of the turn the connection has left the map and is disconnected, nothing is
  pending, the other connections are as they were and the server's invariant holds.
\<close>

theorem server_turn_hangup:
  assumes "server_inv cb s" and "thread_id s = me" and "quiet_callback user_app cb"
    and "connections s n = Some a" and "conns s a = Some c"
    and "reports_only (os_clock os) r (conn_channel c) POLLHUP (s\<lparr>active_channels := []\<rparr>)"
    and "app = server_app os me user_app"
  shows "\<exists>t c'. loop_once os (\<lambda>_. r) (server_call app os me user) (server_call_read app os me user fresh) s = Inr t \<and>
    server_inv cb t \<and> connections t = (connections s)(n := None) \<and> pending_functors t = [] \<and>
    conns t a = Some c' \<and> conn_state c' = Disconnected \<and>
    (\<forall>m b. connections t m = Some b \<longrightarrow> conns t b = conns s b)"
  using assms by (rule turn_hangup)


theorem server_turn_hangup_witness:
  "\<exists>t c'. loop_once (sample_os 0) (\<lambda>_. ((0, []), Inr [(POLLHUP, 20)]))
       (server_call (server_app (sample_os 0) 7 silent_app) (sample_os 0) 7 (\<lambda>cl s. Inr s))
       (server_call_read (server_app (sample_os 0) 7 silent_app) (sample_os 0) 7 (\<lambda>cl s. Inr s) (\<lambda>_. (80, 90))) busy_server = Inr t \<and>
     conns t 30 = Some c' \<and> conn_state c' = Disconnected"
proof -
  let ?s = "busy_server\<lparr>active_channels := []\<rparr>"
  let ?c = "(sample_conn Connected empty_buffer)\<lparr>conn_name := ''srv'' @ conn_suffix 1, conn_close_callback := Some Server_remove_connection\<rparr>"
  have c: "conns busy_server 30 = Some ?c" by (simp add: busy_server_def sample_server_def)
  have "reports_only (os_clock (sample_os 0)) ((0, []), Inr [(POLLHUP, 20)]) 20 POLLHUP ?s"
    by (rule epoll_reports_only [where p = "\<lparr>epoll_fd = 3, events_size = 16, ep_channels = [5 \<mapsto> 20], kernel = [5 \<mapsto> (POLLIN, 20)]\<rparr>"])
      (simp_all add: busy_server_def sample_server_def registered_def sample_channel_def Channel_ctor_def)
  then have "reports_only (os_clock (sample_os 0)) ((0, []), Inr [(POLLHUP, 20)]) (conn_channel ?c) POLLHUP ?s" by simp
  from server_turn_hangup [OF busy_server_inv(1,2) silent_app busy_server_inv(3) c this refl, of "\<lambda>cl s. Inr s" "\<lambda>_. (80, 90)"]
  show ?thesis by auto
qed


end
